(* ===== verification/Prelude.thy ===== *)
theory Prelude
  imports Main "HOL-Library.Word" "HOL-Library.State_Monad"
begin

unbundle bit_operations_syntax

text \<open>
  Shared vocabulary of the development: bytes and C strings, the state monad in which the
  firmware's functions are written, reachability with its invariant rule, the codec contract that
  the encodings of the firmware meet, and the generic list and word facts the components use.
\<close>

section \<open>Types of the model\<close>

type_synonym byte = "8 word"
type_synonym bytes = "byte list"
type_synonym u16 = "16 word"
type_synonym u32 = "32 word"

text \<open>
  Collections: \<open>exec_simps\<close> holds the equations that run a monadic function symbolically,
  \<open>frame_intros\<close> the rules that bound what a function may touch.
\<close>

named_theorems exec_simps \<open>equations that execute monadic code\<close>
named_theorems frame_intros \<open>rules that bound the effects of monadic code\<close>

section \<open>C strings\<close>

text \<open>The bytes of a string literal, without the terminating zero.\<close>

definition str :: "string \<Rightarrow> bytes" where
  "str cs = map of_char cs"

lemma str_Nil [simp]: "str [] = []"
  by (simp add: str_def)

lemma length_str [simp]: "length (str cs) = length cs"
  by (simp add: str_def)

text \<open>What the C library sees of a buffer: the bytes before the first zero.\<close>

definition cstr :: "bytes \<Rightarrow> bytes" where
  "cstr buf = takeWhile (\<lambda>b. b \<noteq> 0) buf"

lemma cstr_nonzero: "b \<in> set (cstr buf) \<Longrightarrow> b \<noteq> 0"
  by (auto simp: cstr_def dest: set_takeWhileD)

lemma cstr_id: "0 \<notin> set s \<Longrightarrow> cstr s = s"
  by (auto simp: cstr_def takeWhile_eq_all_conv)

lemma cstr_append_0 [simp]: "cstr (s @ 0 # rest) = cstr s"
  by (induction s) (auto simp: cstr_def)

lemma length_cstr_le: "length (cstr buf) \<le> length buf"
  by (simp add: cstr_def length_takeWhile_le)

text \<open>A call that writes \<open>d\<close> at the start of the array \<open>buf\<close>, whose size does not change.\<close>

definition overwrite :: "bytes \<Rightarrow> bytes \<Rightarrow> bytes" where
  "overwrite d buf = take (length buf) (d @ drop (length d) buf)"

lemma length_overwrite [simp]: "length (overwrite d buf) = length buf"
  by (simp add: overwrite_def)

lemma overwrite_full: "length d = length buf \<Longrightarrow> overwrite d buf = d"
  by (simp add: overwrite_def)

section \<open>The state monad\<close>

abbreviation ret :: "'a \<Rightarrow> ('s, 'a) state" where
  "ret \<equiv> State_Monad.return"

definition gets :: "('s \<Rightarrow> 'a) \<Rightarrow> ('s, 'a) state" where
  "gets f = State (\<lambda>s. (f s, s))"

definition modify :: "('s \<Rightarrow> 's) \<Rightarrow> ('s, unit) state" where
  "modify f = State (\<lambda>s. ((), f s))"

lemma run_gets [exec_simps, simp]: "run_state (gets f) s = (f s, s)"
  by (simp add: gets_def)

lemma run_modify [exec_simps, simp]: "run_state (modify f) s = ((), f s)"
  by (simp add: modify_def)

text \<open>
  Inversion of a sequential composition: the form in which a run is taken apart in proofs. The
  equation of the library splits the pair of the first run instead, which blocks rewriting.
\<close>

lemma run_bindE:
  assumes "run_state (m \<bind> f) s = (r, s')"
  obtains a t where "run_state m s = (a, t)" and "run_state (f a) t = (r, s')"
  using assms by (auto split: prod.splits)

lemma run_bind_eq:
  "run_state m s = (a, t) \<Longrightarrow> run_state (m \<bind> f) s = run_state (f a) t"
  by simp

section \<open>Weakest preconditions\<close>

definition wp :: "('s, 'a) state \<Rightarrow> ('a \<Rightarrow> 's \<Rightarrow> bool) \<Rightarrow> 's \<Rightarrow> bool" where
  "wp m Q s = (case run_state m s of (r, t) \<Rightarrow> Q r t)"

lemma wp_return [simp]: "wp (ret x) Q s = Q x s"
  by (simp add: wp_def)

lemma wp_bind [simp]: "wp (m \<bind> f) Q s = wp m (\<lambda>a t. wp (f a) Q t) s"
  by (simp add: wp_def split: prod.splits)

lemma wp_gets [simp]: "wp (gets f) Q s = Q (f s) s"
  by (simp add: wp_def)

lemma wp_modify [simp]: "wp (modify f) Q s = Q () (f s)"
  by (simp add: wp_def)

lemma wp_if [simp]: "wp (if b then m else n) Q s = (if b then wp m Q s else wp n Q s)"
  by simp

lemma wp_run: "run_state m s = (r, t) \<Longrightarrow> wp m Q s = Q r t"
  by (simp add: wp_def)

lemma wpI: "(\<And>r t. run_state m s = (r, t) \<Longrightarrow> Q r t) \<Longrightarrow> wp m Q s"
  by (simp add: wp_def split: prod.splits)

lemma wpD: "wp m Q s \<Longrightarrow> run_state m s = (r, t) \<Longrightarrow> Q r t"
  by (simp add: wp_def)

lemma wp_mono: "wp m P s \<Longrightarrow> (\<And>r t. P r t \<Longrightarrow> Q r t) \<Longrightarrow> wp m Q s"
  by (auto simp: wp_def split: prod.splits)

lemma wp_conj: "wp m P s \<Longrightarrow> wp m Q s \<Longrightarrow> wp m (\<lambda>r t. P r t \<and> Q r t) s"
  by (auto simp: wp_def split: prod.splits)

section \<open>Reachable states and invariants\<close>

inductive reach :: "('s \<Rightarrow> bool) \<Rightarrow> ('s \<Rightarrow> 's \<Rightarrow> bool) \<Rightarrow> 's \<Rightarrow> bool"
  for start :: "'s \<Rightarrow> bool" and step :: "'s \<Rightarrow> 's \<Rightarrow> bool" where
  reach_start: "start s \<Longrightarrow> reach start step s"
| reach_step: "reach start step s \<Longrightarrow> step s t \<Longrightarrow> reach start step t"

text \<open>
  The contract of an inductive invariant: it holds at the start and every step keeps it. Every
  reachable state then has it.
\<close>

locale inductive_invariant =
  fixes start :: "'s \<Rightarrow> bool" and step :: "'s \<Rightarrow> 's \<Rightarrow> bool" and Inv :: "'s \<Rightarrow> bool"
  assumes inv_start: "start s \<Longrightarrow> Inv s"
    and inv_step: "Inv s \<Longrightarrow> step s t \<Longrightarrow> Inv t"
begin

lemma reach_inv: "reach start step s \<Longrightarrow> Inv s"
  by (induction rule: reach.induct) (auto intro: inv_start inv_step)

lemma steps_inv: "step\<^sup>*\<^sup>* s t \<Longrightarrow> Inv s \<Longrightarrow> Inv t"
  by (induction rule: rtranclp_induct) (auto intro: inv_step)

end

section \<open>Encodings\<close>

text \<open>
  The contract of an encoding: decoding inverts it on the values it is used for. What a client
  needs (two values with the same encoding are the same) follows once and for all.
\<close>

locale codec =
  fixes enc :: "'a \<Rightarrow> bytes" and dec :: "bytes \<Rightarrow> 'a option" and wf :: "'a \<Rightarrow> bool"
  assumes dec_enc: "wf x \<Longrightarrow> dec (enc x) = Some x"
begin

lemma enc_inject: "wf x \<Longrightarrow> wf y \<Longrightarrow> enc x = enc y \<longleftrightarrow> x = y"
  by (metis dec_enc option.inject)

lemma enc_inj_on: "inj_on enc {x. wf x}"
  by (auto simp: inj_on_def enc_inject)

end

section \<open>Lists and words\<close>

lemma append_eq_same_length:
  "length a = length b \<Longrightarrow> a @ x = b @ y \<longleftrightarrow> a = b \<and> x = y"
  by simp

text \<open>
  Two strings that end at the first occurrence of a separator are equal when their concatenations
  with it are.
\<close>

lemma append_sep_inject:
  assumes "sep \<notin> set a" and "sep \<notin> set b"
  shows "a @ sep # x = b @ sep # y \<longleftrightarrow> a = b \<and> x = y"
proof
  assume eq: "a @ sep # x = b @ sep # y"
  have "takeWhile (\<lambda>c. c \<noteq> sep) (a @ sep # x) = a"
    and "takeWhile (\<lambda>c. c \<noteq> sep) (b @ sep # y) = b"
    using assms by (auto simp: takeWhile_append takeWhile_eq_all_conv)
  with eq have "a = b" by simp
  with eq show "a = b \<and> x = y" by simp
qed simp

text \<open>A property of every byte is checked on its 256 values.\<close>

lemma all_bytes: "(\<forall>b :: byte. P b) \<longleftrightarrow> (\<forall>n \<in> set [0..<256]. P (word_of_nat n))"
proof
  assume *: "\<forall>n \<in> set [0..<256]. P (word_of_nat n)"
  show "\<forall>b. P b"
  proof
    fix b :: byte
    have "unat b < 256"
      using unsigned_less [of b, where ?'a = nat] by simp
    then have "unat b \<in> set [0..<256]" by simp
    then have "P (word_of_nat (unat b))" using * by blast
    then show "P b" by simp
  qed
qed simp

lemma byte_cases_le: "unat (b :: byte) < 256"
  using unsigned_less [of b, where ?'a = nat] by simp

end
