(* ===== verification/Platform.thy ===== *)
theory Platform
  imports Prelude
begin

text \<open>
  The firmware's surroundings. ESP-IDF, lwIP, mbedTLS and FreeRTOS are not part of the repository,
  so each of their functions the firmware calls is a parameter: a field of the record \<open>sdk\<close>, which
  maps the call's arguments and the history of all calls made so far to the call's result. Nothing
  is assumed of a field; a theorem that relies on documented behaviour says so in a hypothesis over
  the record. Every call is recorded in the history with its result, so that what the firmware does
  and in which order is visible in its state.

  The state \<open>fw\<close> holds the static variables of \<open>auth.c\<close>, \<open>boottrace.c\<close>, \<open>net.c\<close> and \<open>ota.c\<close>,
  the state of \<open>bridge.zig\<close>, and that history. Logging (\<open>ESP_LOGx\<close>) writes to the serial console only and is left out.
\<close>

section \<open>Results of the platform's calls\<close>

type_synonym esp_err = int

abbreviation ESP_OK :: esp_err where "ESP_OK \<equiv> 0"
abbreviation ESP_FAIL :: esp_err where "ESP_FAIL \<equiv> -1"
abbreviation ESP_ERR_NVS_NOT_FOUND :: esp_err where "ESP_ERR_NVS_NOT_FOUND \<equiv> 0x1102"
abbreviation ESP_ERR_NVS_NO_FREE_PAGES :: esp_err where "ESP_ERR_NVS_NO_FREE_PAGES \<equiv> 0x110d"
abbreviation ESP_ERR_NVS_NEW_VERSION_FOUND :: esp_err where
  "ESP_ERR_NVS_NEW_VERSION_FOUND \<equiv> 0x1110"

text \<open>
  A read from a socket or a request body: bytes stored in the caller's buffer, whose number is the
  call's result, or a negative code.
\<close>

datatype rx = Rx bytes | Rx_err nat

fun rx_n :: "rx \<Rightarrow> int" where
  "rx_n (Rx bs) = int (length bs)"
| "rx_n (Rx_err k) = - int (Suc k)"

fun rx_data :: "rx \<Rightarrow> bytes" where
  "rx_data (Rx bs) = bs"
| "rx_data (Rx_err k) = []"

abbreviation HTTPD_SOCK_ERR_TIMEOUT :: int where "HTTPD_SOCK_ERR_TIMEOUT \<equiv> -3"

text \<open>A call that fills a fixed-size array: the array's contents, index by index.\<close>

definition arr :: "nat \<Rightarrow> (nat \<Rightarrow> byte) \<Rightarrow> bytes" where
  "arr n f = map f [0..<n]"

lemma length_arr [simp]: "length (arr n f) = n"
  by (simp add: arr_def)

lemma arr_nth [simp]: "length xs = n \<Longrightarrow> arr n (\<lambda>i. xs ! i) = xs"
  by (auto simp: arr_def intro: nth_equalityI)

datatype img_state = IMG_NEW | IMG_PENDING_VERIFY | IMG_VALID | IMG_INVALID | IMG_ABORTED
  | IMG_UNDEFINED

section \<open>The history of calls\<close>

datatype nvs_ev =
    Nvs_flash_init esp_err
  | Nvs_flash_erase esp_err
  | Nvs_open bool esp_err
  | Nvs_get_blob string esp_err bytes nat
  | Nvs_set_blob string bytes esp_err
  | Nvs_get_str string esp_err bytes
  | Nvs_set_str string bytes esp_err
  | Nvs_erase_key string esp_err
  | Nvs_commit esp_err
  | Nvs_close

datatype crypto_ev =
    Fill_random bytes
  | Md_setup int
  | Hmac_starts bytes int
  | Hmac_update bytes int
  | Hmac_finish int bytes
  | Md_free
  | Sha_init
  | Sha_starts int
  | Sha_update bytes int
  | Sha_finish int bytes
  | Sha_free
  | Sha256 bytes int bytes
  | Ecp_group_load int
  | Ecdh_gen_public int nat nat
  | Mpi_write_le nat int bytes
  | Mpi_read_le bytes int nat
  | Mpi_lset int int
  | Ecdh_compute_shared nat nat int nat
  | Ecp_free

datatype sockopt = SO_REUSEADDR | SO_BROADCAST | SO_KEEPALIVE | TCP_NODELAY | TCP_KEEPIDLE
  | TCP_KEEPINTVL | TCP_KEEPCNT

text \<open>An IPv4 address and a port, both in host order.\<close>

datatype sockaddr = Sockaddr u32 u16

abbreviation INADDR_BROADCAST :: u32 where "INADDR_BROADCAST \<equiv> 0xffffffff"

datatype sock_ev =
    Set_rcvtimeo int int int
  | Sock_send int bytes int
  | Sock_recv int nat rx
  | Sock_socket bool int
  | Setsockopt int sockopt int
  | Sock_bind int u16 int
  | Sock_listen int int int
  | Sock_accept int int
  | Sock_select int "int list" int int int "int list"
  | Sock_sendto int bytes sockaddr int
  | Sock_recvfrom int nat rx sockaddr
  | Sock_shutdown int
  | Sock_close int

datatype rtos_ev =
    Sb_create nat "nat option"
  | Sb_send nat bytes u32 nat
  | Sb_recv nat nat u32 bytes
  | Sb_space nat nat
  | Sem_create "nat option"
  | Sem_take nat u32 bool
  | Sem_give nat
  | Task_create string u32 u32 int bool
  | Task_delete
  | Wdt_add
  | Wdt_feed
  | System_abort
  | Vhci_available bool
  | Vhci_send bytes

text \<open>The calls that set up the network and the radio; each returns an error code.\<close>

datatype phy = LAN87XX | RTL8201 | IP101 | KSZ80XX | DP83848
datatype wifi_mode = WIFI_MODE_STA | WIFI_MODE_AP

datatype net_op =
    Netif_init
  | Event_loop_create
  | Eth_mac_new int int bool int
  | Eth_phy_new phy int int
  | Eth_driver_install
  | Netif_new_eth
  | Netif_set_hostname bytes
  | Netif_attach
  | Handler_register string string string
  | Eth_start
  | Netif_create_sta
  | Netif_create_ap
  | Wifi_init
  | Wifi_set_mode wifi_mode
  | Wifi_set_sta bytes bytes
  | Wifi_set_ap bytes nat nat bool
  | Wifi_start
  | Wifi_connect
  | Bt_controller_init
  | Bt_controller_enable
  | Vhci_register_callback

datatype http_ev =
    Req_recv nat rx
  | Hdr_len string nat
  | Hdr_str string esp_err bytes
  | Resp_err nat bytes
  | Resp_type string
  | Resp_send bytes esp_err
  | Resp_overread nat

datatype ota_ev =
    Next_update_partition "u32 option"
  | Ota_begin esp_err
  | Ota_write bytes esp_err
  | Ota_abort
  | Ota_end esp_err
  | Ota_set_boot esp_err
  | Ota_get_state esp_err img_state
  | Ota_mark_valid esp_err
  | Rollback_timer_create esp_err
  | Rollback_timer_start int esp_err
  | Rollback_timer_stop
  | Httpd_start esp_err
  | Httpd_register string string esp_err

datatype sys_ev =
    Get_time int
  | Delay_ms nat
  | Esp_restart
  | Reset_reason int
  | Read_mac esp_err bytes
  | Free_heap u32

datatype event = Nvs nvs_ev | Crypto crypto_ev | Sock sock_ev | Http http_ev | Ota ota_ev
  | Sys sys_ev | Rtos rtos_ev | Net net_op esp_err

type_synonym history = "event list"

section \<open>The platform as a parameter\<close>

record nvs_api =
  nvs_flash_init_r :: "history \<Rightarrow> esp_err"
  nvs_flash_erase_r :: "history \<Rightarrow> esp_err"
  nvs_open_r :: "bool \<Rightarrow> history \<Rightarrow> esp_err"
  nvs_get_blob_r :: "string \<Rightarrow> nat \<Rightarrow> history \<Rightarrow> esp_err \<times> bytes \<times> nat"
  nvs_set_blob_r :: "string \<Rightarrow> bytes \<Rightarrow> history \<Rightarrow> esp_err"
  nvs_get_str_r :: "string \<Rightarrow> nat \<Rightarrow> history \<Rightarrow> esp_err \<times> bytes"
  nvs_set_str_r :: "string \<Rightarrow> bytes \<Rightarrow> history \<Rightarrow> esp_err"
  nvs_erase_key_r :: "string \<Rightarrow> history \<Rightarrow> esp_err"
  nvs_commit_r :: "history \<Rightarrow> esp_err"

record crypto_api =
  fill_random_r :: "history \<Rightarrow> nat \<Rightarrow> byte"
  md_setup_r :: "history \<Rightarrow> int"
  hmac_starts_r :: "bytes \<Rightarrow> history \<Rightarrow> int"
  hmac_update_r :: "bytes \<Rightarrow> history \<Rightarrow> int"
  hmac_finish_r :: "history \<Rightarrow> int \<times> (nat \<Rightarrow> byte)"
  sha_starts_r :: "history \<Rightarrow> int"
  sha_update_r :: "bytes \<Rightarrow> history \<Rightarrow> int"
  sha_finish_r :: "history \<Rightarrow> int \<times> (nat \<Rightarrow> byte)"
  sha256_r :: "bytes \<Rightarrow> history \<Rightarrow> int \<times> (nat \<Rightarrow> byte)"
  ecp_group_load_r :: "history \<Rightarrow> int"
  ecdh_gen_public_r :: "history \<Rightarrow> int \<times> nat \<times> nat"
  mpi_write_le_r :: "nat \<Rightarrow> history \<Rightarrow> int \<times> (nat \<Rightarrow> byte)"
  mpi_read_le_r :: "bytes \<Rightarrow> history \<Rightarrow> int \<times> nat"
  mpi_lset_r :: "int \<Rightarrow> history \<Rightarrow> int"
  ecdh_compute_shared_r :: "nat \<Rightarrow> nat \<Rightarrow> history \<Rightarrow> int \<times> nat"

record sock_api =
  sock_send_r :: "int \<Rightarrow> bytes \<Rightarrow> history \<Rightarrow> int"
  sock_recv_r :: "int \<Rightarrow> nat \<Rightarrow> history \<Rightarrow> rx"
  socket_r :: "bool \<Rightarrow> history \<Rightarrow> int"
  bind_r :: "int \<Rightarrow> u16 \<Rightarrow> history \<Rightarrow> int"
  listen_r :: "int \<Rightarrow> int \<Rightarrow> history \<Rightarrow> int"
  accept_r :: "int \<Rightarrow> history \<Rightarrow> int"
  select_r :: "int \<Rightarrow> int list \<Rightarrow> int \<Rightarrow> int \<Rightarrow> history \<Rightarrow> int \<times> int list"
  sendto_r :: "int \<Rightarrow> bytes \<Rightarrow> sockaddr \<Rightarrow> history \<Rightarrow> int"
  recvfrom_r :: "int \<Rightarrow> nat \<Rightarrow> history \<Rightarrow> rx \<times> sockaddr"

record http_api =
  req_recv_r :: "nat \<Rightarrow> history \<Rightarrow> rx"
  hdr_len_r :: "string \<Rightarrow> history \<Rightarrow> nat"
  hdr_str_r :: "string \<Rightarrow> history \<Rightarrow> esp_err \<times> bytes"
  resp_send_r :: "bytes \<Rightarrow> history \<Rightarrow> esp_err"
  httpd_start_r :: "history \<Rightarrow> esp_err"
  httpd_register_r :: "string \<Rightarrow> history \<Rightarrow> esp_err"

record ota_api =
  next_update_partition_r :: "history \<Rightarrow> u32 option"
  ota_begin_r :: "history \<Rightarrow> esp_err"
  ota_write_r :: "bytes \<Rightarrow> history \<Rightarrow> esp_err"
  ota_end_r :: "history \<Rightarrow> esp_err"
  ota_set_boot_r :: "history \<Rightarrow> esp_err"
  ota_get_state_r :: "history \<Rightarrow> esp_err \<times> img_state"
  ota_mark_valid_r :: "history \<Rightarrow> esp_err"
  timer_create_r :: "history \<Rightarrow> esp_err"
  timer_start_r :: "history \<Rightarrow> esp_err"

record sys_api =
  get_time_r :: "history \<Rightarrow> int"
  reset_reason_r :: "history \<Rightarrow> int"
  read_mac_r :: "history \<Rightarrow> esp_err \<times> (nat \<Rightarrow> byte)"
  free_heap_r :: "history \<Rightarrow> u32"
  app_version_r :: bytes
  idf_ver_r :: bytes
  running_label_r :: "bytes option"
  err_name_r :: "esp_err \<Rightarrow> bytes"

record rtos_api =
  sb_create_r :: "nat \<Rightarrow> history \<Rightarrow> nat option"
  sb_send_r :: "nat \<Rightarrow> bytes \<Rightarrow> u32 \<Rightarrow> history \<Rightarrow> nat"
  sb_recv_r :: "nat \<Rightarrow> nat \<Rightarrow> u32 \<Rightarrow> history \<Rightarrow> bytes"
  sb_space_r :: "nat \<Rightarrow> history \<Rightarrow> nat"
  sem_create_r :: "history \<Rightarrow> nat option"
  sem_take_r :: "nat \<Rightarrow> u32 \<Rightarrow> history \<Rightarrow> bool"
  task_create_r :: "string \<Rightarrow> history \<Rightarrow> bool"
  vhci_available_r :: "history \<Rightarrow> bool"

record sdk =
  nvs :: nvs_api
  crypto :: crypto_api
  sock :: sock_api
  http :: http_api
  ota :: ota_api
  sys :: sys_api
  rtos :: rtos_api
  net_r :: "net_op \<Rightarrow> history \<Rightarrow> esp_err"

text \<open>
  The build configuration (\<open>sdkconfig.h\<close>, generated from \<open>Kconfig.projbuild\<close>): integers have no
  range there, strings are C literals.
\<close>

record kconfig =
  BRIDGE_TCP_PORT :: nat
  BRIDGE_HOSTNAME :: bytes
  BRIDGE_BOARD_ID :: bytes
  BRIDGE_NET_WIFI :: bool
  BRIDGE_WIFI_SSID :: bytes
  BRIDGE_WIFI_PASS :: bytes
  BRIDGE_ETH_PHY :: phy
  BRIDGE_ETH_MDC_GPIO :: int
  BRIDGE_ETH_MDIO_GPIO :: int
  BRIDGE_ETH_CLK_IN :: bool
  BRIDGE_ETH_CLK_GPIO :: int
  BRIDGE_ETH_PHY_ADDR :: int
  BRIDGE_ETH_PHY_POWER_GPIO :: int

section \<open>The firmware's state\<close>

text \<open>The counters and the state of \<open>bridge.zig\<close>.\<close>

record bridge_stats =
  to_controller :: u32
  to_host :: u32
  dropped_no_host :: u32
  dropped_overflow :: u32
  dropped_stale :: u32
  dropped_controller_busy :: u32
  connections :: u32

record bridge_state =
  listen_fd :: int
  client_fd :: int
  tx_pause :: bool
  tx_idle :: bool
  tx_failed :: bool
  sb :: "nat option"
  send_sem :: "nat option"
  stats :: bridge_stats

record fw =
  g_psk :: bytes
  g_claimed :: bool
  g_http_rand :: bytes
  g_http_counter :: u32
  s_magic :: u32
  s_stage :: u32
  s_prev_stage :: u32
  s_reset :: int
  g_ip4 :: u32
  g_rollback_timer :: bool
  bridge :: bridge_state
  hist :: history

type_synonym 'a fwm = "(fw, 'a) state"

text \<open>The end of a function that may not return to its caller.\<close>

datatype 'a outcome = Returned 'a | Restarted | Aborted

lemma hist_update_inject [simp]: "s\<lparr>hist := a\<rparr> = s\<lparr>hist := b\<rparr> \<longleftrightarrow> a = b"
  by (cases s) simp

section \<open>Calls\<close>

definition call :: "(history \<Rightarrow> 'r) \<Rightarrow> ('r \<Rightarrow> event) \<Rightarrow> 'r fwm" where
  "call f ev = State (\<lambda>s. (f (hist s), s\<lparr>hist := hist s @ [ev (f (hist s))]\<rparr>))"

lemma run_call [exec_simps, simp]:
  "run_state (call f ev) s = (f (hist s), s\<lparr>hist := hist s @ [ev (f (hist s))]\<rparr>)"
  by (simp add: call_def)

lemma wp_call [simp]:
  "wp (call f ev) Q s = Q (f (hist s)) (s\<lparr>hist := hist s @ [ev (f (hist s))]\<rparr>)"
  by (simp add: wp_def)

text \<open>A call without a result.\<close>

abbreviation notify :: "event \<Rightarrow> unit fwm" where
  "notify e \<equiv> call (\<lambda>_. ()) (\<lambda>_. e)"

text \<open>
  The frame of a function: it leaves every static variable alone and adds to the history only
  events of the set \<open>A\<close>.
\<close>

definition emits :: "event set \<Rightarrow> 'a fwm \<Rightarrow> bool" where
  "emits A m \<longleftrightarrow> (\<forall>s. \<exists>new. snd (run_state m s) = s\<lparr>hist := hist s @ new\<rparr> \<and> set new \<subseteq> A)"

lemma emitsE:
  assumes "emits A m" and "run_state m s = (r, t)"
  obtains new where "t = s\<lparr>hist := hist s @ new\<rparr>" and "set new \<subseteq> A"
proof -
  from assms(1) obtain new
    where "snd (run_state m s) = s\<lparr>hist := hist s @ new\<rparr>" and "set new \<subseteq> A"
    unfolding emits_def by blast
  with assms(2) that show thesis by simp
qed

lemma emits_hist: "emits A m \<Longrightarrow> \<exists>new. snd (run_state m s) = s\<lparr>hist := hist s @ new\<rparr>"
  unfolding emits_def by blast

lemma emits_fields:
  assumes "emits A m" and "run_state m s = (r, t)"
  shows "g_psk t = g_psk s" "g_claimed t = g_claimed s" "g_http_rand t = g_http_rand s"
    "g_http_counter t = g_http_counter s" "g_ip4 t = g_ip4 s"
    "g_rollback_timer t = g_rollback_timer s" "s_stage t = s_stage s"
  using assms by (auto elim!: emitsE)

lemma emits_return [frame_intros]: "emits A (ret x)"
  by (auto simp: emits_def intro: exI [of _ "[]"])

lemma emits_gets [frame_intros]: "emits A (gets f)"
  by (auto simp: emits_def intro: exI [of _ "[]"])

lemma emits_call [frame_intros]: "(\<And>r. ev r \<in> A) \<Longrightarrow> emits A (call f ev)"
  by (auto simp: emits_def)

lemma emits_bind [frame_intros]:
  assumes "emits A m" and "\<And>x. emits A (f x)"
  shows "emits A (m \<bind> f)"
  unfolding emits_def
proof
  fix s
  obtain x t where m: "run_state m s = (x, t)" by fastforce
  obtain n1 where t: "t = s\<lparr>hist := hist s @ n1\<rparr>" and n1: "set n1 \<subseteq> A"
    using assms(1) m by (rule emitsE)
  obtain y u where f: "run_state (f x) t = (y, u)" by fastforce
  obtain n2 where u: "u = t\<lparr>hist := hist t @ n2\<rparr>" and n2: "set n2 \<subseteq> A"
    using assms(2) f by (rule emitsE)
  show "\<exists>new. snd (run_state (m \<bind> f) s) = s\<lparr>hist := hist s @ new\<rparr> \<and> set new \<subseteq> A"
    using m f t u n1 n2 by (intro exI [of _ "n1 @ n2"]) simp
qed

lemma emits_if [frame_intros]:
  "(b \<Longrightarrow> emits A m) \<Longrightarrow> (\<not> b \<Longrightarrow> emits A n) \<Longrightarrow> emits A (if b then m else n)"
  by simp

lemma emits_case_prod [frame_intros]:
  "(\<And>a b. emits A (f a b)) \<Longrightarrow> emits A (case p of (a, b) \<Rightarrow> f a b)"
  by (cases p) simp

lemma emits_case_option [frame_intros]:
  "emits A n \<Longrightarrow> (\<And>x. emits A (f x)) \<Longrightarrow> emits A (case p of None \<Rightarrow> n | Some x \<Rightarrow> f x)"
  by (cases p) simp_all

lemma emits_let [frame_intros]: "emits A (f x) \<Longrightarrow> emits A (Let x f)"
  by simp

lemma emits_mono: "emits A m \<Longrightarrow> A \<subseteq> B \<Longrightarrow> emits B m"
  unfolding emits_def by (meson order_trans)

text \<open>
  The same with variables that may change: \<open>R\<close> relates the variables before and after. Any relation
  that is reflexive, transitive and blind to the history can be carried through a function.
\<close>

definition effects :: "(fw \<Rightarrow> fw \<Rightarrow> bool) \<Rightarrow> event set \<Rightarrow> 'a fwm \<Rightarrow> bool" where
  "effects R A m \<longleftrightarrow>
     (\<forall>s. R s (snd (run_state m s)) \<and>
          (\<exists>new. hist (snd (run_state m s)) = hist s @ new \<and> set new \<subseteq> A))"

lemma effectsE:
  assumes "effects R A m" and "run_state m s = (r, t)"
  obtains new where "R s t" and "hist t = hist s @ new" and "set new \<subseteq> A"
proof -
  from assms(1) have "R s (snd (run_state m s))"
      "\<exists>new. hist (snd (run_state m s)) = hist s @ new \<and> set new \<subseteq> A"
    unfolding effects_def by blast+
  with assms(2) that show thesis by auto
qed

lemma effects_mono: "effects R A m \<Longrightarrow> A \<subseteq> B \<Longrightarrow> (\<And>s t. R s t \<Longrightarrow> R' s t) \<Longrightarrow> effects R' B m"
  unfolding effects_def by (meson order_trans)

locale field_frame =
  fixes R :: "fw \<Rightarrow> fw \<Rightarrow> bool"
  assumes R_refl: "R s s" and R_trans: "R s t \<Longrightarrow> R t u \<Longrightarrow> R s u" and R_hist: "R s (s\<lparr>hist := h\<rparr>)"
begin

lemma of_emits: "emits A m \<Longrightarrow> effects R A m"
  unfolding emits_def effects_def by (metis R_hist fw.select_convs(12) fw.surjective fw.update_convs(12))

lemma of_return [frame_intros]: "effects R A (ret x)"
  by (rule of_emits) (rule frame_intros)

lemma of_gets [frame_intros]: "effects R A (gets f)"
  by (rule of_emits) (rule frame_intros)

lemma of_call [frame_intros]: "(\<And>r. ev r \<in> A) \<Longrightarrow> effects R A (call f ev)"
  by (rule of_emits) (rule frame_intros)

lemma of_modify [frame_intros]:
  "(\<And>s. R s (f s)) \<Longrightarrow> (\<And>s. hist (f s) = hist s) \<Longrightarrow> effects R A (modify f)"
  by (auto simp: effects_def intro: exI [of _ "[]"])

lemma of_bind [frame_intros]:
  assumes "effects R A m" and "\<And>x. effects R A (f x)"
  shows "effects R A (m \<bind> f)"
  unfolding effects_def
proof
  fix s
  obtain x t where m: "run_state m s = (x, t)" by fastforce
  obtain n1 where t: "R s t" "hist t = hist s @ n1" and n1: "set n1 \<subseteq> A"
    using assms(1) m by (rule effectsE)
  obtain y u where f: "run_state (f x) t = (y, u)" by fastforce
  obtain n2 where u: "R t u" "hist u = hist t @ n2" and n2: "set n2 \<subseteq> A"
    using assms(2) f by (rule effectsE)
  show "R s (snd (run_state (m \<bind> f) s)) \<and>
      (\<exists>new. hist (snd (run_state (m \<bind> f) s)) = hist s @ new \<and> set new \<subseteq> A)"
    using m f t u n1 n2 R_trans [OF t(1) u(1)] by simp
qed

lemma of_if [frame_intros]:
  "(b \<Longrightarrow> effects R A m) \<Longrightarrow> (\<not> b \<Longrightarrow> effects R A n) \<Longrightarrow> effects R A (if b then m else n)"
  by simp

lemma of_case_prod [frame_intros]:
  "(\<And>a b. effects R A (f a b)) \<Longrightarrow> effects R A (case p of (a, b) \<Rightarrow> f a b)"
  by (cases p) simp

lemma of_case_option [frame_intros]:
  "effects R A n \<Longrightarrow> (\<And>x. effects R A (f x)) \<Longrightarrow> effects R A (case p of None \<Rightarrow> n | Some x \<Rightarrow> f x)"
  by (cases p) simp_all

lemma of_let [frame_intros]: "effects R A (f x) \<Longrightarrow> effects R A (Let x f)"
  by simp

end

section \<open>The calls of the platform\<close>

definition esp_fill_random :: "sdk \<Rightarrow> nat \<Rightarrow> bytes fwm" where
  "esp_fill_random E n = call (\<lambda>h. arr n (fill_random_r (crypto E) h)) (\<lambda>r. Crypto (Fill_random r))"

definition nvs_open :: "sdk \<Rightarrow> bool \<Rightarrow> esp_err fwm" where
  "nvs_open E rw = call (nvs_open_r (nvs E) rw) (\<lambda>r. Nvs (Nvs_open rw r))"

definition nvs_get_blob :: "sdk \<Rightarrow> string \<Rightarrow> nat \<Rightarrow> (esp_err \<times> bytes \<times> nat) fwm" where
  "nvs_get_blob E key len =
     call (nvs_get_blob_r (nvs E) key len) (\<lambda>(e, d, n). Nvs (Nvs_get_blob key e d n))"

definition nvs_set_blob :: "sdk \<Rightarrow> string \<Rightarrow> bytes \<Rightarrow> esp_err fwm" where
  "nvs_set_blob E key v = call (nvs_set_blob_r (nvs E) key v) (\<lambda>r. Nvs (Nvs_set_blob key v r))"

definition nvs_get_str :: "sdk \<Rightarrow> string \<Rightarrow> nat \<Rightarrow> (esp_err \<times> bytes) fwm" where
  "nvs_get_str E key len = call (nvs_get_str_r (nvs E) key len) (\<lambda>(e, d). Nvs (Nvs_get_str key e d))"

definition nvs_set_str :: "sdk \<Rightarrow> string \<Rightarrow> bytes \<Rightarrow> esp_err fwm" where
  "nvs_set_str E key v = call (nvs_set_str_r (nvs E) key v) (\<lambda>r. Nvs (Nvs_set_str key v r))"

definition nvs_erase_key :: "sdk \<Rightarrow> string \<Rightarrow> esp_err fwm" where
  "nvs_erase_key E key = call (nvs_erase_key_r (nvs E) key) (\<lambda>r. Nvs (Nvs_erase_key key r))"

definition nvs_commit :: "sdk \<Rightarrow> esp_err fwm" where
  "nvs_commit E = call (nvs_commit_r (nvs E)) (\<lambda>r. Nvs (Nvs_commit r))"

definition nvs_close :: "unit fwm" where
  "nvs_close = notify (Nvs Nvs_close)"

definition mbedtls_md_setup :: "sdk \<Rightarrow> int fwm" where
  "mbedtls_md_setup E = call (md_setup_r (crypto E)) (\<lambda>r. Crypto (Md_setup r))"

definition mbedtls_md_hmac_starts :: "sdk \<Rightarrow> bytes \<Rightarrow> int fwm" where
  "mbedtls_md_hmac_starts E key =
     call (hmac_starts_r (crypto E) key) (\<lambda>r. Crypto (Hmac_starts key r))"

definition mbedtls_md_hmac_update :: "sdk \<Rightarrow> bytes \<Rightarrow> int fwm" where
  "mbedtls_md_hmac_update E p =
     call (hmac_update_r (crypto E) p) (\<lambda>r. Crypto (Hmac_update p r))"

definition mbedtls_md_hmac_finish :: "sdk \<Rightarrow> (int \<times> bytes) fwm" where
  "mbedtls_md_hmac_finish E =
     call (\<lambda>h. case hmac_finish_r (crypto E) h of (r, f) \<Rightarrow> (r, arr 32 f))
       (\<lambda>(r, out). Crypto (Hmac_finish r out))"

definition mbedtls_md_free :: "unit fwm" where
  "mbedtls_md_free = notify (Crypto Md_free)"

definition mbedtls_sha256_init :: "unit fwm" where
  "mbedtls_sha256_init = notify (Crypto Sha_init)"

definition mbedtls_sha256_starts :: "sdk \<Rightarrow> int fwm" where
  "mbedtls_sha256_starts E = call (sha_starts_r (crypto E)) (\<lambda>r. Crypto (Sha_starts r))"

definition mbedtls_sha256_update :: "sdk \<Rightarrow> bytes \<Rightarrow> int fwm" where
  "mbedtls_sha256_update E d = call (sha_update_r (crypto E) d) (\<lambda>r. Crypto (Sha_update d r))"

definition mbedtls_sha256_finish :: "sdk \<Rightarrow> (int \<times> bytes) fwm" where
  "mbedtls_sha256_finish E =
     call (\<lambda>h. case sha_finish_r (crypto E) h of (r, f) \<Rightarrow> (r, arr 32 f))
       (\<lambda>(r, out). Crypto (Sha_finish r out))"

definition mbedtls_sha256_free :: "unit fwm" where
  "mbedtls_sha256_free = notify (Crypto Sha_free)"

definition mbedtls_sha256 :: "sdk \<Rightarrow> bytes \<Rightarrow> (int \<times> bytes) fwm" where
  "mbedtls_sha256 E d =
     call (\<lambda>h. case sha256_r (crypto E) d h of (r, f) \<Rightarrow> (r, arr 32 f))
       (\<lambda>(r, out). Crypto (Sha256 d r out))"

definition mbedtls_ecp_group_load :: "sdk \<Rightarrow> int fwm" where
  "mbedtls_ecp_group_load E = call (ecp_group_load_r (crypto E)) (\<lambda>r. Crypto (Ecp_group_load r))"

definition mbedtls_ecdh_gen_public :: "sdk \<Rightarrow> (int \<times> nat \<times> nat) fwm" where
  "mbedtls_ecdh_gen_public E =
     call (ecdh_gen_public_r (crypto E)) (\<lambda>(r, d, q). Crypto (Ecdh_gen_public r d q))"

definition mbedtls_mpi_write_binary_le :: "sdk \<Rightarrow> nat \<Rightarrow> (int \<times> bytes) fwm" where
  "mbedtls_mpi_write_binary_le E x =
     call (\<lambda>h. case mpi_write_le_r (crypto E) x h of (r, f) \<Rightarrow> (r, arr 32 f))
       (\<lambda>(r, out). Crypto (Mpi_write_le x r out))"

definition mbedtls_mpi_read_binary_le :: "sdk \<Rightarrow> bytes \<Rightarrow> (int \<times> nat) fwm" where
  "mbedtls_mpi_read_binary_le E b =
     call (mpi_read_le_r (crypto E) b) (\<lambda>(r, x). Crypto (Mpi_read_le b r x))"

definition mbedtls_mpi_lset :: "sdk \<Rightarrow> int \<Rightarrow> int fwm" where
  "mbedtls_mpi_lset E v = call (mpi_lset_r (crypto E) v) (\<lambda>r. Crypto (Mpi_lset v r))"

definition mbedtls_ecdh_compute_shared :: "sdk \<Rightarrow> nat \<Rightarrow> nat \<Rightarrow> (int \<times> nat) fwm" where
  "mbedtls_ecdh_compute_shared E q d =
     call (ecdh_compute_shared_r (crypto E) q d)
       (\<lambda>(r, z). Crypto (Ecdh_compute_shared q d r z))"

definition ecp_free_all :: "unit fwm" where
  "ecp_free_all = notify (Crypto Ecp_free)"

definition set_rcvtimeo :: "int \<Rightarrow> int \<Rightarrow> int \<Rightarrow> unit fwm" where
  "set_rcvtimeo fd sec usec = notify (Sock (Set_rcvtimeo fd sec usec))"

definition sock_send :: "sdk \<Rightarrow> int \<Rightarrow> bytes \<Rightarrow> int fwm" where
  "sock_send E fd d = call (sock_send_r (sock E) fd d) (\<lambda>r. Sock (Sock_send fd d r))"

definition sock_recv :: "sdk \<Rightarrow> int \<Rightarrow> nat \<Rightarrow> rx fwm" where
  "sock_recv E fd n = call (sock_recv_r (sock E) fd n) (\<lambda>r. Sock (Sock_recv fd n r))"

definition esp_timer_get_time :: "sdk \<Rightarrow> int fwm" where
  "esp_timer_get_time E = call (get_time_r (sys E)) (\<lambda>t. Sys (Get_time t))"

definition vTaskDelay_ms :: "nat \<Rightarrow> unit fwm" where
  "vTaskDelay_ms ms = notify (Sys (Delay_ms ms))"

definition esp_restart :: "unit fwm" where
  "esp_restart = notify (Sys Esp_restart)"

definition esp_reset_reason :: "sdk \<Rightarrow> int fwm" where
  "esp_reset_reason E = call (reset_reason_r (sys E)) (\<lambda>r. Sys (Reset_reason r))"

definition esp_read_mac :: "sdk \<Rightarrow> (esp_err \<times> bytes) fwm" where
  "esp_read_mac E =
     call (\<lambda>h. case read_mac_r (sys E) h of (r, f) \<Rightarrow> (r, arr 6 f)) (\<lambda>(r, m). Sys (Read_mac r m))"

definition esp_get_free_heap_size :: "sdk \<Rightarrow> u32 fwm" where
  "esp_get_free_heap_size E = call (free_heap_r (sys E)) (\<lambda>r. Sys (Free_heap r))"

definition httpd_req_recv :: "sdk \<Rightarrow> nat \<Rightarrow> rx fwm" where
  "httpd_req_recv E n = call (req_recv_r (http E) n) (\<lambda>r. Http (Req_recv n r))"

definition httpd_req_get_hdr_value_len :: "sdk \<Rightarrow> string \<Rightarrow> nat fwm" where
  "httpd_req_get_hdr_value_len E name = call (hdr_len_r (http E) name) (\<lambda>n. Http (Hdr_len name n))"

definition httpd_req_get_hdr_value_str :: "sdk \<Rightarrow> string \<Rightarrow> (esp_err \<times> bytes) fwm" where
  "httpd_req_get_hdr_value_str E name =
     call (hdr_str_r (http E) name) (\<lambda>(e, v). Http (Hdr_str name e v))"

definition httpd_resp_send_err :: "nat \<Rightarrow> bytes \<Rightarrow> unit fwm" where
  "httpd_resp_send_err code msg = notify (Http (Resp_err code msg))"

definition httpd_resp_set_type :: "string \<Rightarrow> unit fwm" where
  "httpd_resp_set_type ty = notify (Http (Resp_type ty))"

definition httpd_resp_send :: "sdk \<Rightarrow> bytes \<Rightarrow> esp_err fwm" where
  "httpd_resp_send E body = call (resp_send_r (http E) body) (\<lambda>r. Http (Resp_send body r))"

definition esp_err_to_name :: "sdk \<Rightarrow> esp_err \<Rightarrow> bytes" where
  "esp_err_to_name E e = err_name_r (sys E) e"

definition esp_ota_get_next_update_partition :: "sdk \<Rightarrow> u32 option fwm" where
  "esp_ota_get_next_update_partition E =
     call (next_update_partition_r (ota E)) (\<lambda>r. Ota (Next_update_partition r))"

definition esp_ota_begin :: "sdk \<Rightarrow> esp_err fwm" where
  "esp_ota_begin E = call (ota_begin_r (ota E)) (\<lambda>r. Ota (Ota_begin r))"

definition esp_ota_write :: "sdk \<Rightarrow> bytes \<Rightarrow> esp_err fwm" where
  "esp_ota_write E d = call (ota_write_r (ota E) d) (\<lambda>r. Ota (Ota_write d r))"

definition esp_ota_abort :: "unit fwm" where
  "esp_ota_abort = notify (Ota Ota_abort)"

definition esp_ota_end :: "sdk \<Rightarrow> esp_err fwm" where
  "esp_ota_end E = call (ota_end_r (ota E)) (\<lambda>r. Ota (Ota_end r))"

definition esp_ota_set_boot_partition :: "sdk \<Rightarrow> esp_err fwm" where
  "esp_ota_set_boot_partition E = call (ota_set_boot_r (ota E)) (\<lambda>r. Ota (Ota_set_boot r))"

definition esp_ota_get_state_partition :: "sdk \<Rightarrow> (esp_err \<times> img_state) fwm" where
  "esp_ota_get_state_partition E =
     call (ota_get_state_r (ota E)) (\<lambda>(e, st). Ota (Ota_get_state e st))"

definition esp_ota_mark_app_valid_cancel_rollback :: "sdk \<Rightarrow> esp_err fwm" where
  "esp_ota_mark_app_valid_cancel_rollback E = call (ota_mark_valid_r (ota E)) (\<lambda>r. Ota (Ota_mark_valid r))"

definition esp_timer_create :: "sdk \<Rightarrow> esp_err fwm" where
  "esp_timer_create E = call (timer_create_r (ota E)) (\<lambda>r. Ota (Rollback_timer_create r))"

definition esp_timer_start_once :: "sdk \<Rightarrow> int \<Rightarrow> esp_err fwm" where
  "esp_timer_start_once E us = call (timer_start_r (ota E)) (\<lambda>r. Ota (Rollback_timer_start us r))"

definition esp_timer_stop :: "unit fwm" where
  "esp_timer_stop = notify (Ota Rollback_timer_stop)"

definition httpd_start :: "sdk \<Rightarrow> esp_err fwm" where
  "httpd_start E = call (httpd_start_r (http E)) (\<lambda>r. Ota (Httpd_start r))"

definition httpd_register_uri_handler :: "sdk \<Rightarrow> string \<Rightarrow> string \<Rightarrow> esp_err fwm" where
  "httpd_register_uri_handler E uri handler =
     call (httpd_register_r (http E) uri) (\<lambda>r. Ota (Httpd_register uri handler r))"

definition nvs_flash_init :: "sdk \<Rightarrow> esp_err fwm" where
  "nvs_flash_init E = call (nvs_flash_init_r (nvs E)) (\<lambda>r. Nvs (Nvs_flash_init r))"

definition nvs_flash_erase :: "sdk \<Rightarrow> esp_err fwm" where
  "nvs_flash_erase E = call (nvs_flash_erase_r (nvs E)) (\<lambda>r. Nvs (Nvs_flash_erase r))"

definition net_call :: "sdk \<Rightarrow> net_op \<Rightarrow> esp_err fwm" where
  "net_call E c = call (net_r E c) (\<lambda>r. Net c r)"

definition xTaskCreate :: "sdk \<Rightarrow> string \<Rightarrow> u32 \<Rightarrow> u32 \<Rightarrow> int \<Rightarrow> bool fwm" where
  "xTaskCreate E name stack prio core =
     call (task_create_r (rtos E) name) (\<lambda>r. Rtos (Task_create name stack prio core r))"

definition system_abort :: "unit fwm" where
  "system_abort = notify (Rtos System_abort)"

text \<open>\<open>ESP_ERROR_CHECK\<close> ends the program when the call fails; the rest runs otherwise.\<close>

definition ESP_ERROR_CHECK :: "esp_err fwm \<Rightarrow> 'a outcome fwm \<Rightarrow> 'a outcome fwm" where
  "ESP_ERROR_CHECK m k = do {
     e \<leftarrow> m;
     if e = ESP_OK then k else do { system_abort; ret Aborted }
   }"

text \<open>The rest of a caller runs only if the function it called returns.\<close>

definition and_then :: "'a outcome fwm \<Rightarrow> ('a \<Rightarrow> 'b outcome fwm) \<Rightarrow> 'b outcome fwm" where
  "and_then m k = do {
     r \<leftarrow> m;
     (case r of Returned x \<Rightarrow> k x | Restarted \<Rightarrow> ret Restarted | Aborted \<Rightarrow> ret Aborted)
   }"

lemma emits_check [frame_intros]:
  "emits A m \<Longrightarrow> emits A k \<Longrightarrow> Rtos System_abort \<in> A \<Longrightarrow> emits A (ESP_ERROR_CHECK m k)"
  unfolding ESP_ERROR_CHECK_def system_abort_def by (intro frame_intros)

lemma emits_and_then [frame_intros]:
  "emits A m \<Longrightarrow> (\<And>x. emits A (k x)) \<Longrightarrow> emits A (and_then m k)"
  unfolding and_then_def by (auto intro!: emits_bind emits_return split: outcome.splits)

context field_frame
begin

lemma of_check [frame_intros]:
  "effects R A m \<Longrightarrow> effects R A k \<Longrightarrow> Rtos System_abort \<in> A \<Longrightarrow> effects R A (ESP_ERROR_CHECK m k)"
  unfolding ESP_ERROR_CHECK_def system_abort_def by (intro frame_intros)

lemma of_and_then [frame_intros]:
  "effects R A m \<Longrightarrow> (\<And>x. effects R A (k x)) \<Longrightarrow> effects R A (and_then m k)"
  unfolding and_then_def by (auto intro!: of_bind of_return split: outcome.splits)

end

lemmas platform_calls [exec_simps] =
  esp_fill_random_def nvs_open_def nvs_get_blob_def nvs_set_blob_def nvs_get_str_def
  nvs_set_str_def nvs_erase_key_def nvs_commit_def nvs_close_def mbedtls_md_setup_def
  mbedtls_md_hmac_starts_def mbedtls_md_hmac_update_def mbedtls_md_hmac_finish_def
  mbedtls_md_free_def mbedtls_sha256_init_def mbedtls_sha256_starts_def mbedtls_sha256_update_def
  mbedtls_sha256_finish_def mbedtls_sha256_free_def mbedtls_sha256_def mbedtls_ecp_group_load_def
  mbedtls_ecdh_gen_public_def mbedtls_mpi_write_binary_le_def mbedtls_mpi_read_binary_le_def
  mbedtls_mpi_lset_def mbedtls_ecdh_compute_shared_def ecp_free_all_def set_rcvtimeo_def
  sock_send_def sock_recv_def esp_timer_get_time_def vTaskDelay_ms_def esp_restart_def
  esp_reset_reason_def esp_read_mac_def esp_get_free_heap_size_def httpd_req_recv_def
  httpd_req_get_hdr_value_len_def httpd_req_get_hdr_value_str_def httpd_resp_send_err_def
  httpd_resp_set_type_def httpd_resp_send_def esp_ota_get_next_update_partition_def
  esp_ota_begin_def esp_ota_write_def esp_ota_abort_def esp_ota_end_def
  esp_ota_set_boot_partition_def esp_ota_get_state_partition_def
  esp_ota_mark_app_valid_cancel_rollback_def esp_timer_create_def esp_timer_start_once_def
  esp_timer_stop_def httpd_start_def httpd_register_uri_handler_def nvs_flash_init_def
  nvs_flash_erase_def net_call_def xTaskCreate_def system_abort_def

end
