(* ===== verification/Laws.thy ===== *)
theory Laws
  imports Platform
begin

text \<open>
  Documented behaviour of the platform, as predicates over the record \<open>sdk\<close>. The theorems that
  need one take it as a hypothesis. Each predicate relates the result of a call to the history of
  calls before it. The last section gives a concrete platform that has all of them, which the
  witnesses run.
\<close>

section \<open>HMAC\<close>

text \<open>
  The documented behaviour of the streaming interface. A context that was set up and started with a
  key holds the data updated since, in order, and a finish that succeeds returns the HMAC of that
  data. A call that fails, or one made in the wrong order, leaves a context of which nothing is
  known, and then nothing is known of the array a finish fills either, whatever it returns.
\<close>

datatype md_ctx = Md_undefined | Md_ready | Md_keyed bytes bytes

fun md_feed :: "md_ctx \<Rightarrow> event \<Rightarrow> md_ctx" where
  "md_feed m (Crypto (Md_setup r)) = (if r = 0 then Md_ready else Md_undefined)"
| "md_feed m (Crypto (Hmac_starts k r)) = (if r = 0 \<and> m \<noteq> Md_undefined then Md_keyed k [] else Md_undefined)"
| "md_feed m (Crypto (Hmac_update p r)) =
     (case m of Md_keyed k d \<Rightarrow> if r = 0 then Md_keyed k (d @ p) else Md_undefined | _ \<Rightarrow> Md_undefined)"
| "md_feed m (Crypto (Hmac_finish r out)) = Md_undefined"
| "md_feed m (Crypto Md_free) = Md_undefined"
| "md_feed m _ = m"

definition md_stream :: "history \<Rightarrow> md_ctx" where
  "md_stream h = foldl md_feed Md_undefined h"

definition hmac_law :: "sdk \<Rightarrow> (bytes \<Rightarrow> bytes \<Rightarrow> bytes) \<Rightarrow> bool" where
  "hmac_law E hm \<longleftrightarrow>
     (\<forall>h k d f. md_stream h = Md_keyed k d \<longrightarrow> hmac_finish_r (crypto E) h = (0, f) \<longrightarrow> arr 32 f = hm k d)"

text \<open>No call of the HMAC interface fails.\<close>

definition md_ok :: "sdk \<Rightarrow> bool" where
  "md_ok E \<longleftrightarrow>
     (\<forall>h. md_setup_r (crypto E) h = 0 \<and> (\<forall>k. hmac_starts_r (crypto E) k h = 0) \<and>
          (\<forall>p. hmac_update_r (crypto E) p h = 0) \<and> fst (hmac_finish_r (crypto E) h) = 0)"

section \<open>SHA-256\<close>

text \<open>
  A digest covers the data updated since the last start; the one-shot call covers its argument. A
  streaming call that fails leaves a context of which nothing is known. The firmware ignores what the
  streaming calls return, so it relies on none of them failing, and the law says so.
\<close>

fun sha_feed :: "bytes option \<Rightarrow> event \<Rightarrow> bytes option" where
  "sha_feed d (Crypto (Sha_starts r)) = (if r = 0 then Some [] else None)"
| "sha_feed d (Crypto (Sha_update p r)) = (if r = 0 then map_option (\<lambda>d. d @ p) d else None)"
| "sha_feed d _ = d"

definition sha_stream :: "history \<Rightarrow> bytes option" where
  "sha_stream h = foldl sha_feed None h"

definition sha_ok :: "sdk \<Rightarrow> bool" where
  "sha_ok E \<longleftrightarrow>
     (\<forall>h. sha_starts_r (crypto E) h = 0 \<and> (\<forall>p. sha_update_r (crypto E) p h = 0) \<and>
          fst (sha_finish_r (crypto E) h) = 0)"

definition sha_law :: "sdk \<Rightarrow> (bytes \<Rightarrow> bytes) \<Rightarrow> bool" where
  "sha_law E sha \<longleftrightarrow>
     sha_ok E \<and>
     (\<forall>h d f. sha_stream h = Some d \<longrightarrow> sha_finish_r (crypto E) h = (0, f) \<longrightarrow> arr 32 f = sha d) \<and>
     (\<forall>d h f. sha256_r (crypto E) d h = (0, f) \<longrightarrow> arr 32 f = sha d)"

section \<open>X25519\<close>

text \<open>Numbers as 32 bytes, least significant first.\<close>

fun le_val :: "bytes \<Rightarrow> nat" where
  "le_val [] = 0"
| "le_val (b # bs) = unat b + 256 * le_val bs"

fun le_bytes :: "nat \<Rightarrow> nat \<Rightarrow> bytes" where
  "le_bytes 0 x = []"
| "le_bytes (Suc n) x = word_of_nat x # le_bytes n (x div 256)"

lemma length_le_bytes [simp]: "length (le_bytes n x) = n"
  by (induction n arbitrary: x) simp_all

lemma le_val_bytes: "x < 256 ^ n \<Longrightarrow> le_val (le_bytes n x) = x"
proof (induction n arbitrary: x)
  case (Suc n)
  then have "x div 256 < 256 ^ n" by (simp add: div_less_iff_less_mult)
  with Suc.IH show ?case by (simp add: unat_of_nat)
qed simp

text \<open>
  Documented: the multi-precision calls convert between numbers and little-endian bytes, and the
  curve calls multiply a point by a scalar, \<open>smul a u\<close>, starting from the base point. Coordinates are
  reduced numbers of 255 bits, and a peer's key whose product is zero is refused.
\<close>

definition mpi_law :: "sdk \<Rightarrow> bool" where
  "mpi_law E \<longleftrightarrow>
     (\<forall>x h f. mpi_write_le_r (crypto E) x h = (0, f) \<longrightarrow> x < 256 ^ 32 \<and> arr 32 f = le_bytes 32 x) \<and>
     (\<forall>b h x. mpi_read_le_r (crypto E) b h = (0, x) \<longrightarrow> x = le_val b)"

definition ecdh_law :: "sdk \<Rightarrow> (nat \<Rightarrow> nat \<Rightarrow> nat) \<Rightarrow> nat \<Rightarrow> bool" where
  "ecdh_law E smul base \<longleftrightarrow>
     (\<forall>h d q. ecdh_gen_public_r (crypto E) h = (0, d, q) \<longrightarrow> q = smul d base \<and> q < 2 ^ 255) \<and>
     (\<forall>h q d z. ecdh_compute_shared_r (crypto E) q d h = (0, z) \<longrightarrow> z = smul d q \<and> z \<noteq> 0)"

section \<open>Non-volatile storage\<close>

text \<open>
  What the history says about a key: nothing (\<open>Unknown\<close>: never written, or written without a
  commit that succeeded), that it is absent, or that it holds a blob or a string. Only a successful
  commit settles what was written before it; what is still pending when the board starts again
  stays unknown.
\<close>

datatype nvs_slot = Unknown | Absent | Holds bytes | Holds_str bytes

type_synonym nvs_store = "(string \<Rightarrow> nvs_slot) \<times> (string \<Rightarrow> bool)"

definition nvs_write :: "string \<Rightarrow> nvs_slot \<Rightarrow> nvs_store \<Rightarrow> nvs_store" where
  "nvs_write k v st = ((fst st)(k := v), (snd st)(k := True))"

definition nvs_feed :: "nvs_store \<Rightarrow> event \<Rightarrow> nvs_store" where
  "nvs_feed st e =
     (case e of
        Nvs (Nvs_set_blob k v r) \<Rightarrow> nvs_write k (if r = ESP_OK then Holds v else Unknown) st
      | Nvs (Nvs_set_str k v r) \<Rightarrow> nvs_write k (if r = ESP_OK then Holds_str v else Unknown) st
      | Nvs (Nvs_erase_key k r) \<Rightarrow>
          nvs_write k (if r = ESP_OK \<or> r = ESP_ERR_NVS_NOT_FOUND then Absent else Unknown) st
      | Nvs (Nvs_flash_erase r) \<Rightarrow> (\<lambda>_. if r = ESP_OK then Absent else Unknown, \<lambda>_. r \<noteq> ESP_OK)
      | Nvs (Nvs_flash_init r) \<Rightarrow> (\<lambda>k. if snd st k then Unknown else fst st k, \<lambda>_. False)
      | Nvs (Nvs_commit r) \<Rightarrow> (if r = ESP_OK then (fst st, \<lambda>_. False) else st)
      | _ \<Rightarrow> st)"

definition nvs_store_of :: "history \<Rightarrow> nvs_store" where
  "nvs_store_of h = foldl nvs_feed (\<lambda>_. Unknown, \<lambda>_. False) h"

definition settled_in :: "nvs_store \<Rightarrow> string \<Rightarrow> nvs_slot" where
  "settled_in st k = (if snd st k then Unknown else fst st k)"

definition nvs_settled :: "history \<Rightarrow> string \<Rightarrow> nvs_slot" where
  "nvs_settled h k = settled_in (nvs_store_of h) k"

text \<open>
  Documented: reading a settled value that fits the buffer returns it and its length, reading an
  absent key fails, and a namespace that holds a key can be opened for reading.
\<close>

definition nvs_law :: "sdk \<Rightarrow> bool" where
  "nvs_law E \<longleftrightarrow>
     (\<forall>h k v len. nvs_settled h k = Holds v \<longrightarrow>
        nvs_open_r (nvs E) False h = ESP_OK \<and>
        (length v \<le> len \<longrightarrow> nvs_get_blob_r (nvs E) k len h = (ESP_OK, v, length v))) \<and>
     (\<forall>h k len. nvs_settled h k = Absent \<longrightarrow> fst (nvs_get_blob_r (nvs E) k len h) \<noteq> ESP_OK)"

text \<open>The same for strings, which are returned with their terminating zero.\<close>

definition nvs_str_law :: "sdk \<Rightarrow> bool" where
  "nvs_str_law E \<longleftrightarrow>
     (\<forall>h k v len. nvs_settled h k = Holds_str v \<longrightarrow>
        nvs_open_r (nvs E) False h = ESP_OK \<and>
        (0 \<notin> set v \<and> length v < len \<longrightarrow> nvs_get_str_r (nvs E) k len h = (ESP_OK, v @ [0]))) \<and>
     (\<forall>h k len. nvs_settled h k = Absent \<longrightarrow> fst (nvs_get_str_r (nvs E) k len h) \<noteq> ESP_OK)"

lemma nvs_store_append: "nvs_store_of (h @ h') = foldl nvs_feed (nvs_store_of h) h'"
  by (simp add: nvs_store_of_def)

text \<open>Events that say nothing about the storage.\<close>

definition nvs_silent :: "event \<Rightarrow> bool" where
  "nvs_silent e \<longleftrightarrow> (\<forall>st k. settled_in (nvs_feed st e) k = settled_in st k)"

lemma settled_foldl_silent: "(\<forall>e \<in> set h. nvs_silent e) \<Longrightarrow> settled_in (foldl nvs_feed st h) k = settled_in st k"
  by (induction h arbitrary: st) (auto simp: nvs_silent_def simp del: split_paired_All)

lemma nvs_settled_silent:
  "(\<forall>e \<in> set h'. nvs_silent e) \<Longrightarrow> nvs_settled (h @ h') k = nvs_settled h k"
  by (simp add: nvs_settled_def nvs_store_append settled_foldl_silent)

lemma nvs_silent_simps [simp]:
  "nvs_silent (Crypto c)" "nvs_silent (Sock x)" "nvs_silent (Http x2)" "nvs_silent (Ota x3)"
  "nvs_silent (Sys x4)" "nvs_silent (Rtos x5)" "nvs_silent (Net n e)" "nvs_silent (Nvs Nvs_close)"
  "nvs_silent (Nvs (Nvs_open b e))" "nvs_silent (Nvs (Nvs_get_blob k e d l))"
  "nvs_silent (Nvs (Nvs_get_str k e d))" "nvs_silent (Nvs (Nvs_flash_init e))"
  by (simp_all add: nvs_silent_def nvs_feed_def settled_in_def)

text \<open>The calls that write nothing to the storage.\<close>

fun writes_nvs :: "event \<Rightarrow> bool" where
  "writes_nvs (Nvs (Nvs_set_blob k v r)) = True"
| "writes_nvs (Nvs (Nvs_set_str k v r)) = True"
| "writes_nvs (Nvs (Nvs_erase_key k r)) = True"
| "writes_nvs (Nvs (Nvs_flash_erase r)) = True"
| "writes_nvs (Nvs (Nvs_commit r)) = True"
| "writes_nvs _ = False"

definition calm :: "event set" where
  "calm = {e. \<not> writes_nvs e}"

lemma calm_silent: "e \<in> calm \<Longrightarrow> nvs_silent e"
  unfolding calm_def by (cases e rule: writes_nvs.cases) simp_all

section \<open>Sockets and request bodies\<close>

text \<open>A read stores at most as many bytes as the caller asked for.\<close>

definition recv_law :: "sdk \<Rightarrow> bool" where
  "recv_law E \<longleftrightarrow>
     (\<forall>fd n h. length (rx_data (sock_recv_r (sock E) fd n h)) \<le> n) \<and>
     (\<forall>n h. length (rx_data (req_recv_r (http E) n h)) \<le> n)"

text \<open>The bytes a history received on a socket.\<close>

definition received :: "int \<Rightarrow> history \<Rightarrow> bytes" where
  "received fd h =
     concat (map (\<lambda>e. case e of Sock (Sock_recv fd' n r) \<Rightarrow> if fd' = fd then rx_data r else []
                     | _ \<Rightarrow> []) h)"

lemma received_simps [simp]:
  "received fd [] = []"
  "received fd (a @ b) = received fd a @ received fd b"
  "received fd (Sock (Sock_recv fd n r) # h) = rx_data r @ received fd h"
  "received fd (Sys x # h) = received fd h"
  "received fd (Sock (Set_rcvtimeo fd' a' b') # h) = received fd h"
  "received fd (Sock (Sock_send fd' d k) # h) = received fd h"
  "received fd (Crypto c # h) = received fd h"
  by (simp_all add: received_def)

text \<open>The bytes of request bodies a history received.\<close>

definition body_of :: "history \<Rightarrow> bytes" where
  "body_of h = concat (map (\<lambda>e. case e of Http (Req_recv n r) \<Rightarrow> rx_data r | _ \<Rightarrow> []) h)"

text \<open>
  A peer that delivers \<open>msg\<close>, in pieces of any positive size: as long as a part of it is missing, a
  read returns the next bytes of it. \<open>seen\<close> is what a history received, \<open>base\<close> what it had received
  when the delivery started.
\<close>

definition delivers ::
  "(nat \<Rightarrow> history \<Rightarrow> rx) \<Rightarrow> (history \<Rightarrow> bytes) \<Rightarrow> bytes \<Rightarrow> bytes \<Rightarrow> bool" where
  "delivers rd seen base msg \<longleftrightarrow>
     (\<forall>h got rest n. seen h = base @ got \<longrightarrow> msg = got @ rest \<longrightarrow> rest \<noteq> [] \<longrightarrow> 0 < n \<longrightarrow>
        (\<exists>k. 0 < k \<and> k \<le> n \<and> rd n h = Rx (take k rest)))"

lemma deliversI:
  "(\<And>n h. rd n h = Rx (take n (drop (length (seen h)) msg))) \<Longrightarrow> delivers rd seen [] msg"
  unfolding delivers_def by (metis append_Nil append_eq_conv_conj order_refl)

section \<open>A concrete platform\<close>

definition pad32 :: "bytes \<Rightarrow> bytes" where
  "pad32 d = take 32 (d @ replicate 32 0)"

definition toy_sha :: "bytes \<Rightarrow> bytes" where
  "toy_sha d = pad32 (word_of_nat (length d) # d)"

definition toy_mac :: "bytes \<Rightarrow> bytes \<Rightarrow> bytes" where
  "toy_mac k d = pad32 (rev (take 32 (drop 10 d)) @ rev (take 10 d) @ k)"

definition toy_nvs :: nvs_api where
  "toy_nvs =
     \<lparr>nvs_flash_init_r = (\<lambda>_. 0), nvs_flash_erase_r = (\<lambda>_. 0), nvs_open_r = (\<lambda>_ _. 0),
      nvs_get_blob_r = (\<lambda>k len h. case fst (nvs_store_of h) k of
          Holds v \<Rightarrow> if length v \<le> len then (0, v, length v) else (0x110c, [], length v)
        | _ \<Rightarrow> (ESP_ERR_NVS_NOT_FOUND, [], len)),
      nvs_set_blob_r = (\<lambda>_ _ _. 0),
      nvs_get_str_r = (\<lambda>k len h. case fst (nvs_store_of h) k of
          Holds_str v \<Rightarrow> if length v < len then (0, v @ [0]) else (0x110c, [])
        | _ \<Rightarrow> (ESP_ERR_NVS_NOT_FOUND, [])),
      nvs_set_str_r = (\<lambda>_ _ _. 0), nvs_erase_key_r = (\<lambda>_ _. 0), nvs_commit_r = (\<lambda>_. 0)\<rparr>"

definition toy_smul :: "nat \<Rightarrow> nat \<Rightarrow> nat" where
  "toy_smul a u = (a * u) mod 2 ^ 255"

definition toy_crypto :: crypto_api where
  "toy_crypto =
     \<lparr>fill_random_r = (\<lambda>h i. word_of_nat (length h + i)), md_setup_r = (\<lambda>_. 0),
      hmac_starts_r = (\<lambda>_ _. 0), hmac_update_r = (\<lambda>_ _. 0),
      hmac_finish_r = (\<lambda>h. (0, \<lambda>i. (case md_stream h of Md_keyed k d \<Rightarrow> toy_mac k d | _ \<Rightarrow> replicate 32 0) ! i)),
      sha_starts_r = (\<lambda>_. 0), sha_update_r = (\<lambda>_ _. 0),
      sha_finish_r = (\<lambda>h. (0, \<lambda>i. (case sha_stream h of Some d \<Rightarrow> toy_sha d | None \<Rightarrow> replicate 32 0) ! i)),
      sha256_r = (\<lambda>d h. (0, \<lambda>i. toy_sha d ! i)),
      ecp_group_load_r = (\<lambda>_. 0), ecdh_gen_public_r = (\<lambda>_. (0, 3, toy_smul 3 9)),
      mpi_write_le_r = (\<lambda>x h. (if x < 256 ^ 32 then 0 else - 8, \<lambda>i. le_bytes 32 x ! i)),
      mpi_read_le_r = (\<lambda>b h. (0, le_val b)), mpi_lset_r = (\<lambda>_ _. 0),
      ecdh_compute_shared_r = (\<lambda>q d h. (if toy_smul d q = 0 then - 0x4f80 else 0, toy_smul d q))\<rparr>"

text \<open>The peer's bytes and the clock are the parameters of the concrete platform.\<close>

definition toy_sock :: "bytes \<Rightarrow> sock_api" where
  "toy_sock peer =
     \<lparr>sock_send_r = (\<lambda>fd d h. int (length d)),
      sock_recv_r = (\<lambda>fd n h. Rx (take n (drop (length (received fd h)) peer))),
      socket_r = (\<lambda>_ _. 3), bind_r = (\<lambda>_ _ _. 0), listen_r = (\<lambda>_ _ _. 0), accept_r = (\<lambda>_ _. 4),
      select_r = (\<lambda>_ fds _ _ _. (int (length fds), fds)), sendto_r = (\<lambda>_ d _ _. int (length d)),
      recvfrom_r = (\<lambda>_ n h. (Rx (take n peer), Sockaddr 0x0a000001 9999))\<rparr>"

definition toy_http :: "(string \<Rightarrow> bytes) \<Rightarrow> bytes \<Rightarrow> http_api" where
  "toy_http hdrs body =
     \<lparr>req_recv_r = (\<lambda>n h. Rx (take n (drop (length (body_of h)) body))),
      hdr_len_r = (\<lambda>k h. length (hdrs k)), hdr_str_r = (\<lambda>k h. (0, hdrs k @ [0])),
      resp_send_r = (\<lambda>_ _. 0), httpd_start_r = (\<lambda>_. 0), httpd_register_r = (\<lambda>_ _. 0)\<rparr>"

definition toy_ota :: "img_state \<Rightarrow> ota_api" where
  "toy_ota st =
     \<lparr>next_update_partition_r = (\<lambda>_. Some 1048576), ota_begin_r = (\<lambda>_. 0), ota_write_r = (\<lambda>_ _. 0),
      ota_end_r = (\<lambda>_. 0), ota_set_boot_r = (\<lambda>_. 0), ota_get_state_r = (\<lambda>_. (0, st)), ota_mark_valid_r = (\<lambda>_. 0),
      timer_create_r = (\<lambda>_. 0), timer_start_r = (\<lambda>_. 0)\<rparr>"

definition toy_sys :: sys_api where
  "toy_sys =
     \<lparr>get_time_r = (\<lambda>h. int (min (length h) 1000)), reset_reason_r = (\<lambda>_. 1),
      read_mac_r = (\<lambda>_. (0, \<lambda>i. word_of_nat (160 + i))), free_heap_r = (\<lambda>_. 100000),
      app_version_r = str ''v0.11.0'', idf_ver_r = str ''v5.4'', running_label_r = Some (str ''ota_0''),
      err_name_r = (\<lambda>_. str ''ESP_FAIL'')\<rparr>"

definition toy_rtos :: rtos_api where
  "toy_rtos =
     \<lparr>sb_create_r = (\<lambda>_ _. Some 1), sb_send_r = (\<lambda>_ d _ _. length d), sb_recv_r = (\<lambda>_ _ _ _. []),
      sb_space_r = (\<lambda>_ _. 16384), sem_create_r = (\<lambda>_. Some 2), sem_take_r = (\<lambda>_ _ _. True),
      task_create_r = (\<lambda>_ _. True), vhci_available_r = (\<lambda>_. True)\<rparr>"

definition toy_sdk :: "(string \<Rightarrow> bytes) \<Rightarrow> bytes \<Rightarrow> bytes \<Rightarrow> sdk" where
  "toy_sdk hdrs body peer =
     \<lparr>nvs = toy_nvs, crypto = toy_crypto, sock = toy_sock peer, http = toy_http hdrs body,
      ota = toy_ota IMG_VALID, sys = toy_sys, rtos = toy_rtos, net_r = (\<lambda>_ _. 0)\<rparr>"

lemma length_pad32 [simp]: "length (pad32 d) = 32"
  by (simp add: pad32_def)

lemma length_toy_sha [simp]: "length (toy_sha d) = 32"
  by (simp add: toy_sha_def)

lemma length_toy_mac [simp]: "length (toy_mac k d) = 32"
  by (simp add: toy_mac_def)

lemma toy_hmac_law: "hmac_law (toy_sdk hdrs body peer) toy_mac"
  by (auto simp: hmac_law_def toy_sdk_def toy_crypto_def split: prod.splits)

lemma toy_md_ok: "md_ok (toy_sdk hdrs body peer)"
  by (simp add: md_ok_def toy_sdk_def toy_crypto_def)

lemma toy_sha_law: "sha_law (toy_sdk hdrs body peer) toy_sha"
  by (auto simp: sha_law_def sha_ok_def toy_sdk_def toy_crypto_def)

lemma toy_mpi_law: "mpi_law (toy_sdk hdrs body peer)"
  by (auto simp: mpi_law_def toy_sdk_def toy_crypto_def split: if_splits)

lemma toy_ecdh_law: "ecdh_law (toy_sdk hdrs body peer) toy_smul 9"
  by (auto simp: ecdh_law_def toy_sdk_def toy_crypto_def toy_smul_def split: if_splits)

lemma toy_smul_commute: "toy_smul a (toy_smul b u) = toy_smul b (toy_smul a u)"
  by (simp add: toy_smul_def mod_mult_right_eq mult.left_commute)

lemma toy_nvs_law: "nvs_law (toy_sdk hdrs body peer)"
  by (auto simp: nvs_law_def nvs_settled_def settled_in_def toy_sdk_def toy_nvs_def split: prod.splits if_splits)

lemma toy_nvs_str_law: "nvs_str_law (toy_sdk hdrs body peer)"
  by (auto simp: nvs_str_law_def nvs_settled_def settled_in_def toy_sdk_def toy_nvs_def split: prod.splits if_splits)

lemma toy_recv_law: "recv_law (toy_sdk hdrs body peer)"
  by (simp add: recv_law_def toy_sdk_def toy_sock_def toy_http_def)

text \<open>The static variables as the C file initialises them, and a claimed board.\<close>

definition boot_fw :: fw where
  "boot_fw =
     \<lparr>g_psk = replicate 32 0, g_claimed = False, g_http_rand = replicate 16 0, g_http_counter = 0,
      s_magic = 0, s_stage = 0, s_prev_stage = 0, s_reset = 0, g_ip4 = 0, g_rollback_timer = False,
      bridge = \<lparr>listen_fd = - 1, client_fd = - 1, tx_pause = False, tx_idle = False,
        tx_failed = False, sb = None, send_sem = None,
        stats = \<lparr>to_controller = 0, to_host = 0, dropped_no_host = 0, dropped_overflow = 0,
          dropped_stale = 0, dropped_controller_busy = 0, connections = 0\<rparr>\<rparr>,
      hist = []\<rparr>"

definition toy_fw :: fw where
  "toy_fw = boot_fw\<lparr>g_psk := replicate 32 7, g_claimed := True, g_http_rand := replicate 16 1\<rparr>"

lemmas toy_laws = toy_hmac_law toy_md_ok toy_sha_law toy_mpi_law toy_ecdh_law toy_nvs_law toy_recv_law
  toy_nvs_str_law

end
