(* ===== verification/CLib.thy ===== *)
theory CLib
  imports Prelude
begin

text \<open>
  What the firmware uses of the C library beyond \<open>strlen\<close>: the decimal and hexadecimal conversions
  of \<open>printf\<close> and the truncation of \<open>snprintf\<close>.
\<close>

section \<open>Conversions of printf\<close>

text \<open>\<open>%u\<close>, \<open>%lu\<close>: the decimal digits of an unsigned number.\<close>

fun fmt_u :: "nat \<Rightarrow> bytes" where
  "fmt_u n = (if n < 10 then [48 + word_of_nat n]
              else fmt_u (n div 10) @ [48 + word_of_nat (n mod 10)])"

declare fmt_u.simps [simp del]

text \<open>\<open>%d\<close>, \<open>%lld\<close>.\<close>

definition fmt_d :: "int \<Rightarrow> bytes" where
  "fmt_d i = (if i < 0 then 45 # fmt_u (nat (- i)) else fmt_u (nat i))"

definition hx :: bytes where
  "hx = str ''0123456789abcdef''"

text \<open>\<open>%02x\<close> of a byte.\<close>

definition fmt_02x :: "byte \<Rightarrow> bytes" where
  "fmt_02x b = [hx ! unat (drop_bit 4 b), hx ! unat (b AND 15)]"

text \<open>
  \<open>snprintf\<close> into an array of \<open>sz\<close> bytes: the result is the length of the whole text, the array
  holds what fits before the terminating zero.
\<close>

definition snprintf :: "nat \<Rightarrow> bytes \<Rightarrow> nat \<times> bytes" where
  "snprintf sz text = (length text, take (sz - 1) text)"

lemma snprintf_fits: "length text < sz \<Longrightarrow> snprintf sz text = (length text, text)"
  by (simp add: snprintf_def)

section \<open>Facts about the conversions\<close>

definition is_digit :: "byte \<Rightarrow> bool" where
  "is_digit b \<longleftrightarrow> 48 \<le> b \<and> b \<le> 57"

lemma digit_range:
  assumes "n < 10"
  shows "is_digit (48 + word_of_nat n)" and "unat (48 + word_of_nat n :: byte) = 48 + n"
proof -
  have u: "unat (word_of_nat n :: byte) = n"
    using assms by (simp add: unat_of_nat)
  show e: "unat (48 + word_of_nat n :: byte) = 48 + n"
    using assms u by (simp add: unat_word_ariths)
  show "is_digit (48 + word_of_nat n)"
    unfolding is_digit_def word_le_nat_alt using e assms by simp
qed

lemma fmt_u_digits: "b \<in> set (fmt_u n) \<Longrightarrow> is_digit b"
proof (induction n rule: fmt_u.induct)
  case (1 n)
  show ?case
  proof (cases "n < 10")
    case True
    with "1.prems" show ?thesis by (simp add: fmt_u.simps [of n] digit_range)
  next
    case False
    with "1.prems" have "b \<in> set (fmt_u (n div 10)) \<or> b = 48 + word_of_nat (n mod 10)"
      by (auto simp: fmt_u.simps [of n])
    with "1.IH" [OF False] show ?thesis by (auto simp: digit_range)
  qed
qed

lemma fmt_u_nonempty [simp]: "fmt_u n \<noteq> []"
  by (subst fmt_u.simps) simp

text \<open>A number below \<open>10 ^ k\<close> prints in at most \<open>k\<close> digits.\<close>

lemma length_fmt_u_le: "n < 10 ^ k \<Longrightarrow> 0 < k \<Longrightarrow> length (fmt_u n) \<le> k"
proof (induction n arbitrary: k rule: fmt_u.induct)
  case (1 n)
  show ?case
  proof (cases "n < 10")
    case True
    with "1.prems" show ?thesis by (simp add: fmt_u.simps [of n])
  next
    case False
    then obtain j where k: "k = Suc j" and j: "0 < j"
      using "1.prems" by (cases k; cases "k - 1") auto
    from "1.prems" k have "n div 10 < 10 ^ j" by (simp add: div_less_iff_less_mult)
    with "1.IH" [OF False] j have "length (fmt_u (n div 10)) \<le> j" by blast
    with False k show ?thesis by (simp add: fmt_u.simps [of n])
  qed
qed

text \<open>Reading decimal digits back.\<close>

definition dec_val :: "bytes \<Rightarrow> nat" where
  "dec_val ds = foldl (\<lambda>a b. a * 10 + (unat b - 48)) 0 ds"

lemma dec_val_fmt_u: "dec_val (fmt_u n) = n"
proof (induction n rule: fmt_u.induct)
  case (1 n)
  show ?case
  proof (cases "n < 10")
    case True
    then show ?thesis by (simp add: fmt_u.simps [of n] dec_val_def digit_range)
  next
    case False
    with "1.IH" have "dec_val (fmt_u (n div 10)) = n div 10" by simp
    with False show ?thesis
      by (simp add: fmt_u.simps [of n] dec_val_def digit_range)
  qed
qed

lemma fmt_u_inject: "fmt_u m = fmt_u n \<longleftrightarrow> m = n"
  by (metis dec_val_fmt_u)

lemma length_hx [simp]: "length hx = 16"
  by (simp add: hx_def)

lemma length_fmt_02x [simp]: "length (fmt_02x b) = 2"
  by (simp add: fmt_02x_def)

end
