(* ===== verification/Auth.thy ===== *)
theory Auth
  imports Laws CLib
begin

text \<open>
  \<open>firmware/main/auth.c\<close>, the part every request goes through: comparison of secrets, HMAC over
  several parts, hexadecimal text, the key read at boot, the announce signature, and the nonce and
  the two proofs of an HTTP request.
\<close>

section \<open>Definitions\<close>

definition PSK_LEN :: nat where "PSK_LEN = 32"
definition NONCE_LEN :: nat where "NONCE_LEN = 32"
definition MAC_LEN :: nat where "MAC_LEN = 32"
definition HTTP_NONCE_LEN :: nat where "HTTP_NONCE_LEN = 20"

lemmas auth_lengths [simp] = PSK_LEN_def NONCE_LEN_def MAC_LEN_def HTTP_NONCE_LEN_def

text \<open>The difference of the two arrays is accumulated over all \<open>n\<close> indices.\<close>

definition auth_ct_equal :: "bytes \<Rightarrow> bytes \<Rightarrow> nat \<Rightarrow> bool" where
  "auth_ct_equal a b n = (fold (\<lambda>i d. d OR (a ! i XOR b ! i)) [0..<n] (0 :: byte) = 0)"

fun hmac_updates :: "sdk \<Rightarrow> bytes list \<Rightarrow> bool \<Rightarrow> bool fwm" where
  "hmac_updates E [] ok = ret ok"
| "hmac_updates E (p # ps) ok =
     (if ok then do { r \<leftarrow> mbedtls_md_hmac_update E p; hmac_updates E ps (r = 0) } else ret False)"

text \<open>The result is the array \<open>out\<close> where the C function returns true, \<open>None\<close> where it returns false.\<close>

definition hmac_parts :: "sdk \<Rightarrow> bytes \<Rightarrow> bytes list \<Rightarrow> bytes option fwm" where
  "hmac_parts E key parts = do {
     r \<leftarrow> mbedtls_md_setup E;
     ok \<leftarrow> (if r = 0 then do { r \<leftarrow> mbedtls_md_hmac_starts E key; ret (r = 0) } else ret False);
     ok \<leftarrow> hmac_updates E parts ok;
     out \<leftarrow> (if ok
            then do { (r, out) \<leftarrow> mbedtls_md_hmac_finish E; ret (if r = 0 then Some out else None) }
            else ret None);
     mbedtls_md_free;
     ret out
   }"

definition auth_init :: "sdk \<Rightarrow> bool fwm" where
  "auth_init E = do {
     rnd \<leftarrow> esp_fill_random E 16;
     modify (\<lambda>s. s\<lparr>g_http_rand := rnd\<rparr>);
     e \<leftarrow> nvs_open E False;
     (if e = ESP_OK then do {
        (e, d, len) \<leftarrow> nvs_get_blob E ''psk'' PSK_LEN;
        modify (\<lambda>s. s\<lparr>g_psk := overwrite d (g_psk s)\<rparr>);
        (if e = ESP_OK \<and> len = PSK_LEN then modify (\<lambda>s. s\<lparr>g_claimed := True\<rparr>) else ret ());
        nvs_close
      } else ret ());
     gets g_claimed
   }"

definition auth_claimed :: "bool fwm" where
  "auth_claimed = gets g_claimed"

definition hexlify :: "bytes \<Rightarrow> nat \<Rightarrow> bytes" where
  "hexlify inp n =
     concat (map (\<lambda>i. [hx ! unat (drop_bit 4 (inp ! i)), hx ! unat (inp ! i AND 15)]) [0..<n])"

text \<open>The value of a hexadecimal digit, \<open>-1\<close> for another character; \<open>'a' = 97\<close>, \<open>'f' = 102\<close>.\<close>

definition hex_val :: "byte \<Rightarrow> int" where
  "hex_val c =
     (let hi = uint c in
      if 48 \<le> hi \<and> hi \<le> 57 then hi - 48
      else if 97 \<le> hi OR 0x20 \<and> hi OR 0x20 \<le> 102 then (hi OR 0x20) - 97 + 10
      else - 1)"

fun unhex_loop :: "bytes \<Rightarrow> nat list \<Rightarrow> bytes option" where
  "unhex_loop s [] = Some []"
| "unhex_loop s (i # is) =
     (let h = hex_val (s ! (2 * i)); l = hex_val (s ! (2 * i + 1)) in
      if h < 0 \<or> l < 0 then None
      else map_option ((#) (word_of_int (h * 16 + l))) (unhex_loop s is))"

text \<open>\<open>None\<close> stands for the result \<open>-1\<close>; the callers then ignore the output array.\<close>

definition unhex :: "bytes \<Rightarrow> nat \<Rightarrow> bytes option" where
  "unhex s n = unhex_loop s [0..<n]"

text \<open>
  The announce signature. The output is a C string, left alone when it has no room for two bytes.
  The port is printed into an array of eight bytes but read with the length of the whole text:
  past the end of the array for a port of nine digits or more.
\<close>

datatype sig_out = Sig_untouched | Sig_text bytes | Sig_overread

definition auth_announce_sig ::
  "sdk \<Rightarrow> bytes \<Rightarrow> nat \<Rightarrow> bytes \<Rightarrow> bytes \<Rightarrow> nat \<Rightarrow> (nat \<times> sig_out) fwm" where
  "auth_announce_sig E bdaddr port name ip outlen = do {
     claimed \<leftarrow> gets g_claimed;
     if \<not> claimed \<or> outlen < 33
     then ret (1, if 2 \<le> outlen then Sig_text (str ''-'') else Sig_untouched)
     else do {
       let (pn, ps) = snprintf 8 (fmt_u port);
       if 8 < pn then ret (32, Sig_overread)
       else do {
         psk \<leftarrow> gets g_psk;
         m \<leftarrow> hmac_parts E psk [bdaddr, [9], take pn (ps @ [0]), [9], name, [9], ip];
         (case m of
            None \<Rightarrow> ret (1, Sig_text (str ''-''))
          | Some mac \<Rightarrow> ret (32, Sig_text (hexlify mac 16)))
       }
     }
   }"

definition be32 :: "u32 \<Rightarrow> bytes" where
  "be32 c = [ucast (drop_bit 24 c), ucast (drop_bit 16 c), ucast (drop_bit 8 c), ucast c]"

definition http_nonce :: "fw \<Rightarrow> bytes" where
  "http_nonce s = take 16 (g_http_rand s) @ be32 (g_http_counter s)"

definition auth_nonce_hex :: "nat \<Rightarrow> (nat \<times> bytes) fwm" where
  "auth_nonce_hex outlen =
     (if outlen < 2 * HTTP_NONCE_LEN + 1 then ret (0, [])
      else do {
        n \<leftarrow> gets http_nonce;
        ret (2 * HTTP_NONCE_LEN, hexlify n HTTP_NONCE_LEN)
      })"

definition auth_nonce_bump :: "unit fwm" where
  "auth_nonce_bump = modify (\<lambda>s. s\<lparr>g_http_counter := g_http_counter s + 1\<rparr>)"

definition check_mac :: "sdk \<Rightarrow> bytes option \<Rightarrow> bytes list \<Rightarrow> bool fwm" where
  "check_mac E header_hex parts = do {
     claimed \<leftarrow> gets g_claimed;
     (case header_hex of
        None \<Rightarrow> ret False
      | Some h \<Rightarrow>
          if \<not> claimed \<or> length (cstr h) \<noteq> 2 * MAC_LEN then ret False
          else (case unhex h MAC_LEN of
                  None \<Rightarrow> ret False
                | Some given \<Rightarrow> do {
                    psk \<leftarrow> gets g_psk;
                    m \<leftarrow> hmac_parts E psk parts;
                    (case m of
                       None \<Rightarrow> ret False
                     | Some mac \<Rightarrow> ret (auth_ct_equal given mac MAC_LEN))
                  }))
   }"

definition auth_check_http :: "sdk \<Rightarrow> bytes \<Rightarrow> bytes \<Rightarrow> bytes \<Rightarrow> bytes option \<Rightarrow> bool fwm" where
  "auth_check_http E method path body_sha header_hex = do {
     nonce \<leftarrow> gets http_nonce;
     check_mac E header_hex [method, [32], path, [10], nonce, body_sha]
   }"

definition auth_check_http_pre :: "sdk \<Rightarrow> bytes \<Rightarrow> bytes \<Rightarrow> u32 \<Rightarrow> bytes option \<Rightarrow> bool fwm" where
  "auth_check_http_pre E method path content_len header_hex = do {
     nonce \<leftarrow> gets http_nonce;
     check_mac E header_hex [str ''PRE '', method, [32], path, [10], nonce, be32 content_len]
   }"

section \<open>Hexadecimal text and comparison\<close>

lemma xor_eq_0_iff: "a XOR b = 0 \<longleftrightarrow> a = (b :: byte)"
proof
  assume *: "a XOR b = 0"
  have "a = (a XOR b) XOR b" by (simp add: xor.assoc)
  with * show "a = b" by simp
qed simp

lemma fold_or_zero:
  "fold (\<lambda>i d. d OR f i) is (d0 :: byte) = 0 \<longleftrightarrow> d0 = 0 \<and> (\<forall>i \<in> set is. f i = 0)"
  by (induction "is" arbitrary: d0) (auto simp: or_eq_0_iff)

lemma auth_ct_equal_iff:
  assumes "n \<le> length a" and "n \<le> length b"
  shows "auth_ct_equal a b n \<longleftrightarrow> take n a = take n b"
proof -
  have "auth_ct_equal a b n \<longleftrightarrow> (\<forall>i<n. a ! i = b ! i)"
    by (auto simp: auth_ct_equal_def fold_or_zero xor_eq_0_iff)
  then show ?thesis
    using assms by (auto simp: list_eq_iff_nth_eq)
qed

lemma length_hexlify [simp]: "length (hexlify inp n) = 2 * n"
  by (induction n) (simp_all add: hexlify_def)

lemma hexlify_nth:
  assumes "i < n"
  shows "hexlify inp n ! (2 * i) = hx ! unat (drop_bit 4 (inp ! i))"
    and "hexlify inp n ! (2 * i + 1) = hx ! unat (inp ! i AND 15)"
proof -
  have *: "hexlify inp (Suc n) =
      hexlify inp n @ [hx ! unat (drop_bit 4 (inp ! n)), hx ! unat (inp ! n AND 15)]" for n
    by (simp add: hexlify_def)
  have "hexlify inp n ! (2 * i) = hx ! unat (drop_bit 4 (inp ! i)) \<and>
    hexlify inp n ! (2 * i + 1) = hx ! unat (inp ! i AND 15)"
    using assms by (induction n) (auto simp: * nth_append less_Suc_eq)
  then show "hexlify inp n ! (2 * i) = hx ! unat (drop_bit 4 (inp ! i))"
    and "hexlify inp n ! (2 * i + 1) = hx ! unat (inp ! i AND 15)" by auto
qed

text \<open>The digit table and the digit values invert each other, checked on all bytes.\<close>

definition hex_digit :: "byte \<Rightarrow> bool" where
  "hex_digit c \<longleftrightarrow> 0 \<le> hex_val c"

lemma hex_val_hx: "\<forall>n \<in> set [0..<16]. hex_val (hx ! n) = int n"
  by code_simp

lemma nibble_lo: "unat (b AND 15 :: byte) = unat b mod 16"
proof -
  have "b AND 15 = take_bit 4 b"
    by (simp add: take_bit_eq_mask mask_eq_exp_minus_1)
  then show ?thesis by (simp add: take_bit_eq_mod unat_mod)
qed

lemma nibble_hi: "unat (drop_bit 4 b :: byte) = unat b div 16"
  by (simp add: drop_bit_eq_div unat_div)

lemma hex_byte_split:
  fixes b :: byte
  shows "unat (drop_bit 4 b) < 16" "unat (b AND 15) < 16"
     "word_of_int (int (unat (drop_bit 4 b)) * 16 + int (unat (b AND 15))) = b"
proof -
  have "unat b < 256" by (rule byte_cases_le)
  then show "unat (drop_bit 4 b) < 16" by (simp add: nibble_hi)
  show "unat (b AND 15) < 16" by (simp add: nibble_lo)
  have "int (unat b div 16) * 16 + int (unat b mod 16) = int (unat b div 16 * 16 + unat b mod 16)"
    by (simp only: of_nat_add of_nat_mult of_nat_numeral)
  then have "int (unat b div 16) * 16 + int (unat b mod 16) = uint b"
    by simp
  then show "word_of_int (int (unat (drop_bit 4 b)) * 16 + int (unat (b AND 15))) = b"
    by (simp add: nibble_hi nibble_lo)
qed

lemma hex_pair:
  fixes b :: byte
  shows "hex_val (hx ! unat (drop_bit 4 b)) = int (unat (drop_bit 4 b))"
    and "hex_val (hx ! unat (b AND 15)) = int (unat (b AND 15))"
  using hex_val_hx hex_byte_split [of b] by auto

lemma unhex_loop_hexlify:
  "(\<forall>i \<in> set is. i < n) \<Longrightarrow> unhex_loop (hexlify inp n) is = Some (map ((!) inp) is)"
proof (induction "is")
  case Nil
  then show ?case by simp
next
  case (Cons i "is")
  then have "hex_val (hexlify inp n ! (2 * i)) = int (unat (drop_bit 4 (inp ! i)))"
    and "hex_val (hexlify inp n ! (2 * i + 1)) = int (unat (inp ! i AND 15))"
    by (simp_all only: hexlify_nth hex_pair list.set_intros)
  with Cons hex_byte_split [of "inp ! i"] show ?case
    by (simp add: Let_def)
qed

lemma unhex_hexlify:
  assumes "length bs = n"
  shows "unhex (hexlify bs n) n = Some bs"
  using assms by (auto simp: unhex_def unhex_loop_hexlify intro: nth_equalityI)

lemma hexlify_chars: "c \<in> set (hexlify inp n) \<Longrightarrow> c \<in> set hx"
proof -
  have *: "hx ! unat (drop_bit 4 b) \<in> set hx" "hx ! unat (b AND 15) \<in> set hx" for b :: byte
    using hex_byte_split [of b] by simp_all
  show "c \<in> set (hexlify inp n) \<Longrightarrow> c \<in> set hx"
    by (auto simp: hexlify_def *)
qed

lemma cstr_hexlify [simp]: "cstr (hexlify inp n) = hexlify inp n"
proof -
  have "(0 :: byte) \<notin> set hx" by code_simp
  then show ?thesis by (intro cstr_id) (auto dest: hexlify_chars)
qed

text \<open>
  \<open>unhex\<close> accepts exactly the texts whose first \<open>2 * n\<close> characters are hexadecimal digits, and reads
  byte \<open>i\<close> off characters \<open>2 * i\<close> and \<open>2 * i + 1\<close>.
\<close>

lemma hex_val_cases: "hex_val c < 16"
  by (auto simp: hex_val_def Let_def)

lemma or_32: "(x :: int) OR 32 = x + of_bool (\<not> bit x 5) * 32"
  using set_bit_eq [of 5 x] by (simp add: set_bit_eq_or)

lemma bit5_upper: "\<not> bit x 5" if "x \<in> {65..70}" for x :: int
proof -
  from that have "x = 65 \<or> x = 66 \<or> x = 67 \<or> x = 68 \<or> x = 69 \<or> x = 70" by auto
  then show ?thesis by (elim disjE) simp_all
qed

lemma bit5_lower: "bit x 5" if "x \<in> {97..102}" for x :: int
proof -
  from that have "x = 97 \<or> x = 98 \<or> x = 99 \<or> x = 100 \<or> x = 101 \<or> x = 102" by auto
  then show ?thesis by (elim disjE) simp_all
qed

lemma hex_digit_iff: "hex_digit c \<longleftrightarrow> uint c \<in> {48..57} \<union> {65..70} \<union> {97..102}"
  using bit5_upper [of "uint c"] bit5_lower [of "uint c"]
  by (auto simp: hex_digit_def hex_val_def Let_def or_32)

lemma unhex_loop_eq:
  "unhex_loop s is =
     (if \<forall>i \<in> set is. hex_digit (s ! (2 * i)) \<and> hex_digit (s ! (2 * i + 1))
      then Some (map (\<lambda>i. word_of_int (hex_val (s ! (2 * i)) * 16 + hex_val (s ! (2 * i + 1)))) is)
      else None)"
  by (induction "is") (auto simp: Let_def hex_digit_def not_less)

lemma all_pairs: "(\<forall>i < n. P (2 * i) \<and> P (2 * i + 1)) \<longleftrightarrow> (\<forall>j < 2 * n. P j)" for n :: nat
proof
  assume *: "\<forall>i < n. P (2 * i) \<and> P (2 * i + 1)"
  show "\<forall>j < 2 * n. P j"
  proof (intro allI impI)
    fix j assume "j < 2 * n"
    then have "j div 2 < n" by simp
    with * have "P (2 * (j div 2))" and "P (2 * (j div 2) + 1)" by auto
    then show "P j" by (cases "even j") (auto simp: odd_two_times_div_two_succ)
  qed
qed auto

lemma unhex_eq:
  "unhex s n =
     (if \<forall>j < 2 * n. hex_digit (s ! j)
      then Some (map (\<lambda>i. word_of_int (hex_val (s ! (2 * i)) * 16 + hex_val (s ! (2 * i + 1)))) [0..<n])
      else None)"
  using all_pairs [of n "\<lambda>j. hex_digit (s ! j)"] by (auto simp: unhex_def unhex_loop_eq)

lemma unhex_length: "unhex s n = Some bs \<Longrightarrow> length bs = n"
  by (auto simp: unhex_eq split: if_splits)

section \<open>HMAC over several parts\<close>

definition md_events :: "event set" where
  "md_events = {e. \<exists>r k p out. e = Crypto (Md_setup r) \<or> e = Crypto (Hmac_starts k r) \<or>
     e = Crypto (Hmac_update p r) \<or> e = Crypto (Hmac_finish r out) \<or> e = Crypto Md_free}"

lemma hmac_updates_true:
  "run_state (hmac_updates E ps ok) s = (True, t) \<Longrightarrow>
     ok \<and> t = s\<lparr>hist := hist s @ map (\<lambda>p. Crypto (Hmac_update p 0)) ps\<rparr>"
proof (induction ps arbitrary: ok s)
  case Nil
  then show ?case by simp
next
  case (Cons p ps)
  then show ?case
    by (auto simp: mbedtls_md_hmac_update_def split: if_splits dest!: Cons.IH)
qed

lemma hmac_updates_ok:
  assumes "md_ok E"
  shows "run_state (hmac_updates E ps True) s =
    (True, s\<lparr>hist := hist s @ map (\<lambda>p. Crypto (Hmac_update p 0)) ps\<rparr>)"
  using assms
  by (induction ps arbitrary: s) (simp_all add: mbedtls_md_hmac_update_def md_ok_def)

lemma emits_hmac_updates [frame_intros]: "emits md_events (hmac_updates E ps ok)"
  by (induction ps arbitrary: ok)
    (auto simp: mbedtls_md_hmac_update_def md_events_def intro!: frame_intros)

lemma emits_hmac_parts [frame_intros]: "emits md_events (hmac_parts E key parts)"
  unfolding hmac_parts_def platform_calls
  by (intro frame_intros emits_hmac_updates) (auto simp: md_events_def split: prod.splits)

lemma md_stream_updates:
  "foldl md_feed (Md_keyed k d) (map (\<lambda>p. Crypto (Hmac_update p 0)) ps) = Md_keyed k (d @ concat ps)"
  by (induction ps arbitrary: d) simp_all

lemma md_stream_parts:
  "md_stream (h @ Crypto (Md_setup 0) # Crypto (Hmac_starts key 0) #
      map (\<lambda>p. Crypto (Hmac_update p 0)) parts) = Md_keyed key (concat parts)"
  by (simp add: md_stream_def md_stream_updates)

text \<open>A result comes only from a run in which every call succeeded.\<close>

definition hmac_calls :: "bytes \<Rightarrow> bytes list \<Rightarrow> history" where
  "hmac_calls key parts =
     Crypto (Md_setup 0) # Crypto (Hmac_starts key 0) # map (\<lambda>p. Crypto (Hmac_update p 0)) parts"

lemma hmac_parts_some:
  assumes "run_state (hmac_parts E key parts) s = (Some out, t)"
  shows "fst (hmac_finish_r (crypto E) (hist s @ hmac_calls key parts)) = 0"
    and "out = arr 32 (snd (hmac_finish_r (crypto E) (hist s @ hmac_calls key parts)))"
    and "t = s\<lparr>hist := hist s @ hmac_calls key parts @ [Crypto (Hmac_finish 0 out), Crypto Md_free]\<rparr>"
proof -
  let ?h = "hist s @ hmac_calls key parts"
  have "wp (hmac_parts E key parts) (\<lambda>r t. \<forall>out. r = Some out \<longrightarrow>
      fst (hmac_finish_r (crypto E) ?h) = 0 \<and> out = arr 32 (snd (hmac_finish_r (crypto E) ?h)) \<and>
      t = s\<lparr>hist := ?h @ [Crypto (Hmac_finish 0 out), Crypto Md_free]\<rparr>) s"
    unfolding hmac_parts_def platform_calls
    apply (simp split: prod.splits if_splits)
    apply (intro conjI impI wpI)
    by (auto simp: hmac_calls_def dest!: hmac_updates_true)
  with assms show "fst (hmac_finish_r (crypto E) ?h) = 0"
    and "out = arr 32 (snd (hmac_finish_r (crypto E) ?h))"
    and "t = s\<lparr>hist := hist s @ hmac_calls key parts @ [Crypto (Hmac_finish 0 out), Crypto Md_free]\<rparr>"
    by (auto dest: wpD)
qed

lemma hmac_parts_sound:
  assumes "run_state (hmac_parts E key parts) s = (Some out, t)" and "hmac_law E hm"
  shows "out = hm key (concat parts)"
  using hmac_parts_some [OF assms(1)] assms(2) md_stream_parts [of "hist s" key parts]
  unfolding hmac_law_def hmac_calls_def by (metis prod.collapse)

lemma hmac_parts_length: "run_state (hmac_parts E key parts) s = (Some out, t) \<Longrightarrow> length out = 32"
  by (auto simp: hmac_parts_def platform_calls split: prod.splits if_splits)

lemma hmac_parts_complete:
  assumes "md_ok E" and "hmac_law E hm"
  obtains t where "run_state (hmac_parts E key parts) s = (Some (hm key (concat parts)), t)"
proof -
  let ?h = "hist s @ Crypto (Md_setup 0) # Crypto (Hmac_starts key 0) #
    map (\<lambda>p. Crypto (Hmac_update p 0)) parts"
  obtain f where f: "hmac_finish_r (crypto E) ?h = (0, f)"
    using assms(1) unfolding md_ok_def by (metis prod.collapse)
  with assms(2) md_stream_parts have out: "arr 32 f = hm key (concat parts)"
    unfolding hmac_law_def by blast
  have "md_setup_r (crypto E) h = 0" "hmac_starts_r (crypto E) k h = 0" for h k
    using assms(1) by (simp_all add: md_ok_def)
  then show thesis
    using that f out by (simp add: hmac_parts_def platform_calls hmac_updates_ok [OF assms(1)])
qed

lemma hmac_length:
  assumes "md_ok E" and "hmac_law E hm"
  shows "length (hm k m) = 32"
proof -
  obtain t where "run_state (hmac_parts E k [m]) boot_fw = (Some (hm k (concat [m])), t)"
    using assms by (rule hmac_parts_complete)
  then show ?thesis using hmac_parts_length by fastforce
qed

text \<open>The calls of the HMAC interface that failed.\<close>

fun md_failed :: "event \<Rightarrow> bool" where
  "md_failed (Crypto (Md_setup r)) \<longleftrightarrow> r \<noteq> 0"
| "md_failed (Crypto (Hmac_starts k r)) \<longleftrightarrow> r \<noteq> 0"
| "md_failed (Crypto (Hmac_update p r)) \<longleftrightarrow> r \<noteq> 0"
| "md_failed (Crypto (Hmac_finish r out)) \<longleftrightarrow> r \<noteq> 0"
| "md_failed _ \<longleftrightarrow> False"

lemma hmac_parts_no_failure:
  assumes "run_state (hmac_parts E key parts) s = (Some out, t)"
  obtains new where "t = s\<lparr>hist := hist s @ new\<rparr>" and "\<forall>e \<in> set new. \<not> md_failed e"
    and "Crypto (Hmac_finish 0 out) \<in> set new"
proof
  show "t = s\<lparr>hist := hist s @ hmac_calls key parts @ [Crypto (Hmac_finish 0 out), Crypto Md_free]\<rparr>"
    using assms by (rule hmac_parts_some)
qed (auto simp: hmac_calls_def)

section \<open>Proofs of HTTP requests\<close>

lemma emits_check_mac [frame_intros]: "emits md_events (check_mac E hdr parts)"
  unfolding check_mac_def
  by (intro frame_intros emits_hmac_parts)

lemma check_mac_sound:
  assumes "run_state (check_mac E hdr parts) s = (True, t)" and "hmac_law E hm"
  shows "g_claimed s \<and>
    (\<exists>h. hdr = Some h \<and> length (cstr h) = 64 \<and> unhex h 32 = Some (hm (g_psk s) (concat parts)))"
proof -
  from assms(1) obtain h given out u
    where h: "hdr = Some h" "g_claimed s" "length (cstr h) = 64" "unhex h 32 = Some given"
      and mac: "run_state (hmac_parts E (g_psk s) parts) s = (Some out, u)"
      and eq: "auth_ct_equal given out 32"
    by (auto simp: check_mac_def split: option.splits if_splits prod.splits)
  have out: "out = hm (g_psk s) (concat parts)"
    using mac assms(2) by (rule hmac_parts_sound)
  have "length out = 32" using mac by (rule hmac_parts_length)
  moreover have "length given = 32" using h(4) by (rule unhex_length)
  ultimately have "given = out" using eq by (simp add: auth_ct_equal_iff)
  with h out show ?thesis by auto
qed

lemma check_mac_complete:
  assumes "md_ok E" and "hmac_law E hm" and "g_claimed s" and "length (cstr h) = 64"
    and "unhex h 32 = Some (hm (g_psk s) (concat parts))"
  shows "fst (run_state (check_mac E (Some h) parts) s)"
proof -
  obtain t where
    "run_state (hmac_parts E (g_psk s) parts) s = (Some (hm (g_psk s) (concat parts)), t)"
    using assms(1,2) by (rule hmac_parts_complete)
  with assms(3-5) show ?thesis
    by (simp add: check_mac_def auth_ct_equal_iff hmac_length [OF assms(1,2)])
qed

lemma check_mac_no_failure:
  assumes "run_state (check_mac E hdr parts) s = (True, t)"
  shows "\<exists>new. t = s\<lparr>hist := hist s @ new\<rparr> \<and> (\<forall>e \<in> set new. \<not> md_failed e) \<and>
    (\<exists>mac. Crypto (Hmac_finish 0 mac) \<in> set new)"
proof -
  from assms obtain out where "run_state (hmac_parts E (g_psk s) parts) s = (Some out, t)"
    by (auto simp: check_mac_def split: option.splits if_splits prod.splits)
  then show ?thesis by (rule hmac_parts_no_failure) blast
qed

text \<open>The bytes the two proofs of a request authenticate.\<close>

definition http_msg :: "bytes \<Rightarrow> bytes \<Rightarrow> bytes \<Rightarrow> bytes \<Rightarrow> bytes" where
  "http_msg method path nonce sha = method @ [32] @ path @ [10] @ nonce @ sha"

definition pre_msg :: "bytes \<Rightarrow> bytes \<Rightarrow> bytes \<Rightarrow> u32 \<Rightarrow> bytes" where
  "pre_msg method path nonce len = str ''PRE '' @ method @ [32] @ path @ [10] @ nonce @ be32 len"

text \<open>A header carries the proof of a message under a key.\<close>

definition proves :: "(bytes \<Rightarrow> bytes \<Rightarrow> bytes) \<Rightarrow> bytes \<Rightarrow> bytes \<Rightarrow> bytes \<Rightarrow> bool" where
  "proves hm psk h msg \<longleftrightarrow> length (cstr h) = 64 \<and> unhex h 32 = Some (hm psk msg)"

lemma proves_hexlify: "length (hm psk msg) = 32 \<Longrightarrow> proves hm psk (hexlify (hm psk msg) 32) msg"
  by (simp add: proves_def unhex_hexlify)

lemma auth_check_http_sound:
  assumes "run_state (auth_check_http E m p sha (Some h)) s = (True, t)" and "hmac_law E hm"
  shows "g_claimed s \<and> proves hm (g_psk s) h (http_msg m p (http_nonce s) sha)"
  using check_mac_sound [where hdr = "Some h" and s = s and E = E and t = t] assms
  by (fastforce simp: auth_check_http_def http_msg_def proves_def)

lemma auth_check_http_pre_sound:
  assumes "run_state (auth_check_http_pre E m p len (Some h)) s = (True, t)" and "hmac_law E hm"
  shows "g_claimed s \<and> proves hm (g_psk s) h (pre_msg m p (http_nonce s) len)"
  using check_mac_sound [where hdr = "Some h" and s = s and E = E and t = t] assms
  by (fastforce simp: auth_check_http_pre_def pre_msg_def proves_def)

lemma auth_check_http_complete:
  assumes "md_ok E" and "hmac_law E hm" and "g_claimed s"
    and "proves hm (g_psk s) h (http_msg m p (http_nonce s) sha)"
  shows "fst (run_state (auth_check_http E m p sha (Some h)) s)"
  using check_mac_complete [OF assms(1-3), of h "[m, [32], p, [10], http_nonce s, sha]"] assms(4)
  by (simp add: auth_check_http_def http_msg_def proves_def)

lemma auth_check_http_pre_complete:
  assumes "md_ok E" and "hmac_law E hm" and "g_claimed s"
    and "proves hm (g_psk s) h (pre_msg m p (http_nonce s) len)"
  shows "fst (run_state (auth_check_http_pre E m p len (Some h)) s)"
  using check_mac_complete [OF assms(1-3), of h
      "[str ''PRE '', m, [32], p, [10], http_nonce s, be32 len]"] assms(4)
  by (simp add: auth_check_http_pre_def pre_msg_def proves_def)

lemma emits_auth_check_http [frame_intros]: "emits md_events (auth_check_http E m p sha hdr)"
  unfolding auth_check_http_def by (intro frame_intros emits_check_mac)

lemma emits_auth_check_http_pre [frame_intros]:
  "emits md_events (auth_check_http_pre E m p len hdr)"
  unfolding auth_check_http_pre_def by (intro frame_intros emits_check_mac)

section \<open>Nonces\<close>

definition be32_dec :: "bytes \<Rightarrow> u32 option" where
  "be32_dec bs =
     (case bs of
        [a, b, c, d] \<Rightarrow>
          Some (push_bit 24 (ucast a) OR push_bit 16 (ucast b) OR push_bit 8 (ucast c) OR ucast d)
      | _ \<Rightarrow> None)"

lemma length_be32 [simp]: "length (be32 c) = 4"
  by (simp add: be32_def)

lemma be32_dec_be32: "be32_dec (be32 c) = Some c"
proof -
  have "bit (push_bit 24 (ucast (ucast (drop_bit 24 c) :: byte)) OR
      push_bit 16 (ucast (ucast (drop_bit 16 c) :: byte)) OR
      push_bit 8 (ucast (ucast (drop_bit 8 c) :: byte)) OR
      (ucast (ucast c :: byte) :: u32)) n = bit c n" if "n < 32" for n
  proof -
    consider "n < 8" | "8 \<le> n" "n < 16" | "16 \<le> n" "n < 24" | "24 \<le> n" by linarith
    then show ?thesis using that by cases (auto simp: bit_simps)
  qed
  then show ?thesis
    unfolding be32_dec_def be32_def by (auto intro!: bit_word_eqI)
qed

interpretation be32_codec: codec be32 be32_dec "\<lambda>_. True"
  by unfold_locales (rule be32_dec_be32)

interpretation hex_codec: codec
  "\<lambda>bs. hexlify bs (length bs)" "\<lambda>h. unhex h (length h div 2)" "\<lambda>_. True"
  by unfold_locales (simp add: unhex_hexlify)

lemma length_http_nonce: "length (g_http_rand s) = 16 \<Longrightarrow> length (http_nonce s) = 20"
  by (simp add: http_nonce_def)

lemma http_nonce_inject:
  assumes "length (g_http_rand s) = 16" and "length (g_http_rand t) = 16"
  shows "http_nonce s = http_nonce t \<longleftrightarrow>
    g_http_rand s = g_http_rand t \<and> g_http_counter s = g_http_counter t"
  using assms be32_codec.enc_inject by (auto simp: http_nonce_def)

text \<open>\<open>k\<close> accepted requests later the counter is \<open>k\<close> further, modulo its 32 bits.\<close>

fun bumps :: "nat \<Rightarrow> fw \<Rightarrow> fw" where
  "bumps 0 s = s"
| "bumps (Suc k) s = bumps k (snd (run_state auth_nonce_bump s))"

lemma bumps_eq: "bumps k s = s\<lparr>g_http_counter := g_http_counter s + word_of_nat k\<rparr>"
  by (induction k arbitrary: s) (simp_all add: auth_nonce_bump_def add.assoc)

lemma bumps_counter_ne:
  assumes "0 < k" and "k < 2 ^ 32"
  shows "g_http_counter (bumps k s) \<noteq> g_http_counter s"
proof
  assume "g_http_counter (bumps k s) = g_http_counter s"
  then have "(word_of_nat k :: u32) = 0" by (simp add: bumps_eq)
  then have "unat (word_of_nat k :: u32) = 0" by simp
  with assms show False by (simp add: unat_of_nat)
qed

section \<open>What a proof binds\<close>

text \<open>
  The contract of a message format: the fields can be read off the bytes. A MAC that does not
  collide on the two messages in question then binds every field.
\<close>

definition no_collision :: "(bytes \<Rightarrow> bytes \<Rightarrow> bytes) \<Rightarrow> bytes \<Rightarrow> bytes \<Rightarrow> bytes \<Rightarrow> bool" where
  "no_collision hm k a b \<longleftrightarrow> hm k a = hm k b \<longrightarrow> a = b"

locale mac_role =
  fixes msg :: "'f \<Rightarrow> bytes" and wf :: "'f \<Rightarrow> bool"
  assumes msg_inject: "wf x \<Longrightarrow> wf y \<Longrightarrow> msg x = msg y \<Longrightarrow> x = y"
begin

lemma mac_binds:
  assumes "no_collision hm k (msg x) (msg y)" and "wf x" and "wf y" and "hm k (msg x) = hm k (msg y)"
  shows "x = y"
  using assms by (auto simp: no_collision_def intro: msg_inject)

lemma proof_binds:
  assumes "no_collision hm k (msg x) (msg y)" and "wf x" and "wf y"
    and "proves hm k h (msg x)" and "proves hm k h (msg y)"
  shows "x = y"
  using assms by (auto simp: proves_def intro: mac_binds)

end

definition http_wf :: "bytes \<times> bytes \<times> bytes \<times> bytes \<Rightarrow> bool" where
  "http_wf f = (case f of (m, p, n, sha) \<Rightarrow>
     32 \<notin> set m \<and> 10 \<notin> set p \<and> length n = 20 \<and> length sha = 32)"

interpretation http_role: mac_role "\<lambda>(m, p, n, sha). http_msg m p n sha" http_wf
proof unfold_locales
  fix x y :: "bytes \<times> bytes \<times> bytes \<times> bytes"
  assume "http_wf x" and "http_wf y"
    and "(case x of (m, p, n, sha) \<Rightarrow> http_msg m p n sha) =
         (case y of (m, p, n, sha) \<Rightarrow> http_msg m p n sha)"
  then show "x = y"
    by (cases x; cases y) (auto simp: http_wf_def http_msg_def append_sep_inject)
qed

definition pre_wf :: "bytes \<times> bytes \<times> bytes \<times> u32 \<Rightarrow> bool" where
  "pre_wf f = (case f of (m, p, n, len) \<Rightarrow> 32 \<notin> set m \<and> 10 \<notin> set p \<and> length n = 20)"

interpretation pre_role: mac_role "\<lambda>(m, p, n, len). pre_msg m p n len" pre_wf
proof unfold_locales
  fix x y :: "bytes \<times> bytes \<times> bytes \<times> u32"
  assume "pre_wf x" and "pre_wf y"
    and "(case x of (m, p, n, len) \<Rightarrow> pre_msg m p n len) =
         (case y of (m, p, n, len) \<Rightarrow> pre_msg m p n len)"
  then show "x = y"
    by (cases x; cases y)
      (auto simp: pre_wf_def pre_msg_def append_sep_inject be32_codec.enc_inject)
qed

section \<open>Properties\<close>

text \<open>
  C9. A request proof is accepted only by a claimed board and only if the header is the hexadecimal
  HMAC, under the board's key, of method, path, the current nonce and the digest of the body (for
  the pre-upload proof: the content length). It fails closed: when a request is accepted, every call
  of the HMAC interface has succeeded, the finish that returned the digest among them, so an error of
  any of them refuses the request.
\<close>

theorem http_proofs_fail_closed:
  assumes "hmac_law E hm"
  shows "(run_state (auth_check_http E m p sha (Some h)) s = (True, t) \<longrightarrow>
      g_claimed s \<and> proves hm (g_psk s) h (http_msg m p (http_nonce s) sha) \<and>
      (\<exists>new. t = s\<lparr>hist := hist s @ new\<rparr> \<and> (\<forall>e \<in> set new. \<not> md_failed e) \<and>
        (\<exists>mac. Crypto (Hmac_finish 0 mac) \<in> set new))) \<and>
    (run_state (auth_check_http_pre E m p len (Some h)) s = (True, t) \<longrightarrow>
      g_claimed s \<and> proves hm (g_psk s) h (pre_msg m p (http_nonce s) len) \<and>
      (\<exists>new. t = s\<lparr>hist := hist s @ new\<rparr> \<and> (\<forall>e \<in> set new. \<not> md_failed e) \<and>
        (\<exists>mac. Crypto (Hmac_finish 0 mac) \<in> set new)))"
proof (intro conjI impI)
  assume acc: "run_state (auth_check_http E m p sha (Some h)) s = (True, t)"
  from auth_check_http_sound [OF acc assms] show "g_claimed s"
    and "proves hm (g_psk s) h (http_msg m p (http_nonce s) sha)" by blast+
  from acc show "\<exists>new. t = s\<lparr>hist := hist s @ new\<rparr> \<and> (\<forall>e \<in> set new. \<not> md_failed e) \<and>
      (\<exists>mac. Crypto (Hmac_finish 0 mac) \<in> set new)"
    by (simp add: auth_check_http_def check_mac_no_failure)
next
  assume acc: "run_state (auth_check_http_pre E m p len (Some h)) s = (True, t)"
  from auth_check_http_pre_sound [OF acc assms] show "g_claimed s"
    and "proves hm (g_psk s) h (pre_msg m p (http_nonce s) len)" by blast+
  from acc show "\<exists>new. t = s\<lparr>hist := hist s @ new\<rparr> \<and> (\<forall>e \<in> set new. \<not> md_failed e) \<and>
      (\<exists>mac. Crypto (Hmac_finish 0 mac) \<in> set new)"
    by (simp add: auth_check_http_pre_def check_mac_no_failure)
qed

definition demo_headers :: "string \<Rightarrow> bytes" where
  "demo_headers k =
     hexlify (toy_mac (g_psk toy_fw)
       (if k = ''X-Bridge-Auth'' then http_msg (str ''POST'') (str ''/ota'') (http_nonce toy_fw) (toy_sha [1, 2, 3])
        else pre_msg (str ''POST'') (str ''/ota'') (http_nonce toy_fw) 3)) 32"

definition demo_sdk :: sdk where
  "demo_sdk = toy_sdk demo_headers [1, 2, 3] []"

lemma demo_laws:
  "hmac_law demo_sdk toy_mac" "md_ok demo_sdk" "sha_law demo_sdk toy_sha" "nvs_law demo_sdk"
  "recv_law demo_sdk"
  by (simp_all add: demo_sdk_def toy_laws)

lemma demo_auth_accepted:
  "fst (run_state (auth_check_http demo_sdk (str ''POST'') (str ''/ota'') (toy_sha [1, 2, 3])
     (Some (demo_headers ''X-Bridge-Auth''))) toy_fw)"
  by (rule auth_check_http_complete [OF demo_laws(2,1)])
    (simp_all add: toy_fw_def demo_headers_def proves_hexlify)

lemma demo_pre_accepted:
  "fst (run_state (auth_check_http_pre demo_sdk (str ''POST'') (str ''/ota'') 3
     (Some (demo_headers ''X-Bridge-Pre''))) toy_fw)"
  by (rule auth_check_http_pre_complete [OF demo_laws(2,1)])
    (simp_all add: toy_fw_def demo_headers_def proves_hexlify)

text \<open>The same platform with a crypto library that cannot start the HMAC, as when memory runs out.\<close>

definition faulty_sdk :: sdk where
  "faulty_sdk = demo_sdk\<lparr>crypto := (crypto demo_sdk)\<lparr>hmac_starts_r := (\<lambda>_ _. - 0x5180)\<rparr>\<rparr>"

lemma faulty_hmac_law: "hmac_law faulty_sdk toy_mac"
  using demo_laws(1) by (simp add: hmac_law_def faulty_sdk_def)

lemma faulty_starts:
  "\<exists>new e. snd (run_state (auth_check_http faulty_sdk (str ''POST'') (str ''/ota'') (toy_sha [1, 2, 3])
     (Some (demo_headers ''X-Bridge-Auth''))) toy_fw) = toy_fw\<lparr>hist := hist toy_fw @ new\<rparr> \<and>
     e \<in> set new \<and> md_failed e"
  by (simp add: auth_check_http_def check_mac_def hmac_parts_def platform_calls faulty_sdk_def demo_sdk_def
      toy_sdk_def toy_crypto_def toy_fw_def demo_headers_def unhex_hexlify)
    (rule exI [of _ "Crypto (Hmac_starts (replicate 32 7) (- 0x5180))"], simp)

theorem http_proofs_fail_closed_witness:
  "fst (run_state (auth_check_http demo_sdk (str ''POST'') (str ''/ota'') (toy_sha [1, 2, 3])
      (Some (demo_headers ''X-Bridge-Auth''))) toy_fw) \<and>
   proves toy_mac (g_psk toy_fw) (demo_headers ''X-Bridge-Auth'')
     (http_msg (str ''POST'') (str ''/ota'') (http_nonce toy_fw) (toy_sha [1, 2, 3])) \<and>
   proves toy_mac (g_psk toy_fw) (demo_headers ''X-Bridge-Pre'')
     (pre_msg (str ''POST'') (str ''/ota'') (http_nonce toy_fw) 3) \<and>
   \<not> fst (run_state (auth_check_http faulty_sdk (str ''POST'') (str ''/ota'') (toy_sha [1, 2, 3])
      (Some (demo_headers ''X-Bridge-Auth''))) toy_fw)"
proof (intro conjI notI)
  show acc: "fst (run_state (auth_check_http demo_sdk (str ''POST'') (str ''/ota'') (toy_sha [1, 2, 3])
      (Some (demo_headers ''X-Bridge-Auth''))) toy_fw)" by (rule demo_auth_accepted)
  note ok = http_proofs_fail_closed [OF demo_laws(1)]
  show "proves toy_mac (g_psk toy_fw) (demo_headers ''X-Bridge-Auth'')
      (http_msg (str ''POST'') (str ''/ota'') (http_nonce toy_fw) (toy_sha [1, 2, 3]))"
    using ok [THEN conjunct1, THEN mp, OF prod_eqI] acc by simp
  show "proves toy_mac (g_psk toy_fw) (demo_headers ''X-Bridge-Pre'')
      (pre_msg (str ''POST'') (str ''/ota'') (http_nonce toy_fw) 3)"
    using ok [THEN conjunct2, THEN mp, OF prod_eqI] demo_pre_accepted by simp
next
  let ?run = "run_state (auth_check_http faulty_sdk (str ''POST'') (str ''/ota'') (toy_sha [1, 2, 3])
      (Some (demo_headers ''X-Bridge-Auth''))) toy_fw"
  assume "fst ?run"
  then have run: "?run = (True, snd ?run)" by (simp add: prod_eq_iff)
  from http_proofs_fail_closed [OF faulty_hmac_law, THEN conjunct1, THEN mp, OF run] obtain new where
    "snd ?run = toy_fw\<lparr>hist := hist toy_fw @ new\<rparr>" "\<forall>e \<in> set new. \<not> md_failed e" by blast
  with faulty_starts show False by auto
qed

text \<open>
  C39. While the crypto library works, the two checks decide exactly that: every claimed board
  accepts the proof made with its key, nonce and request, and nothing else, and the check changes
  no variable of the firmware.
\<close>

theorem http_proofs_decide:
  assumes "hmac_law E hm" and "md_ok E"
  shows "fst (run_state (auth_check_http E m p sha (Some h)) s) =
      (g_claimed s \<and> proves hm (g_psk s) h (http_msg m p (http_nonce s) sha)) \<and>
    fst (run_state (auth_check_http_pre E m p len (Some h)) s) =
      (g_claimed s \<and> proves hm (g_psk s) h (pre_msg m p (http_nonce s) len)) \<and>
    (\<exists>new. snd (run_state (auth_check_http E m p sha (Some h)) s) = s\<lparr>hist := hist s @ new\<rparr>) \<and>
    (\<exists>new. snd (run_state (auth_check_http_pre E m p len (Some h)) s) = s\<lparr>hist := hist s @ new\<rparr>)"
proof (intro conjI)
  show "fst (run_state (auth_check_http E m p sha (Some h)) s) =
      (g_claimed s \<and> proves hm (g_psk s) h (http_msg m p (http_nonce s) sha))"
    using auth_check_http_sound [where hm = hm] auth_check_http_complete [where hm = hm] assms
    by (metis prod.collapse)
  show "fst (run_state (auth_check_http_pre E m p len (Some h)) s) =
      (g_claimed s \<and> proves hm (g_psk s) h (pre_msg m p (http_nonce s) len))"
    using auth_check_http_pre_sound [where hm = hm] auth_check_http_pre_complete [where hm = hm]
      assms by (metis prod.collapse)
qed (rule emits_hist, rule frame_intros)+

theorem http_proofs_decide_witness:
  "fst (run_state (auth_check_http demo_sdk (str ''POST'') (str ''/ota'') (toy_sha [1, 2, 3])
     (Some (demo_headers ''X-Bridge-Auth''))) toy_fw)"
  using http_proofs_decide [OF demo_laws(1,2), THEN conjunct1]
  by (simp add: toy_fw_def demo_headers_def proves_hexlify)

text \<open>
  C10. No replay: a proof the board accepted is refused after each of the next \<open>2 ^ 32 - 1\<close> accepted
  requests, also when it is presented for another request, unless the HMAC collides on the two
  messages.
\<close>

theorem replayed_proof_refused:
  assumes law: "hmac_law E hm"
    and accepted: "run_state (auth_check_http E m p sha (Some h)) s = (True, t)"
    and k: "0 < k" "k < 2 ^ 32"
    and rand: "length (g_http_rand s) = 16"
    and wf: "http_wf (m, p, http_nonce s, sha)" "http_wf (m', p', http_nonce (bumps k t), sha')"
    and coll: "no_collision hm (g_psk s) (http_msg m p (http_nonce s) sha)
      (http_msg m' p' (http_nonce (bumps k t)) sha')"
  shows "\<not> fst (run_state (auth_check_http E m' p' sha' (Some h)) (bumps k t))"
proof
  assume "fst (run_state (auth_check_http E m' p' sha' (Some h)) (bumps k t))"
  then obtain u where again: "run_state (auth_check_http E m' p' sha' (Some h)) (bumps k t) = (True, u)"
    by (metis prod.collapse)
  have t: "g_psk t = g_psk s" "g_http_rand t = g_http_rand s" "g_http_counter t = g_http_counter s"
    using emits_fields [OF emits_auth_check_http accepted] by auto
  have first: "proves hm (g_psk s) h (http_msg m p (http_nonce s) sha)"
    using auth_check_http_sound [OF accepted law] by blast
  have second: "proves hm (g_psk s) h (http_msg m' p' (http_nonce (bumps k t)) sha')"
    using auth_check_http_sound [OF again law] t by (simp add: bumps_eq)
  have "(m, p, http_nonce s, sha) = (m', p', http_nonce (bumps k t), sha')"
    by (rule http_role.proof_binds [where hm = hm and k = "g_psk s" and h = h])
      (simp_all only: prod.case coll wf first second)
  then have "http_nonce s = http_nonce (bumps k t)" by simp
  moreover have "length (g_http_rand (bumps k t)) = 16" using rand t by (simp add: bumps_eq)
  ultimately have "g_http_counter (bumps k t) = g_http_counter t"
    using rand t(3) by (simp only: http_nonce_inject)
  with bumps_counter_ne [OF k, of t] show False by simp
qed

theorem replayed_proof_refused_witness:
  "\<exists>t. run_state (auth_check_http demo_sdk (str ''POST'') (str ''/ota'') (toy_sha [1, 2, 3])
        (Some (demo_headers ''X-Bridge-Auth''))) toy_fw = (True, t) \<and>
     \<not> fst (run_state (auth_check_http demo_sdk (str ''POST'') (str ''/ota'') (toy_sha [1, 2, 3])
        (Some (demo_headers ''X-Bridge-Auth''))) (bumps 1 t))"
proof -
  let ?check = "auth_check_http demo_sdk (str ''POST'') (str ''/ota'') (toy_sha [1, 2, 3])
    (Some (demo_headers ''X-Bridge-Auth''))"
  obtain b t where bt: "run_state ?check toy_fw = (b, t)" by fastforce
  with demo_auth_accepted have t: "run_state ?check toy_fw = (True, t)" by simp
  have nonces: "http_nonce toy_fw = replicate 16 1 @ [0, 0, 0, 0]"
    "http_nonce (bumps 1 t) = replicate 16 1 @ [0, 0, 0, 1]"
    using emits_fields [OF emits_auth_check_http t]
    by (simp_all add: http_nonce_def bumps_eq toy_fw_def boot_fw_def be32_def)
  have wf: "http_wf (str ''POST'', str ''/ota'', n, toy_sha [1, 2, 3])" if "length n = 20" for n
    using that by (simp add: http_wf_def str_def)
  have "\<not> fst (run_state ?check (bumps 1 t))"
  proof (rule replayed_proof_refused [OF demo_laws(1) t])
    show "no_collision toy_mac (g_psk toy_fw)
      (http_msg (str ''POST'') (str ''/ota'') (http_nonce toy_fw) (toy_sha [1, 2, 3]))
      (http_msg (str ''POST'') (str ''/ota'') (http_nonce (bumps 1 t)) (toy_sha [1, 2, 3]))"
      unfolding nonces by code_simp
    show "http_wf (str ''POST'', str ''/ota'', http_nonce (bumps 1 t), toy_sha [1, 2, 3])"
      unfolding nonces by (rule wf) simp
  qed (simp_all add: wf nonces, simp add: toy_fw_def)
  with t show ?thesis by blast
qed

text \<open>
  \<open>unhex\<close> accepts a text exactly when its first \<open>2 * n\<close> characters are decimal digits or letters
  a to f in either case; anything else in a proof header is refused, not read as some byte.
\<close>

lemma unhex_accepts:
  "unhex s n \<noteq> None \<longleftrightarrow> (\<forall>j < 2 * n. uint (s ! j) \<in> {48..57} \<union> {65..70} \<union> {97..102})"
  by (simp add: unhex_eq hex_digit_iff)

lemma unhex_accepts_example:
  "unhex (str ''0aF9'') 2 \<noteq> None \<and> \<not> unhex (str ''0aG9'') 2 \<noteq> None"
proof -
  have "\<forall>j < 2 * 2. uint (str ''0aF9'' ! j) \<in> {48..57} \<union> {65..70} \<union> {97..102}"
    by code_simp
  moreover have "\<not> (\<forall>j < 2 * 2. uint (str ''0aG9'' ! j) \<in> {48..57} \<union> {65..70} \<union> {97..102})"
    by code_simp
  ultimately show ?thesis
    using unhex_accepts [of "str ''0aF9''" 2] unhex_accepts [of "str ''0aG9''" 2] by blast
qed

end
