(* ===== verification/Handshake.thy ===== *)
theory Handshake
  imports Auth
begin

text \<open>
  \<open>firmware/main/auth.c\<close>, the mutual challenge and response on the HCI socket, together with the
  client's half of it in \<open>host/handshake.zig\<close> and \<open>common/auth.zig\<close>.
\<close>

section \<open>Definitions\<close>

definition HANDSHAKE_DEADLINE_US :: int where
  "HANDSHAKE_DEADLINE_US = 5 * 1000000"

definition DOM_CLIENT :: bytes where
  "DOM_CLIENT = str ''esp-hci-client''"

definition DOM_BOARD :: bytes where
  "DOM_BOARD = str ''esp-hci-board''"

text \<open>The loop of \<open>recv_exact\<close>; \<open>buf\<close> holds the \<open>got\<close> bytes read so far.\<close>

function recv_loop :: "sdk \<Rightarrow> int \<Rightarrow> nat \<Rightarrow> int \<Rightarrow> bytes \<Rightarrow> bytes option fwm" where
  "recv_loop E fd n deadline_us buf =
     (if length buf < n then do {
        now \<leftarrow> esp_timer_get_time E;
        let left = deadline_us - now;
        if left \<le> 0 then ret None
        else do {
          set_rcvtimeo fd (left div 1000000) (left mod 1000000);
          r \<leftarrow> sock_recv E fd (n - length buf);
          if rx_n r \<le> 0 then ret None
          else recv_loop E fd n deadline_us (buf @ rx_data r)
        }
      } else ret (Some buf))"
  by pat_completeness auto
termination
proof (relation "measure (\<lambda>(E, fd, n, dl, buf). n - length buf)")
  fix E :: sdk and fd :: int and n :: nat and dl :: int and buf :: bytes and r :: rx
  assume *: "length buf < n" "\<not> rx_n r \<le> 0"
  then have "0 < length (rx_data r)" by (cases r) auto
  with * show "((E, fd, n, dl, buf @ rx_data r), E, fd, n, dl, buf)
      \<in> measure (\<lambda>(E, fd, n, dl, buf). n - length buf)"
    by (simp, linarith)
qed simp

declare recv_loop.simps [simp del]

definition recv_exact :: "sdk \<Rightarrow> int \<Rightarrow> nat \<Rightarrow> int \<Rightarrow> bytes option fwm" where
  "recv_exact E fd n deadline_us = recv_loop E fd n deadline_us []"

text \<open>
  \<open>handshake_inner\<close> in two halves, since the task sleeps inside \<open>recv\<close> and other tasks run then:
  the challenge up to the client's message, and the checks from there on.
\<close>

definition handshake_challenge :: "sdk \<Rightarrow> int \<Rightarrow> int \<Rightarrow> (bytes \<times> bytes) option fwm" where
  "handshake_challenge E fd deadline_us = do {
     sn \<leftarrow> esp_fill_random E NONCE_LEN;
     r \<leftarrow> sock_send E fd sn;
     if r \<noteq> int (length sn) then ret None
     else do {
       m \<leftarrow> recv_exact E fd (NONCE_LEN + MAC_LEN) deadline_us;
       (case m of None \<Rightarrow> ret None | Some msg \<Rightarrow> ret (Some (sn, msg)))
     }
   }"

definition handshake_verify :: "sdk \<Rightarrow> int \<Rightarrow> bytes \<Rightarrow> bytes \<Rightarrow> bool fwm" where
  "handshake_verify E fd sn msg = do {
     let cn = take NONCE_LEN msg;
     let cmac = drop NONCE_LEN msg;
     psk \<leftarrow> gets g_psk;
     expect \<leftarrow> hmac_parts E psk [sn, cn, DOM_CLIENT];
     (case expect of
        None \<Rightarrow> ret False
      | Some expect \<Rightarrow>
          if \<not> auth_ct_equal cmac expect MAC_LEN then ret False
          else do {
            psk \<leftarrow> gets g_psk;
            bmac \<leftarrow> hmac_parts E psk [cn, sn, DOM_BOARD];
            (case bmac of
               None \<Rightarrow> ret False
             | Some bmac \<Rightarrow> do {
                 r \<leftarrow> sock_send E fd bmac;
                 ret (r = int (length bmac))
               })
          })
   }"

definition handshake_inner :: "sdk \<Rightarrow> int \<Rightarrow> int \<Rightarrow> bool fwm" where
  "handshake_inner E fd deadline_us = do {
     c \<leftarrow> handshake_challenge E fd deadline_us;
     (case c of None \<Rightarrow> ret False | Some (sn, msg) \<Rightarrow> handshake_verify E fd sn msg)
   }"

definition auth_handshake :: "sdk \<Rightarrow> int \<Rightarrow> bool fwm" where
  "auth_handshake E fd = do {
     claimed \<leftarrow> gets g_claimed;
     if \<not> claimed then ret False
     else do {
       now \<leftarrow> esp_timer_get_time E;
       ok \<leftarrow> handshake_inner E fd (now + HANDSHAKE_DEADLINE_US);
       set_rcvtimeo fd 0 0;
       ret ok
     }
   }"

text \<open>The client: its answer to the board's nonce, and its check of the board's proof.\<close>

definition clientMac :: "(bytes \<Rightarrow> bytes \<Rightarrow> bytes) \<Rightarrow> bytes \<Rightarrow> bytes \<Rightarrow> bytes \<Rightarrow> bytes" where
  "clientMac hm psk server_nonce client_nonce = hm psk (server_nonce @ client_nonce @ DOM_CLIENT)"

definition boardMac :: "(bytes \<Rightarrow> bytes \<Rightarrow> bytes) \<Rightarrow> bytes \<Rightarrow> bytes \<Rightarrow> bytes \<Rightarrow> bytes" where
  "boardMac hm psk client_nonce server_nonce = hm psk (client_nonce @ server_nonce @ DOM_BOARD)"

definition client_message :: "(bytes \<Rightarrow> bytes \<Rightarrow> bytes) \<Rightarrow> bytes \<Rightarrow> bytes \<Rightarrow> bytes \<Rightarrow> bytes" where
  "client_message hm psk server_nonce client_nonce =
     client_nonce @ clientMac hm psk server_nonce client_nonce"

definition client_accepts ::
  "(bytes \<Rightarrow> bytes \<Rightarrow> bytes) \<Rightarrow> bytes \<Rightarrow> bytes \<Rightarrow> bytes \<Rightarrow> bytes \<Rightarrow> bool" where
  "client_accepts hm psk server_nonce client_nonce bmac \<longleftrightarrow>
     bmac = boardMac hm psk client_nonce server_nonce"

section \<open>Reading with a deadline\<close>

text \<open>
  The trace of \<open>recv_exact\<close>: each read comes right after a reading of the clock before the deadline
  and after the receive timeout was set to exactly the time left; the loop ends at the first clock
  reading at or past the deadline.
\<close>

inductive recv_trace :: "int \<Rightarrow> int \<Rightarrow> history \<Rightarrow> bool" for fd dl where
  rt_done: "recv_trace fd dl []"
| rt_expired: "dl \<le> t \<Longrightarrow> recv_trace fd dl [Sys (Get_time t)]"
| rt_read: "t < dl \<Longrightarrow> 1000000 * sec + usec = dl - t \<Longrightarrow> 0 \<le> sec \<Longrightarrow> 0 \<le> usec \<Longrightarrow> usec < 1000000 \<Longrightarrow>
     recv_trace fd dl rest \<Longrightarrow>
     recv_trace fd dl
       (Sys (Get_time t) # Sock (Set_rcvtimeo fd sec usec) # Sock (Sock_recv fd n r) # rest)"

lemma received_md: "set h \<subseteq> md_events \<Longrightarrow> received fd h = []"
  by (induction h) (auto simp: md_events_def)

text \<open>
  The whole behaviour of the loop in one statement: which trace it leaves, that a result is what
  was received, and how often it can read.
\<close>

lemma recv_loop_spec:
  assumes "run_state (recv_loop E fd n dl buf) s = (m, t)"
  shows "\<exists>new. t = s\<lparr>hist := hist s @ new\<rparr> \<and> recv_trace fd dl new \<and>
    (\<forall>out. m = Some out \<longrightarrow> out = buf @ received fd new \<and> n \<le> length out) \<and>
    length new \<le> 3 * (n - length buf) \<and>
    (recv_law E \<longrightarrow> length buf \<le> n \<longrightarrow> (\<forall>out. m = Some out \<longrightarrow> length out = n))"
  using assms
proof (induction E fd n dl buf arbitrary: s rule: recv_loop.induct)
  case (1 E fd n dl buf)
  let ?now = "get_time_r (sys E) (hist s)"
  let ?left = "dl - ?now"
  show ?case
  proof (cases "length buf < n")
    case False
    with "1.prems" have "m = Some buf" "t = s"
      by (auto simp: recv_loop.simps [of E fd n dl buf])
    with False show ?thesis by (intro exI [of _ "[]"]) (auto intro: rt_done)
  next
    case more: True
    show ?thesis
    proof (cases "?left \<le> 0")
      case True
      with more "1.prems" have "m = None" "t = s\<lparr>hist := hist s @ [Sys (Get_time ?now)]\<rparr>"
        by (auto simp: recv_loop.simps [of E fd n dl buf] platform_calls)
      with True more show ?thesis
        by (intro exI [of _ "[Sys (Get_time ?now)]"]) (auto intro: rt_expired)
    next
      case left: False
      define h2 where "h2 = hist s @ [Sys (Get_time ?now), Sock (Set_rcvtimeo fd (?left div 1000000) (?left mod 1000000))]"
      define r where "r = sock_recv_r (sock E) fd (n - length buf) h2"
      define u where "u = s\<lparr>hist := h2 @ [Sock (Sock_recv fd (n - length buf) r)]\<rparr>"
      have step: "run_state (recv_loop E fd n dl buf) s =
          run_state (if rx_n r \<le> 0 then ret None else recv_loop E fd n dl (buf @ rx_data r)) u"
        using more left
        by (simp add: recv_loop.simps [of E fd n dl buf] platform_calls h2_def r_def u_def Let_def)
      have read: "recv_trace fd dl rest \<Longrightarrow> recv_trace fd dl
          (Sys (Get_time ?now) # Sock (Set_rcvtimeo fd (?left div 1000000) (?left mod 1000000)) #
           Sock (Sock_recv fd (n - length buf) r) # rest)" for rest
        using left by (intro rt_read) (auto simp: pos_imp_zdiv_nonneg_iff)
      show ?thesis
      proof (cases "rx_n r \<le> 0")
        case True
        with step "1.prems" have "m = None" "t = u" by auto
        then show ?thesis
          using read [OF rt_done] more by (auto simp: u_def h2_def)
      next
        case False
        with step "1.prems" have "run_state (recv_loop E fd n dl (buf @ rx_data r)) u = (m, t)"
          by simp
        from "1.IH" [OF more _ left False this] obtain new where
          new: "t = u\<lparr>hist := hist u @ new\<rparr>" "recv_trace fd dl new"
            "\<forall>out. m = Some out \<longrightarrow> out = (buf @ rx_data r) @ received fd new \<and> n \<le> length out"
            "length new \<le> 3 * (n - length (buf @ rx_data r))"
            "recv_law E \<longrightarrow> length (buf @ rx_data r) \<le> n \<longrightarrow> (\<forall>out. m = Some out \<longrightarrow> length out = n)"
          by auto
        from False have "0 < length (rx_data r)" by (cases r) auto
        with new(4) more have bound: "3 + length new \<le> 3 * (n - length buf)"
          by (simp only: length_append)
        have fits: "recv_law E \<Longrightarrow> length (buf @ rx_data r) \<le> n"
          using more by (simp add: recv_law_def r_def) (metis le_diff_conv2 less_imp_le add.commute)
        let ?new = "Sys (Get_time ?now) #
          Sock (Set_rcvtimeo fd (?left div 1000000) (?left mod 1000000)) #
          Sock (Sock_recv fd (n - length buf) r) # new"
        have "t = s\<lparr>hist := hist s @ ?new\<rparr>" using new(1) by (simp add: u_def h2_def)
        moreover have "recv_trace fd dl ?new" by (rule read [OF new(2)])
        moreover have "\<forall>out. m = Some out \<longrightarrow> out = buf @ received fd ?new \<and> n \<le> length out"
          using new(3) by simp
        moreover have "length ?new \<le> 3 * (n - length buf)" using bound by simp
        moreover have "recv_law E \<longrightarrow> length buf \<le> n \<longrightarrow> (\<forall>out. m = Some out \<longrightarrow> length out = n)"
          using new(5) fits by blast
        ultimately show ?thesis by blast
      qed
    qed
  qed
qed

lemma recv_exact_spec:
  assumes "run_state (recv_exact E fd n dl) s = (m, t)"
  obtains new where "t = s\<lparr>hist := hist s @ new\<rparr>" and "recv_trace fd dl new"
    and "\<And>out. m = Some out \<Longrightarrow> out = received fd new \<and> n \<le> length out"
    and "\<And>out. recv_law E \<Longrightarrow> m = Some out \<Longrightarrow> length out = n"
    and "length new \<le> 3 * n"
  using recv_loop_spec [of E fd n dl "[]" s m t] assms that
  unfolding recv_exact_def by auto

section \<open>The two halves of the exchange\<close>

lemma handshake_challenge_spec:
  assumes "run_state (handshake_challenge E fd dl) s = (Some (sn, msg), t)"
  obtains new where
    "t = s\<lparr>hist := hist s @ Crypto (Fill_random sn) # Sock (Sock_send fd sn 32) # new\<rparr>"
    and "length sn = 32" and "recv_trace fd dl new" and "msg = received fd new"
    and "recv_law E \<Longrightarrow> length msg = 64"
proof -
  let ?sn = "arr 32 (fill_random_r (crypto E) (hist s))"
  let ?u = "s\<lparr>hist := hist s @ [Crypto (Fill_random ?sn), Sock (Sock_send fd ?sn 32)]\<rparr>"
  from assms have sn: "sn = ?sn"
    and rcv: "run_state (recv_exact E fd 64 dl) ?u = (Some msg, t)"
    by (auto simp: handshake_challenge_def platform_calls split: if_splits option.splits prod.splits)
  from rcv obtain new where new: "t = ?u\<lparr>hist := hist ?u @ new\<rparr>" "recv_trace fd dl new"
      "msg = received fd new" "recv_law E \<Longrightarrow> length msg = 64"
    by (rule recv_exact_spec) auto
  show thesis by (rule that [of new]) (use new sn in simp_all)
qed

lemma handshake_verify_sound:
  assumes run: "run_state (handshake_verify E fd sn msg) s = (True, t)" and law: "hmac_law E hm"
    and len: "length msg = 64"
  obtains new where
    "t = s\<lparr>hist := hist s @ new @ [Sock (Sock_send fd (boardMac hm (g_psk s) (take 32 msg) sn) 32)]\<rparr>"
    and "set new \<subseteq> md_events"
    and "msg = client_message hm (g_psk s) sn (take 32 msg)"
proof -
  let ?cn = "take 32 msg"
  from run obtain e b u v where
    m1: "run_state (hmac_parts E (g_psk s) [sn, ?cn, DOM_CLIENT]) s = (Some e, u)"
    and eq: "auth_ct_equal (drop 32 msg) e 32"
    and m2: "run_state (hmac_parts E (g_psk u) [?cn, sn, DOM_BOARD]) u = (Some b, v)"
    and snd: "sock_send_r (sock E) fd b (hist v) = int (length b)"
    and t: "t = v\<lparr>hist := hist v @ [Sock (Sock_send fd b (int (length b)))]\<rparr>"
    by (auto simp: handshake_verify_def sock_send_def Let_def
        split: prod.splits option.splits if_splits)
  obtain n1 where u: "u = s\<lparr>hist := hist s @ n1\<rparr>" and n1: "set n1 \<subseteq> md_events"
    using emits_hmac_parts m1 by (rule emitsE)
  obtain n2 where v: "v = u\<lparr>hist := hist u @ n2\<rparr>" and n2: "set n2 \<subseteq> md_events"
    using emits_hmac_parts m2 by (rule emitsE)
  have e: "e = clientMac hm (g_psk s) sn ?cn"
    using hmac_parts_sound [OF m1 law] by (simp add: clientMac_def)
  have b: "b = boardMac hm (g_psk s) ?cn sn"
    using hmac_parts_sound [OF m2 law] u by (simp add: boardMac_def)
  have "length e = 32" "length b = 32"
    using m1 m2 by (auto dest: hmac_parts_length)
  with eq len have "drop 32 msg = e" by (simp add: auth_ct_equal_iff)
  then have "msg = ?cn @ e" using append_take_drop_id [of 32 msg] by simp
  then have msg: "msg = client_message hm (g_psk s) sn ?cn"
    unfolding client_message_def e [symmetric] .
  show thesis
  proof (rule that [of "n1 @ n2"])
    show "t = s\<lparr>hist := hist s @ (n1 @ n2) @ [Sock (Sock_send fd (boardMac hm (g_psk s) ?cn sn) 32)]\<rparr>"
      using t u v b \<open>length b = 32\<close> by simp
  qed (use n1 n2 in simp, rule msg)
qed

lemma handshake_verify_complete:
  assumes "md_ok E" and "hmac_law E hm"
    and "\<And>d h. sock_send_r (sock E) fd d h = int (length d)"
    and "msg = client_message hm (g_psk s) sn cn" and "length cn = 32"
  shows "fst (run_state (handshake_verify E fd sn msg) s)"
proof -
  obtain u where m1: "run_state (hmac_parts E (g_psk s) [sn, cn, DOM_CLIENT]) s =
      (Some (hm (g_psk s) (concat [sn, cn, DOM_CLIENT])), u)"
    using assms(1,2) by (rule hmac_parts_complete)
  have "g_psk u = g_psk s" using emits_hmac_parts m1 by (rule emits_fields)
  moreover obtain v where m2: "run_state (hmac_parts E (g_psk s) [cn, sn, DOM_BOARD]) u =
      (Some (hm (g_psk s) (concat [cn, sn, DOM_BOARD])), v)"
    using assms(1,2) by (rule hmac_parts_complete)
  ultimately show ?thesis
    using m1 assms(3-5)
    by (simp add: handshake_verify_def sock_send_def client_message_def clientMac_def Let_def
        auth_ct_equal_iff hmac_length [OF assms(1,2)])
qed

section \<open>A peer that answers\<close>

text \<open>The peer delivers \<open>msg\<close> on the socket.\<close>

definition serves :: "sdk \<Rightarrow> int \<Rightarrow> bytes \<Rightarrow> bytes \<Rightarrow> bool" where
  "serves E fd base msg \<longleftrightarrow> delivers (sock_recv_r (sock E) fd) (received fd) base msg"

lemma recv_loop_serves:
  assumes "serves E fd base msg" and "\<And>h. get_time_r (sys E) h < dl" and "length msg = n"
    and "received fd (hist s) = base @ buf" and "msg = buf @ rest"
  shows "fst (run_state (recv_loop E fd n dl buf) s) = Some msg"
  using assms(3-5)
proof (induction "length rest" arbitrary: s buf rest rule: less_induct)
  case less
  show ?case
  proof (cases "rest = []")
    case True
    with less.prems show ?thesis by (simp add: recv_loop.simps)
  next
    case False
    let ?now = "get_time_r (sys E) (hist s)"
    let ?left = "dl - ?now"
    let ?h = "hist s @ [Sys (Get_time ?now), Sock (Set_rcvtimeo fd (?left div 1000000) (?left mod 1000000))]"
    have now: "\<not> ?left \<le> 0" using assms(2) [of "hist s"] by simp
    have got: "received fd ?h = base @ buf" using less.prems by simp
    have n: "n - length buf = length rest" and lt: "length buf < n"
      using less.prems False by auto
    from lt have pos: "0 < n - length buf" by simp
    obtain k where k: "0 < k" "k \<le> n - length buf"
        "sock_recv_r (sock E) fd (n - length buf) ?h = Rx (take k rest)"
      using assms(1) got less.prems(3) False pos unfolding serves_def delivers_def by blast
    let ?u = "s\<lparr>hist := ?h @ [Sock (Sock_recv fd (n - length buf) (Rx (take k rest)))]\<rparr>"
    have some: "\<not> rx_n (Rx (take k rest)) \<le> 0" using k(1) False by simp
    have "fst (run_state (recv_loop E fd n dl (buf @ take k rest)) ?u) = Some msg"
      by (rule less.hyps [of "drop k rest"]) (use less.prems k False in auto)
    moreover have "run_state (recv_loop E fd n dl buf) s =
        run_state (recv_loop E fd n dl (buf @ take k rest)) ?u"
      using lt now some k(3)
      by (simp add: recv_loop.simps [of E fd n dl buf] platform_calls Let_def del: rx_n.simps)
    ultimately show ?thesis by simp
  qed
qed

lemma honest_handshake:
  assumes "md_ok E" and "hmac_law E hm" and "recv_law E" and "g_claimed s" and "length cn = 32"
    and sn: "sn = arr 32 (fill_random_r (crypto E)
      (hist s @ [Sys (Get_time (get_time_r (sys E) (hist s)))]))"
    and peer: "serves E fd (received fd (hist s)) (client_message hm (g_psk s) sn cn)"
    and clock: "\<And>h. get_time_r (sys E) h < get_time_r (sys E) (hist s) + HANDSHAKE_DEADLINE_US"
    and send: "\<And>d h. sock_send_r (sock E) fd d h = int (length d)"
  shows "\<exists>t h. run_state (auth_handshake E fd) s = (True, t) \<and>
    hist t = h @ [Sock (Sock_send fd (boardMac hm (g_psk s) cn sn) 32), Sock (Set_rcvtimeo fd 0 0)]"
proof -
  let ?t0 = "get_time_r (sys E) (hist s)"
  let ?msg = "client_message hm (g_psk s) sn cn"
  let ?u = "s\<lparr>hist := hist s @ [Sys (Get_time ?t0), Crypto (Fill_random sn), Sock (Sock_send fd sn 32)]\<rparr>"
  have len: "length ?msg = 64"
    using assms(5) by (simp add: client_message_def clientMac_def hmac_length [OF assms(1,2)])
  obtain m v where v: "run_state (recv_exact E fd 64 (?t0 + HANDSHAKE_DEADLINE_US)) ?u = (m, v)"
    by fastforce
  have "fst (run_state (recv_exact E fd 64 (?t0 + HANDSHAKE_DEADLINE_US)) ?u) = Some ?msg"
    unfolding recv_exact_def
    by (rule recv_loop_serves [OF peer clock]) (use len in simp_all)
  with v have m: "m = Some ?msg" by simp
  have psk: "g_psk v = g_psk s"
    using v by (rule recv_exact_spec) simp
  then have ok: "fst (run_state (handshake_verify E fd sn ?msg) v)"
    using handshake_verify_complete [OF assms(1,2) send, of ?msg v sn cn] assms(5) by simp
  have "run_state (handshake_challenge E fd (?t0 + HANDSHAKE_DEADLINE_US))
      (s\<lparr>hist := hist s @ [Sys (Get_time ?t0)]\<rparr>) = (Some (sn, ?msg), v)"
    using v m sn send by (simp add: handshake_challenge_def platform_calls)
  moreover obtain b w where "run_state (handshake_verify E fd sn ?msg) v = (b, w)" by fastforce
  with ok have w: "run_state (handshake_verify E fd sn ?msg) v = (True, w)" by simp
  moreover have "take 32 ?msg = cn" using assms(5) by (simp add: client_message_def)
  with handshake_verify_sound [OF w assms(2) len] psk
  obtain h where "hist w = h @ [Sock (Sock_send fd (boardMac hm (g_psk s) cn sn) 32)]"
    by (metis append.assoc fw.select_convs(12) fw.surjective fw.update_convs(12))
  ultimately show ?thesis
    using assms(4) by (auto simp: auth_handshake_def handshake_inner_def platform_calls)
qed

section \<open>Messages\<close>

definition nonces_wf :: "bytes \<times> bytes \<Rightarrow> bool" where
  "nonces_wf f = (case f of (a, b) \<Rightarrow> length a = 32 \<and> length b = 32)"

interpretation client_role: mac_role "\<lambda>(sn, cn). sn @ cn @ DOM_CLIENT" nonces_wf
  by unfold_locales (auto simp: nonces_wf_def)

interpretation board_role: mac_role "\<lambda>(cn, sn). cn @ sn @ DOM_BOARD" nonces_wf
  by unfold_locales (auto simp: nonces_wf_def)

lemma domains_distinct:
  assumes "length a = 32" and "length b = 32" and "length c = 32" and "length d = 32"
  shows "a @ b @ DOM_CLIENT \<noteq> c @ d @ DOM_BOARD"
proof
  assume "a @ b @ DOM_CLIENT = c @ d @ DOM_BOARD"
  then have "length (a @ b @ DOM_CLIENT) = length (c @ d @ DOM_BOARD)" by simp
  then show False using assms by (simp add: DOM_CLIENT_def DOM_BOARD_def)
qed

section \<open>Properties\<close>

lemma handshake_inner_true:
  assumes "run_state (handshake_inner E fd dl) s = (True, t)" and "hmac_law E hm" and "recv_law E"
  obtains sn cn rd md where "length sn = 32" and "length cn = 32" and "recv_trace fd dl rd"
    and "received fd rd = client_message hm (g_psk s) sn cn" and "set md \<subseteq> md_events"
    and "t = s\<lparr>hist := hist s @ [Crypto (Fill_random sn), Sock (Sock_send fd sn 32)] @ rd @ md @
      [Sock (Sock_send fd (boardMac hm (g_psk s) cn sn) 32)]\<rparr>"
proof -
  from assms(1) obtain sn msg u where
    c: "run_state (handshake_challenge E fd dl) s = (Some (sn, msg), u)"
    and v: "run_state (handshake_verify E fd sn msg) u = (True, t)"
    by (auto simp: handshake_inner_def split: prod.splits option.splits)
  from c obtain rd where
    u: "u = s\<lparr>hist := hist s @ Crypto (Fill_random sn) # Sock (Sock_send fd sn 32) # rd\<rparr>"
    and rd: "length sn = 32" "recv_trace fd dl rd" "msg = received fd rd" "length msg = 64"
    by (rule handshake_challenge_spec) (use assms(3) in auto)
  from v assms(2) rd(4) obtain md where
    t: "t = u\<lparr>hist := hist u @ md @ [Sock (Sock_send fd (boardMac hm (g_psk u) (take 32 msg) sn) 32)]\<rparr>"
    and md: "set md \<subseteq> md_events" and msg: "msg = client_message hm (g_psk u) sn (take 32 msg)"
    by (rule handshake_verify_sound)
  show thesis
    by (rule that [of sn "take 32 msg" rd md]) (use u rd t md msg in simp_all)
qed

text \<open>
  C6. A session opens only for a client that holds the key. If the handshake returns true, the
  board was claimed, it sent a nonce of 32 fresh random bytes, every byte it then received before
  the deadline of five seconds is the client's nonce followed by the HMAC under the board's key
  over both nonces, it answered with its own HMAC over both nonces, and it cleared the receive
  timeout. It did nothing else and no static variable changed.
\<close>

theorem handshake_authenticates:
  assumes "hmac_law E hm" and "recv_law E" and "run_state (auth_handshake E fd) s = (True, t)"
  shows "g_claimed s \<and> (\<exists>t0 sn cn rd md. length sn = 32 \<and> length cn = 32 \<and>
    recv_trace fd (t0 + 5000000) rd \<and> received fd rd = client_message hm (g_psk s) sn cn \<and>
    set md \<subseteq> md_events \<and>
    t = s\<lparr>hist := hist s @
      [Sys (Get_time t0), Crypto (Fill_random sn), Sock (Sock_send fd sn 32)] @ rd @ md @
      [Sock (Sock_send fd (boardMac hm (g_psk s) cn sn) 32), Sock (Set_rcvtimeo fd 0 0)]\<rparr>)"
proof -
  let ?t0 = "get_time_r (sys E) (hist s)"
  let ?s1 = "s\<lparr>hist := hist s @ [Sys (Get_time ?t0)]\<rparr>"
  from assms(3) obtain u where claimed: "g_claimed s"
    and inner: "run_state (handshake_inner E fd (?t0 + HANDSHAKE_DEADLINE_US)) ?s1 = (True, u)"
    and t: "t = u\<lparr>hist := hist u @ [Sock (Set_rcvtimeo fd 0 0)]\<rparr>"
    by (auto simp: auth_handshake_def platform_calls split: if_splits prod.splits)
  from inner assms(1,2) obtain sn cn rd md where w: "length sn = 32" "length cn = 32"
      "recv_trace fd (?t0 + HANDSHAKE_DEADLINE_US) rd"
      "received fd rd = client_message hm (g_psk ?s1) sn cn" "set md \<subseteq> md_events"
      "u = ?s1\<lparr>hist := hist ?s1 @ [Crypto (Fill_random sn), Sock (Sock_send fd sn 32)] @ rd @ md @
        [Sock (Sock_send fd (boardMac hm (g_psk ?s1) cn sn) 32)]\<rparr>"
    by (rule handshake_inner_true)
  have "t = s\<lparr>hist := hist s @
      [Sys (Get_time ?t0), Crypto (Fill_random sn), Sock (Sock_send fd sn 32)] @ rd @ md @
      [Sock (Sock_send fd (boardMac hm (g_psk s) cn sn) 32), Sock (Set_rcvtimeo fd 0 0)]\<rparr>"
    using w(6) t by simp
  moreover have "recv_trace fd (?t0 + 5000000) rd" using w(3) by (simp add: HANDSHAKE_DEADLINE_US_def)
  moreover have "received fd rd = client_message hm (g_psk s) sn cn" using w(4) by simp
  ultimately show ?thesis using claimed w(1,2,5) by blast
qed

text \<open>A platform whose peer answers the nonce it will be sent with the key of \<open>toy_fw\<close>.\<close>

definition hs_nonce :: bytes where
  "hs_nonce = arr 32 (fill_random_r toy_crypto [Sys (Get_time 0)])"

lemma hs_nonce_eq: "hs_nonce = arr 32 (\<lambda>i. word_of_nat (1 + i))"
  by (simp add: hs_nonce_def toy_crypto_def)

definition hs_msg :: bytes where
  "hs_msg = client_message toy_mac (g_psk toy_fw) hs_nonce (replicate 32 9)"

definition hs_sdk :: sdk where
  "hs_sdk = toy_sdk (\<lambda>_. []) [] hs_msg"

lemma hs_laws: "hmac_law hs_sdk toy_mac" "md_ok hs_sdk" "recv_law hs_sdk"
  by (simp_all add: hs_sdk_def toy_laws)

lemma hs_serves: "serves hs_sdk fd [] hs_msg"
  unfolding serves_def by (rule deliversI) (simp add: hs_sdk_def toy_sdk_def toy_sock_def)

lemma hs_honest:
  "\<exists>t h. run_state (auth_handshake hs_sdk fd) toy_fw = (True, t) \<and>
    hist t = h @ [Sock (Sock_send fd (boardMac toy_mac (g_psk toy_fw) (replicate 32 9) hs_nonce) 32),
      Sock (Set_rcvtimeo fd 0 0)]"
proof (rule honest_handshake [OF hs_laws(2,1,3)])
  show "serves hs_sdk fd (received fd (hist toy_fw))
      (client_message toy_mac (g_psk toy_fw) hs_nonce (replicate 32 9))"
    using hs_serves by (simp add: toy_fw_def boot_fw_def hs_msg_def)
qed (simp_all add: toy_fw_def boot_fw_def hs_sdk_def toy_sdk_def toy_sys_def toy_sock_def
    hs_nonce_def HANDSHAKE_DEADLINE_US_def)

theorem handshake_authenticates_witness:
  "\<exists>t rd sn cn. run_state (auth_handshake hs_sdk 3) toy_fw = (True, t) \<and>
     received 3 rd = client_message toy_mac (g_psk toy_fw) sn cn"
  using hs_honest [of 3] handshake_authenticates [OF hs_laws(1,3), of 3 toy_fw] by blast

text \<open>
  C14. A client that holds the key is let in, and accepts the board. If the peer answers the nonce it
  was sent with the message of the client, however the network cuts it into pieces, and everything
  happens within the deadline, the handshake returns true and the proof the board sends last is
  the one the client expects.
\<close>

theorem honest_client_admitted:
  assumes "md_ok E" and "hmac_law E hm" and "recv_law E" and "g_claimed s" and "length cn = 32"
    and "sn = arr 32 (fill_random_r (crypto E)
      (hist s @ [Sys (Get_time (get_time_r (sys E) (hist s)))]))"
    and "serves E fd (received fd (hist s)) (client_message hm (g_psk s) sn cn)"
    and "\<And>h. get_time_r (sys E) h < get_time_r (sys E) (hist s) + HANDSHAKE_DEADLINE_US"
    and "\<And>d h. sock_send_r (sock E) fd d h = int (length d)"
  shows "\<exists>t h bmac. run_state (auth_handshake E fd) s = (True, t) \<and>
    hist t = h @ [Sock (Sock_send fd bmac 32), Sock (Set_rcvtimeo fd 0 0)] \<and>
    client_accepts hm (g_psk s) sn cn bmac"
  using honest_handshake [OF assms] by (auto simp: client_accepts_def)

theorem honest_client_admitted_witness:
  "\<exists>t h bmac. run_state (auth_handshake hs_sdk 3) toy_fw = (True, t) \<and>
    hist t = h @ [Sock (Sock_send 3 bmac 32), Sock (Set_rcvtimeo 3 0 0)] \<and>
    client_accepts toy_mac (g_psk toy_fw) hs_nonce (replicate 32 9) bmac"
proof (rule honest_client_admitted [OF hs_laws(2,1,3)])
  show "serves hs_sdk 3 (received 3 (hist toy_fw))
      (client_message toy_mac (g_psk toy_fw) hs_nonce (replicate 32 9))"
    using hs_serves by (simp add: toy_fw_def boot_fw_def hs_msg_def)
qed (simp_all add: toy_fw_def boot_fw_def hs_sdk_def toy_sdk_def toy_sys_def toy_sock_def
    hs_nonce_def HANDSHAKE_DEADLINE_US_def)

lemma no_recv_md: "set h \<subseteq> md_events \<Longrightarrow> Sock (Sock_recv fd' n r) \<notin> set h"
  by (auto simp: md_events_def)

lemma handshake_verify_events:
  "emits (md_events \<union> {Sock (Sock_send fd d r) | d r. True}) (handshake_verify E fd sn msg)"
  unfolding handshake_verify_def sock_send_def Let_def
  by (intro frame_intros emits_mono [OF emits_hmac_parts]) auto

text \<open>
  C30. However the peer behaves, and whatever the outcome, an unclaimed board answers nothing, and a
  claimed one reads at most 64 times, each time with the receive timeout set to what is left of the
  five seconds, never once they are over, and the timeout is cleared at the end.
\<close>

theorem handshake_deadline:
  assumes "run_state (auth_handshake E fd) s = (ok, t)"
  shows "if g_claimed s
    then \<exists>t0 open rd rest. t = s\<lparr>hist := hist s @
        Sys (Get_time t0) # open @ rd @ rest @ [Sock (Set_rcvtimeo fd 0 0)]\<rparr> \<and>
      recv_trace fd (t0 + 5000000) rd \<and> length rd \<le> 3 * 64 \<and>
      (\<forall>n r. Sock (Sock_recv fd n r) \<notin> set open \<union> set rest)
    else \<not> ok \<and> t = s"
proof (cases "g_claimed s")
  case False
  with assms show ?thesis by (auto simp: auth_handshake_def)
next
  case True
  let ?t0 = "get_time_r (sys E) (hist s)"
  let ?dl = "?t0 + HANDSHAKE_DEADLINE_US"
  let ?s1 = "s\<lparr>hist := hist s @ [Sys (Get_time ?t0)]\<rparr>"
  let ?sn = "arr 32 (fill_random_r (crypto E) (hist ?s1))"
  let ?r = "sock_send_r (sock E) fd ?sn (hist ?s1 @ [Crypto (Fill_random ?sn)])"
  let ?open = "[Crypto (Fill_random ?sn), Sock (Sock_send fd ?sn ?r)]"
  let ?s2 = "?s1\<lparr>hist := hist ?s1 @ ?open\<rparr>"
  from True assms obtain u where
    inner: "run_state (handshake_inner E fd ?dl) ?s1 = (ok, u)"
    and t: "t = u\<lparr>hist := hist u @ [Sock (Set_rcvtimeo fd 0 0)]\<rparr>"
    by (auto simp: auth_handshake_def platform_calls split: prod.splits)
  obtain m v where m: "run_state (recv_exact E fd 64 ?dl) ?s2 = (m, v)" by fastforce
  have "\<exists>rd rest. u = ?s2\<lparr>hist := hist ?s2 @ rd @ rest\<rparr> \<and> recv_trace fd ?dl rd \<and>
      length rd \<le> 3 * 64 \<and> (\<forall>n r. Sock (Sock_recv fd n r) \<notin> set rest)"
  proof (cases "?r = 32")
    case False
    with inner have "u = ?s2"
      by (auto simp: handshake_inner_def handshake_challenge_def platform_calls)
    then show ?thesis by (intro exI [of _ "[]"]) (auto intro: rt_done)
  next
    case sent: True
    from m obtain rd where rd: "v = ?s2\<lparr>hist := hist ?s2 @ rd\<rparr>" "recv_trace fd ?dl rd"
        "length rd \<le> 3 * 64"
      by (rule recv_exact_spec) auto
    show ?thesis
    proof (cases m)
      case None
      with sent inner m have "u = v"
        by (simp add: handshake_inner_def handshake_challenge_def platform_calls)
      with rd show ?thesis by (intro exI [of _ rd] exI [of _ "[]"]) simp
    next
      case (Some msg)
      with sent inner m have "run_state (handshake_verify E fd ?sn msg) v = (ok, u)"
        by (simp add: handshake_inner_def handshake_challenge_def platform_calls)
      with handshake_verify_events obtain rest where "u = v\<lparr>hist := hist v @ rest\<rparr>"
          "set rest \<subseteq> md_events \<union> {Sock (Sock_send fd d r) | d r. True}"
        by (rule emitsE)
      with rd show ?thesis
        by (intro exI [of _ rd] exI [of _ rest]) (auto simp: md_events_def)
    qed
  qed
  then obtain rd rest where rd: "u = ?s2\<lparr>hist := hist ?s2 @ rd @ rest\<rparr>" "recv_trace fd ?dl rd"
      "length rd \<le> 3 * 64" "\<forall>n r. Sock (Sock_recv fd n r) \<notin> set rest" by blast
  have "t = s\<lparr>hist := hist s @
      Sys (Get_time ?t0) # ?open @ rd @ rest @ [Sock (Set_rcvtimeo fd 0 0)]\<rparr>"
    using t rd(1) by simp
  moreover have "\<forall>n r. Sock (Sock_recv fd n r) \<notin> set ?open \<union> set rest" using rd(4) by auto
  moreover have "recv_trace fd (?t0 + 5000000) rd"
    using rd(2) by (simp add: HANDSHAKE_DEADLINE_US_def)
  ultimately show ?thesis using True rd(3) by (simp only: if_True) blast
qed

theorem handshake_deadline_witness:
  "\<exists>t t0 open rd rest. run_state (auth_handshake hs_sdk 3) toy_fw = (True, t) \<and>
    t = toy_fw\<lparr>hist := hist toy_fw @
        Sys (Get_time t0) # open @ rd @ rest @ [Sock (Set_rcvtimeo 3 0 0)]\<rparr> \<and>
      recv_trace 3 (t0 + 5000000) rd \<and> length rd \<le> 3 * 64"
proof -
  obtain t where t: "run_state (auth_handshake hs_sdk 3) toy_fw = (True, t)"
    using hs_honest [of 3] by blast
  have "g_claimed toy_fw" by (simp add: toy_fw_def)
  with handshake_deadline [OF t] t show ?thesis by (simp only: if_True) blast
qed

text \<open>
  C31. No recorded message opens a session: the message the board accepts for its nonce \<open>sn\<close> was
  made for \<open>sn\<close>, and a proof of the board, played back to it, is not accepted as a client's, unless
  the HMAC collides on the two messages.
\<close>

theorem handshake_binds_nonce:
  assumes law: "hmac_law E hm" and run: "run_state (handshake_verify E fd sn msg) s = (True, t)"
    and len: "length msg = 64" "length sn = 32"
    and rec: "length sn1 = 32" "length cn1 = 32" "length a = 32" "length b = 32"
    and coll: "no_collision hm (g_psk s) (sn @ take 32 msg @ DOM_CLIENT) (sn1 @ cn1 @ DOM_CLIENT)"
      "no_collision hm (g_psk s) (sn @ take 32 msg @ DOM_CLIENT) (a @ b @ DOM_BOARD)"
  shows "(msg = client_message hm (g_psk s) sn1 cn1 \<longrightarrow> sn1 = sn) \<and>
    drop 32 msg \<noteq> boardMac hm (g_psk s) a b"
proof -
  from run law len(1) obtain new where
    m: "msg = client_message hm (g_psk s) sn (take 32 msg)"
    by (rule handshake_verify_sound)
  have mac: "drop 32 msg = hm (g_psk s) (sn @ take 32 msg @ DOM_CLIENT)"
    by (subst m, simp add: client_message_def clientMac_def len(1))
  have "drop 32 msg \<noteq> boardMac hm (g_psk s) a b"
    using coll(2) domains_distinct [of sn "take 32 msg" a b] len rec
    unfolding mac boardMac_def no_collision_def by auto
  moreover have "sn1 = sn" if "msg = client_message hm (g_psk s) sn1 cn1"
  proof -
    from that rec have "drop 32 msg = hm (g_psk s) (sn1 @ cn1 @ DOM_CLIENT)"
      by (simp add: client_message_def clientMac_def)
    then have "hm (g_psk s) (case (sn, take 32 msg) of (sn, cn) \<Rightarrow> sn @ cn @ DOM_CLIENT) =
        hm (g_psk s) (case (sn1, cn1) of (sn, cn) \<Rightarrow> sn @ cn @ DOM_CLIENT)"
      using mac by simp
    then have "(sn, take 32 msg) = (sn1, cn1)"
      by (intro client_role.mac_binds [where hm = hm and k = "g_psk s"])
        (use coll(1) len rec in \<open>simp_all add: nonces_wf_def\<close>)
    then show ?thesis by simp
  qed
  ultimately show ?thesis by blast
qed

theorem handshake_binds_nonce_witness:
  "fst (run_state (handshake_verify hs_sdk 3 hs_nonce hs_msg) toy_fw) \<and>
   drop 32 hs_msg \<noteq> boardMac toy_mac (g_psk toy_fw) (replicate 32 9) hs_nonce \<and>
   hs_msg \<noteq> client_message toy_mac (g_psk toy_fw) (replicate 32 3) (replicate 32 9)"
proof -
  have ok: "fst (run_state (handshake_verify hs_sdk 3 hs_nonce hs_msg) toy_fw)"
    by (rule handshake_verify_complete [OF hs_laws(2,1), where cn = "replicate 32 9"])
      (simp_all add: hs_msg_def hs_sdk_def toy_sdk_def toy_sock_def)
  then obtain t where t: "run_state (handshake_verify hs_sdk 3 hs_nonce hs_msg) toy_fw = (True, t)"
    by (metis prod.collapse)
  have n: "length hs_nonce = 32" by (simp add: hs_nonce_def)
  have "length hs_msg = 64" by (simp add: hs_msg_def client_message_def clientMac_def)
  moreover have "no_collision toy_mac (g_psk toy_fw) (hs_nonce @ take 32 hs_msg @ DOM_CLIENT)
      (replicate 32 3 @ replicate 32 9 @ DOM_CLIENT)" unfolding hs_msg_def hs_nonce_eq by code_simp
  moreover have "no_collision toy_mac (g_psk toy_fw) (hs_nonce @ take 32 hs_msg @ DOM_CLIENT)
      (replicate 32 9 @ hs_nonce @ DOM_BOARD)" unfolding hs_msg_def hs_nonce_eq by code_simp
  ultimately have
    "(hs_msg = client_message toy_mac (g_psk toy_fw) (replicate 32 3) (replicate 32 9) \<longrightarrow>
       replicate 32 3 = hs_nonce) \<and>
     drop 32 hs_msg \<noteq> boardMac toy_mac (g_psk toy_fw) (replicate 32 9) hs_nonce"
    by (intro handshake_binds_nonce [OF hs_laws(1) t]) (simp_all add: n)
  moreover have "replicate 32 3 \<noteq> hs_nonce" unfolding hs_nonce_eq by code_simp
  ultimately show ?thesis using ok by blast
qed

end
