(* ===== verification/Claim.thy ===== *)
theory Claim
  imports Handshake
begin

text \<open>
  \<open>firmware/main/auth.c\<close>, the life of the key: claiming an unclaimed board with an X25519 exchange,
  storing the key, reading it back after a restart, and giving the board up again.
\<close>

section \<open>Definitions\<close>

text \<open>
  The block with the \<open>break\<close>s: the error code, and the board's public key once it was written to
  the caller's array. The last call writes its result straight into the static key, also when it
  fails.
\<close>

definition claim_exchange :: "sdk \<Rightarrow> bytes \<Rightarrow> (esp_err \<times> bytes option) fwm" where
  "claim_exchange E peer_pub = do {
     r \<leftarrow> mbedtls_ecp_group_load E;
     if r \<noteq> 0 then ret (ESP_FAIL, None) else do {
     (r, d, q) \<leftarrow> mbedtls_ecdh_gen_public E;
     if r \<noteq> 0 then ret (ESP_FAIL, None) else do {
     (r, our_pub) \<leftarrow> mbedtls_mpi_write_binary_le E q;
     if r \<noteq> 0 then ret (ESP_FAIL, Some our_pub) else do {
     (r, qp) \<leftarrow> mbedtls_mpi_read_binary_le E peer_pub;
     if r \<noteq> 0 then ret (ESP_FAIL, Some our_pub) else do {
     r \<leftarrow> mbedtls_mpi_lset E 1;
     if r \<noteq> 0 then ret (ESP_FAIL, Some our_pub) else do {
     (r, z) \<leftarrow> mbedtls_ecdh_compute_shared E qp d;
     if r \<noteq> 0 then ret (ESP_FAIL, Some our_pub) else do {
     (r, shared) \<leftarrow> mbedtls_mpi_write_binary_le E z;
     if r \<noteq> 0 then ret (ESP_FAIL, Some our_pub) else do {
     (r, psk) \<leftarrow> mbedtls_sha256 E shared;
     modify (\<lambda>s. s\<lparr>g_psk := psk\<rparr>);
     ret (if r \<noteq> 0 then ESP_FAIL else ESP_OK, Some our_pub)
     }}}}}}}
   }"

definition auth_claim :: "sdk \<Rightarrow> bytes \<Rightarrow> (int \<times> bytes option) fwm" where
  "auth_claim E peer_pub = do {
     claimed \<leftarrow> gets g_claimed;
     if claimed then ret (- 1, None) else do {
     (err, our_pub) \<leftarrow> claim_exchange E peer_pub;
     ecp_free_all;
     if err \<noteq> ESP_OK then ret (err, our_pub) else do {
     e \<leftarrow> nvs_open E True;
     if e \<noteq> ESP_OK then ret (ESP_FAIL, our_pub) else do {
     psk \<leftarrow> gets g_psk;
     err \<leftarrow> nvs_set_blob E ''psk'' (take PSK_LEN psk);
     err \<leftarrow> (if err = ESP_OK then nvs_commit E else ret err);
     nvs_close;
     if err \<noteq> ESP_OK then ret (err, our_pub) else do {
     modify (\<lambda>s. s\<lparr>g_claimed := True\<rparr>);
     ret (ESP_OK, our_pub)
     }}}}
   }"

definition auth_unclaim :: "sdk \<Rightarrow> int fwm" where
  "auth_unclaim E = do {
     e \<leftarrow> nvs_open E True;
     if e \<noteq> ESP_OK then ret ESP_FAIL else do {
     err \<leftarrow> nvs_erase_key E ''psk'';
     let err = (if err = ESP_ERR_NVS_NOT_FOUND then ESP_OK else err);
     err \<leftarrow> (if err = ESP_OK then nvs_commit E else ret err);
     nvs_close;
     if err \<noteq> ESP_OK then ret err else do {
     modify (\<lambda>s. s\<lparr>g_psk := replicate PSK_LEN 0\<rparr>);
     modify (\<lambda>s. s\<lparr>g_claimed := False\<rparr>);
     ret ESP_OK
     }}
   }"

text \<open>
  The host's side: \<open>derivePsk\<close> of \<open>common/auth.zig\<close>, over the same curve and digest. \<open>scalarmult\<close> is
  \<open>X25519.scalarmult\<close> of the Zig library: the secret is made a scalar by fixing five of its bits, the
  top bit of the public key is ignored, and a product of zero is the error \<open>IdentityElement\<close>, which
  \<open>derivePsk\<close> passes on (\<open>None\<close>).
\<close>

definition x25519_scalar :: "bytes \<Rightarrow> nat" where
  "x25519_scalar sk = le_val (sk[0 := sk ! 0 AND 248, 31 := (sk ! 31 AND 127) OR 64])"

definition scalarmult :: "(nat \<Rightarrow> nat \<Rightarrow> nat) \<Rightarrow> bytes \<Rightarrow> bytes \<Rightarrow> bytes option" where
  "scalarmult smul secret_key public_key =
     (let q = smul (x25519_scalar secret_key) (le_val public_key mod 2 ^ 255) in
      if q = 0 then None else Some (le_bytes 32 q))"

definition derivePsk ::
  "(bytes \<Rightarrow> bytes) \<Rightarrow> (nat \<Rightarrow> nat \<Rightarrow> nat) \<Rightarrow> bytes \<Rightarrow> bytes \<Rightarrow> bytes option" where
  "derivePsk sha smul secret_key peer_public =
     (case scalarmult smul secret_key peer_public of
        None \<Rightarrow> None
      | Some shared \<Rightarrow> Some (sha shared))"

text \<open>
  A restart: the static variables get their initial values again, only the memory of \<open>boottrace.c\<close>
  that is excluded from initialisation keeps its contents; the flash keeps what was written.
\<close>

definition restart :: "fw \<Rightarrow> fw" where
  "restart s = boot_fw\<lparr>s_magic := s_magic s, s_stage := s_stage s, hist := hist s\<rparr>"

section \<open>What each step leaves behind\<close>

text \<open>The exchange changes no variable but the key.\<close>

definition psk_only :: "fw \<Rightarrow> fw \<Rightarrow> bool" where
  "psk_only s t \<longleftrightarrow> t = s\<lparr>g_psk := g_psk t, hist := hist t\<rparr>"

interpretation psk_frame: field_frame psk_only
proof unfold_locales
  fix s t u :: fw and h
  show "psk_only s s" by (simp add: psk_only_def)
  show "psk_only s (s\<lparr>hist := h\<rparr>)" by (simp add: psk_only_def)
  show "psk_only s u" if "psk_only s t" and "psk_only t u"
    using that by (cases s; cases t; cases u) (simp add: psk_only_def)
qed

lemma psk_only_claimed: "psk_only s t \<Longrightarrow> g_claimed t = g_claimed s"
  by (cases s; cases t) (simp add: psk_only_def)

lemma effects_claim_exchange: "effects psk_only (range Crypto) (claim_exchange E peer)"
  unfolding claim_exchange_def platform_calls
  by (intro frame_intros) (auto simp: psk_only_def split: prod.splits)

lemma claim_exchange_length:
  assumes "run_state (claim_exchange E peer) s = (r, t)" and "length (g_psk s) = 32"
  shows "length (g_psk t) = 32"
  using assms by (auto simp: claim_exchange_def platform_calls split: prod.splits if_splits)

lemma claim_exchange_calls:
  assumes "run_state (claim_exchange E peer) s = ((ESP_OK, ours), t)"
  obtains d q qp z f1 f2 f3 h1 h2 h3 h4 h5 h6 where
    "ecdh_gen_public_r (crypto E) h1 = (0, d, q)"
    and "mpi_write_le_r (crypto E) q h2 = (0, f1)" and "ours = Some (arr 32 f1)"
    and "mpi_read_le_r (crypto E) peer h3 = (0, qp)"
    and "ecdh_compute_shared_r (crypto E) qp d h4 = (0, z)"
    and "mpi_write_le_r (crypto E) z h5 = (0, f2)"
    and "sha256_r (crypto E) (arr 32 f2) h6 = (0, f3)" and "g_psk t = arr 32 f3"
  using assms by (auto simp: claim_exchange_def platform_calls split: prod.splits if_splits)

lemma claim_exchange_key:
  assumes "run_state (claim_exchange E peer) s = ((ESP_OK, ours), t)"
    and "mpi_law E" and "ecdh_law E smul base" and "sha_law E sha"
  shows "\<exists>d. ours = Some (le_bytes 32 (smul d base)) \<and> smul d base < 2 ^ 255 \<and>
    smul d (le_val peer) \<noteq> 0 \<and> g_psk t = sha (le_bytes 32 (smul d (le_val peer)))"
proof -
  from assms(1) obtain d q qp z f1 f2 f3 h1 h2 h3 h4 h5 h6 where
    c: "ecdh_gen_public_r (crypto E) h1 = (0, d, q)"
      "mpi_write_le_r (crypto E) q h2 = (0, f1)" "ours = Some (arr 32 f1)"
      "mpi_read_le_r (crypto E) peer h3 = (0, qp)"
      "ecdh_compute_shared_r (crypto E) qp d h4 = (0, z)"
      "mpi_write_le_r (crypto E) z h5 = (0, f2)"
      "sha256_r (crypto E) (arr 32 f2) h6 = (0, f3)" "g_psk t = arr 32 f3"
    by (rule claim_exchange_calls)
  have "q = smul d base" "q < 2 ^ 255" "z = smul d qp" "z \<noteq> 0" using assms(3) c unfolding ecdh_law_def by blast+
  moreover have "arr 32 f1 = le_bytes 32 q" "arr 32 f2 = le_bytes 32 z" "qp = le_val peer"
    using assms(2) c unfolding mpi_law_def by blast+
  moreover have "arr 32 f3 = sha (arr 32 f2)" using assms(4) c unfolding sha_law_def by blast
  ultimately show ?thesis using c by (intro exI [of _ d]) simp
qed

lemma auth_claim_ok:
  assumes "run_state (auth_claim E peer) s = ((0, ours), t)"
  obtains u where "\<not> g_claimed s" and "run_state (claim_exchange E peer) s = ((ESP_OK, ours), u)"
    and "t = u\<lparr>hist := hist u @ [Crypto Ecp_free, Nvs (Nvs_open True ESP_OK),
      Nvs (Nvs_set_blob ''psk'' (take 32 (g_psk u)) ESP_OK), Nvs (Nvs_commit ESP_OK), Nvs Nvs_close],
      g_claimed := True\<rparr>"
  using assms
  by (auto simp: auth_claim_def platform_calls split: prod.splits if_splits)

lemma auth_claim_error:
  assumes "run_state (auth_claim E peer) s = ((err, ours), t)" and "err \<noteq> 0"
  shows "g_claimed t = g_claimed s"
proof (cases "g_claimed s")
  case True
  with assms show ?thesis by (auto simp: auth_claim_def)
next
  case False
  obtain e pub u where x: "run_state (claim_exchange E peer) s = ((e, pub), u)"
    by (metis prod.collapse)
  have "g_claimed u = g_claimed s"
    using effects_claim_exchange x by (rule effectsE) (rule psk_only_claimed)
  with x False assms show ?thesis
    by (auto simp: auth_claim_def platform_calls split: if_splits)
qed

text \<open>A blob written and committed is settled; so is an erased key.\<close>

lemma settled_after_commit:
  "(\<forall>e \<in> set quiet. nvs_silent e) \<Longrightarrow>
   nvs_settled (h @ [Nvs (Nvs_open True ESP_OK), Nvs (Nvs_set_blob k v ESP_OK),
     Nvs (Nvs_commit ESP_OK), Nvs Nvs_close] @ quiet) k = Holds v"
  "(\<forall>e \<in> set quiet. nvs_silent e) \<Longrightarrow> r = ESP_OK \<or> r = ESP_ERR_NVS_NOT_FOUND \<Longrightarrow>
   nvs_settled (h @ [Nvs (Nvs_open True ESP_OK), Nvs (Nvs_erase_key k r),
     Nvs (Nvs_commit ESP_OK), Nvs Nvs_close] @ quiet) k = Absent"
  by (simp_all only: append_assoc [symmetric] nvs_settled_silent)
    (auto simp: nvs_settled_def nvs_store_append settled_in_def nvs_write_def nvs_feed_def)

lemma auth_init_holds:
  assumes law: "nvs_law E" and holds: "nvs_settled (hist s) ''psk'' = Holds v"
    and "length v = 32" and "length (g_psk s) = 32"
  shows "\<exists>t. run_state (auth_init E) s = (True, t) \<and> g_psk t = v \<and> g_claimed t"
proof -
  have settled: "nvs_settled (hist s @ new) ''psk'' = Holds v" if "\<forall>e \<in> set new. nvs_silent e" for new
    using holds nvs_settled_silent [OF that] by simp
  have "nvs_open_r (nvs E) False (hist s @ new) = ESP_OK \<and>
      nvs_get_blob_r (nvs E) ''psk'' 32 (hist s @ new) = (ESP_OK, v, 32)"
    if "\<forall>e \<in> set new. nvs_silent e" for new
    using law settled [OF that] assms(3) unfolding nvs_law_def by (metis order_refl)
  then show ?thesis
    using assms(3,4) by (simp add: auth_init_def platform_calls overwrite_full)
qed

lemma auth_init_absent:
  assumes law: "nvs_law E" and absent: "nvs_settled (hist s) ''psk'' = Absent" and "\<not> g_claimed s"
  shows "\<exists>t. run_state (auth_init E) s = (False, t) \<and> \<not> g_claimed t"
proof -
  have "fst (nvs_get_blob_r (nvs E) ''psk'' 32 (hist s @ new)) \<noteq> ESP_OK"
    if "\<forall>e \<in> set new. nvs_silent e" for new
    using law absent nvs_settled_silent [OF that] unfolding nvs_law_def by metis
  from this [of "[Crypto (Fill_random (arr 16 (fill_random_r (crypto E) (hist s)))),
      Nvs (Nvs_open False ESP_OK)]"] show ?thesis
    using assms(3) by (auto simp: auth_init_def platform_calls split: prod.splits)
qed

lemma auth_unclaim_ok:
  assumes "run_state (auth_unclaim E) s = (0, t)"
  obtains r where "r = ESP_OK \<or> r = ESP_ERR_NVS_NOT_FOUND"
    and "t = s\<lparr>hist := hist s @
      [Nvs (Nvs_open True ESP_OK), Nvs (Nvs_erase_key ''psk'' r), Nvs (Nvs_commit ESP_OK),
       Nvs Nvs_close], g_psk := replicate 32 0, g_claimed := False\<rparr>"
  using assms by (auto simp: auth_unclaim_def platform_calls Let_def split: if_splits)

lemma auth_unclaim_error:
  assumes "run_state (auth_unclaim E) s = (err, t)" and "err \<noteq> 0"
  shows "t = s\<lparr>hist := hist t\<rparr>"
  using assms by (auto simp: auth_unclaim_def platform_calls Let_def split: if_splits)

lemma restart_simps [simp]:
  "g_claimed (restart s) = False" "hist (restart s) = hist s" "length (g_psk (restart s)) = 32"
  by (simp_all add: restart_def boot_fw_def)

section \<open>Properties\<close>

text \<open>
  C20. A claim is all or nothing. A claimed board refuses it without touching anything. Otherwise it
  succeeds exactly when the board becomes claimed, which is the last thing to happen: the key is
  the one written to flash and committed without an error right before. Any error leaves the board
  unclaimed.
\<close>

theorem claim_all_or_nothing:
  assumes "run_state (auth_claim E peer) s = ((err, ours), t)"
  shows "(g_claimed s \<longrightarrow> err = - 1 \<and> t = s) \<and> (err \<noteq> 0 \<longrightarrow> g_claimed t = g_claimed s) \<and>
    (err = 0 \<longrightarrow> \<not> g_claimed s \<and> g_claimed t \<and>
      (\<exists>h. hist t = h @ [Nvs (Nvs_set_blob ''psk'' (take 32 (g_psk t)) ESP_OK),
        Nvs (Nvs_commit ESP_OK), Nvs Nvs_close]))"
proof (intro conjI impI)
  show "err = - 1" if "g_claimed s" using that assms by (simp add: auth_claim_def)
  show "t = s" if "g_claimed s" using that assms by (simp add: auth_claim_def)
  show "g_claimed t = g_claimed s" if "err \<noteq> 0" using assms that by (rule auth_claim_error)
  assume "err = 0"
  with assms have ok: "run_state (auth_claim E peer) s = ((0, ours), t)" by simp
  show "\<not> g_claimed s" using ok by (rule auth_claim_ok)
  show "g_claimed t" using ok by (rule auth_claim_ok) simp
  show "\<exists>h. hist t = h @ [Nvs (Nvs_set_blob ''psk'' (take 32 (g_psk t)) ESP_OK),
        Nvs (Nvs_commit ESP_OK), Nvs Nvs_close]"
    using ok by (rule auth_claim_ok) simp
qed

text \<open>A platform on which a host with the secret number 5 claims the board.\<close>

definition claim_sdk :: sdk where
  "claim_sdk = toy_sdk (\<lambda>_. []) [] []"

definition host_secret :: bytes where
  "host_secret = replicate 32 0"

definition host_pub :: bytes where
  "host_pub = le_bytes 32 (toy_smul (x25519_scalar host_secret) 9)"

lemma claim_laws: "nvs_law claim_sdk" "mpi_law claim_sdk" "ecdh_law claim_sdk toy_smul 9"
  "sha_law claim_sdk toy_sha" "hmac_law claim_sdk toy_mac" "md_ok claim_sdk"
  by (simp_all add: claim_sdk_def toy_laws)

lemma toy_smul_less: "toy_smul a u < 2 ^ 255"
  by (simp add: toy_smul_def)

lemma le_val_zeros: "le_val (replicate n 0 @ bs) = 256 ^ n * le_val bs"
  by (induction n) simp_all

lemma host_scalar: "x25519_scalar host_secret = 2 ^ 254"
proof -
  have "host_secret[0 := host_secret ! 0 AND 248, 31 := (host_secret ! 31 AND 127) OR 64] = replicate 31 0 @ [64]"
    by code_simp
  then show ?thesis by (simp add: x25519_scalar_def le_val_zeros)
qed

lemma host_pub_val: "le_val host_pub = 2 ^ 254"
  by (simp add: host_pub_def host_scalar toy_smul_def le_val_bytes)

lemma claim_demo_at:
  assumes "\<not> g_claimed s"
  shows "\<exists>t. run_state (auth_claim (toy_sdk hdrs body peer) host_pub) s =
    ((0, Some (le_bytes 32 (toy_smul 3 9))), t)"
proof -
  have arr: "arr 32 ((!) (le_bytes 32 x)) = le_bytes 32 x" for x
    by (rule arr_nth) simp
  have z: "toy_smul 3 9 < 256 ^ 32" "toy_smul 3 (2 ^ 254) < 256 ^ 32" "toy_smul 3 (2 ^ 254) \<noteq> 0"
    by (simp_all add: toy_smul_def)
  show ?thesis
    using assms
    by (simp add: auth_claim_def claim_exchange_def platform_calls toy_sdk_def toy_crypto_def toy_nvs_def arr
        host_pub_val z del: power_numeral)
qed

lemma claim_demo:
  "\<exists>t. run_state (auth_claim claim_sdk host_pub) boot_fw = ((0, Some (le_bytes 32 (toy_smul 3 9))), t)"
  unfolding claim_sdk_def by (rule claim_demo_at) (simp add: boot_fw_def)

theorem claim_all_or_nothing_witness:
  "\<exists>t h. run_state (auth_claim claim_sdk host_pub) boot_fw =
      ((0, Some (le_bytes 32 (toy_smul 3 9))), t) \<and> g_claimed t \<and>
    hist t = h @ [Nvs (Nvs_set_blob ''psk'' (take 32 (g_psk t)) ESP_OK),
        Nvs (Nvs_commit ESP_OK), Nvs Nvs_close]"
  using claim_demo claim_all_or_nothing [of claim_sdk host_pub boot_fw 0] by blast

text \<open>
  C11. Both sides of a claim get the same key: if the host sent the public key of its secret, deriving
  a key from the board's answer succeeds and gives the key the board keeps.
\<close>

theorem claim_key_agreement:
  assumes "run_state (auth_claim E (le_bytes 32 (smul (x25519_scalar sk) base))) s = ((0, ours), t)"
    and "mpi_law E" and "ecdh_law E smul base" and "sha_law E sha"
    and "smul (x25519_scalar sk) base < 256 ^ 32"
    and "\<And>b. smul (x25519_scalar sk) (smul b base) = smul b (smul (x25519_scalar sk) base)"
  shows "\<exists>pub. ours = Some pub \<and> length pub = 32 \<and> derivePsk sha smul sk pub = Some (g_psk t)"
proof -
  let ?a = "x25519_scalar sk"
  from assms(1) obtain u where u: "run_state (claim_exchange E (le_bytes 32 (smul ?a base))) s =
      ((ESP_OK, ours), u)" "g_psk t = g_psk u"
    by (rule auth_claim_ok) simp
  from claim_exchange_key [OF u(1) assms(2-4)] obtain d where
    d: "ours = Some (le_bytes 32 (smul d base))" "smul d base < 2 ^ 255"
      "smul d (smul ?a base) \<noteq> 0" "g_psk u = sha (le_bytes 32 (smul d (smul ?a base)))"
    unfolding le_val_bytes [OF assms(5)] by blast
  have "smul d base < 256 ^ 32" using d(2) by simp
  then have "le_val (le_bytes 32 (smul d base)) mod 2 ^ 255 = smul d base"
    using d(2) by (simp only: le_val_bytes mod_less)
  with d u(2) assms(6) [of d] show ?thesis by (simp add: derivePsk_def scalarmult_def)
qed

theorem claim_key_agreement_witness:
  "\<exists>t pub. run_state (auth_claim claim_sdk (le_bytes 32 (toy_smul (x25519_scalar host_secret) 9))) boot_fw =
      ((0, Some pub), t) \<and> derivePsk toy_sha toy_smul host_secret pub = Some (g_psk t)"
proof -
  have "toy_smul (x25519_scalar host_secret) 9 < 256 ^ 32" by (simp add: host_scalar toy_smul_def)
  then show ?thesis
    using claim_demo claim_key_agreement [OF _ claim_laws(2-4) _ toy_smul_commute]
    unfolding host_pub_def by (metis option.inject)
qed

text \<open>
  C12. The key survives: after a claim that succeeded, whatever happens that does not write to the
  flash, a restarted board reads the same key and is claimed.
\<close>

theorem claim_survives_restart:
  assumes "run_state (auth_claim E peer) s = ((0, ours), t)" and "nvs_law E"
    and "length (g_psk s) = 32" and "\<forall>e \<in> set quiet. nvs_silent e"
  shows "\<exists>u. run_state (auth_init E) (restart (t\<lparr>hist := hist t @ quiet\<rparr>)) = (True, u) \<and>
    g_psk u = g_psk t \<and> g_claimed u"
proof -
  from assms(1) obtain v where v: "run_state (claim_exchange E peer) s = ((ESP_OK, ours), v)"
    and t: "t = v\<lparr>hist := hist v @ [Crypto Ecp_free, Nvs (Nvs_open True ESP_OK),
      Nvs (Nvs_set_blob ''psk'' (take 32 (g_psk v)) ESP_OK), Nvs (Nvs_commit ESP_OK), Nvs Nvs_close],
      g_claimed := True\<rparr>"
    by (rule auth_claim_ok)
  have len: "length (g_psk v) = 32" using v assms(3) by (rule claim_exchange_length)
  have "nvs_settled ((hist v @ [Crypto Ecp_free]) @ [Nvs (Nvs_open True ESP_OK),
      Nvs (Nvs_set_blob ''psk'' (g_psk v) ESP_OK), Nvs (Nvs_commit ESP_OK), Nvs Nvs_close] @ quiet)
      ''psk'' = Holds (g_psk v)"
    using assms(4) by (rule settled_after_commit)
  then have "nvs_settled (hist (restart (t\<lparr>hist := hist t @ quiet\<rparr>))) ''psk'' = Holds (g_psk t)"
    using t len by simp
  from auth_init_holds [OF assms(2) this] show ?thesis using t len by simp
qed

theorem claim_survives_restart_witness:
  "\<exists>t u. run_state (auth_claim claim_sdk host_pub) boot_fw =
      ((0, Some (le_bytes 32 (toy_smul 3 9))), t) \<and>
    run_state (auth_init claim_sdk) (restart (t\<lparr>hist := hist t @ [Sys Esp_restart]\<rparr>)) = (True, u) \<and>
    g_psk u = g_psk t"
proof -
  obtain t where t: "run_state (auth_claim claim_sdk host_pub) boot_fw =
      ((0, Some (le_bytes 32 (toy_smul 3 9))), t)" using claim_demo by blast
  then show ?thesis
    using claim_survives_restart [OF t claim_laws(1), of "[Sys Esp_restart]"]
    by (auto simp: boot_fw_def)
qed

text \<open>
  C21. Giving the board up: if it reports success, the key is gone from memory and from flash, and
  the board is unclaimed after a restart too. If it reports an error, no variable has changed.
\<close>

theorem unclaim_forgets:
  assumes "run_state (auth_unclaim E) s = (err, t)" and "nvs_law E"
    and "\<forall>e \<in> set quiet. nvs_silent e"
  shows "if err = 0
    then g_psk t = replicate 32 0 \<and> \<not> g_claimed t \<and>
      (\<exists>u. run_state (auth_init E) (restart (t\<lparr>hist := hist t @ quiet\<rparr>)) = (False, u) \<and> \<not> g_claimed u)
    else t = s\<lparr>hist := hist t\<rparr>"
proof (cases "err = 0")
  case False
  with auth_unclaim_error [OF assms(1)] show ?thesis by simp
next
  case True
  with assms(1) have "run_state (auth_unclaim E) s = (0, t)" by simp
  then obtain r where r: "r = ESP_OK \<or> r = ESP_ERR_NVS_NOT_FOUND"
    and t: "t = s\<lparr>hist := hist s @
      [Nvs (Nvs_open True ESP_OK), Nvs (Nvs_erase_key ''psk'' r), Nvs (Nvs_commit ESP_OK),
       Nvs Nvs_close], g_psk := replicate 32 0, g_claimed := False\<rparr>"
    by (rule auth_unclaim_ok)
  have "nvs_settled (hist (restart (t\<lparr>hist := hist t @ quiet\<rparr>))) ''psk'' = Absent"
    using settled_after_commit(2) [OF assms(3) r, of "hist s" "''psk''"] t by simp
  from auth_init_absent [OF assms(2) this] show ?thesis using True t by simp
qed

theorem unclaim_forgets_witness:
  "\<exists>t u. run_state (auth_unclaim claim_sdk) toy_fw = (0, t) \<and> g_psk t = replicate 32 0 \<and>
    run_state (auth_init claim_sdk) (restart (t\<lparr>hist := hist t @ []\<rparr>)) = (False, u)"
proof -
  obtain t where t: "run_state (auth_unclaim claim_sdk) toy_fw = (0, t)"
    by (simp add: auth_unclaim_def platform_calls claim_sdk_def toy_sdk_def toy_nvs_def)
  then show ?thesis using unclaim_forgets [OF t claim_laws(1), of "[]"] by auto
qed

text \<open>
  C40. A window the code leaves open. The HCI task waits for the client's message inside the
  handshake, after it has seen that the board is claimed; if the HTTP task unclaims the board in
  that time, the message is checked against the zeroed key. A peer that knows no secret at all can
  then answer any nonce.
\<close>

theorem unclaim_opens_handshake:
  assumes "run_state (auth_unclaim E) s = (0, t)" and "md_ok E" and "hmac_law E hm"
    and "\<And>d h. sock_send_r (sock E) fd d h = int (length d)" and "length cn = 32"
  shows "fst (run_state (handshake_verify E fd sn (client_message hm (replicate 32 0) sn cn)) t)"
proof -
  have "g_psk t = replicate 32 0" using assms(1) by (rule auth_unclaim_ok) simp
  then show ?thesis using assms(2-5) by (intro handshake_verify_complete) simp_all
qed

theorem unclaim_opens_handshake_witness:
  "\<exists>t. run_state (auth_unclaim claim_sdk) toy_fw = (0, t) \<and>
    fst (run_state (handshake_verify claim_sdk 3 (replicate 32 1)
      (client_message toy_mac (replicate 32 0) (replicate 32 1) (replicate 32 2))) t)"
proof -
  obtain t where t: "run_state (auth_unclaim claim_sdk) toy_fw = (0, t)"
    by (simp add: auth_unclaim_def platform_calls claim_sdk_def toy_sdk_def toy_nvs_def)
  have "fst (run_state (handshake_verify claim_sdk 3 (replicate 32 1)
      (client_message toy_mac (replicate 32 0) (replicate 32 1) (replicate 32 2))) t)"
    by (rule unclaim_opens_handshake [OF t claim_laws(6,5)])
      (simp_all add: claim_sdk_def toy_sdk_def toy_sock_def)
  with t show ?thesis by blast
qed

end
