(* ===== verification/Glue.thy ===== *)
theory Glue
  imports Handshake "HOL-Library.Signed_Division"
begin

text \<open>
  \<open>firmware/main/glue.c\<close>, the functions the bridge calls: sockets, FreeRTOS objects, the clock, the
  watchdog and the Bluetooth controller. Handles of stream buffers and semaphores are numbers, with
  \<open>None\<close> for the null pointer. Durations stay in milliseconds: the conversion to ticks belongs to
  FreeRTOS.
\<close>

section \<open>Sockets\<close>

definition sock_socket :: "sdk \<Rightarrow> bool \<Rightarrow> int fwm" where
  "sock_socket E stream = call (socket_r (sock E) stream) (\<lambda>r. Sock (Sock_socket stream r))"

definition sock_setopt :: "int \<Rightarrow> sockopt \<Rightarrow> int \<Rightarrow> unit fwm" where
  "sock_setopt fd opt v = notify (Sock (Setsockopt fd opt v))"

definition sock_bind :: "sdk \<Rightarrow> int \<Rightarrow> u16 \<Rightarrow> int fwm" where
  "sock_bind E fd port = call (bind_r (sock E) fd port) (\<lambda>r. Sock (Sock_bind fd port r))"

definition sock_listen :: "sdk \<Rightarrow> int \<Rightarrow> int \<Rightarrow> int fwm" where
  "sock_listen E fd backlog =
     call (listen_r (sock E) fd backlog) (\<lambda>r. Sock (Sock_listen fd backlog r))"

definition sock_accept :: "sdk \<Rightarrow> int \<Rightarrow> int fwm" where
  "sock_accept E lfd = call (accept_r (sock E) lfd) (\<lambda>r. Sock (Sock_accept lfd r))"

definition sock_select :: "sdk \<Rightarrow> int \<Rightarrow> int list \<Rightarrow> int \<Rightarrow> int \<Rightarrow> (int \<times> int list) fwm" where
  "sock_select E nfds fds sec usec =
     call (select_r (sock E) nfds fds sec usec)
       (\<lambda>(n, ready). Sock (Sock_select nfds fds sec usec n ready))"

definition sock_shutdown :: "int \<Rightarrow> unit fwm" where
  "sock_shutdown fd = notify (Sock (Sock_shutdown fd))"

definition sock_close :: "int \<Rightarrow> unit fwm" where
  "sock_close fd = notify (Sock (Sock_close fd))"

lemmas socket_calls [exec_simps] = sock_socket_def sock_setopt_def sock_bind_def sock_listen_def
  sock_accept_def sock_select_def sock_shutdown_def sock_close_def

definition glue_listen :: "sdk \<Rightarrow> u16 \<Rightarrow> int fwm" where
  "glue_listen E port = do {
     fd \<leftarrow> sock_socket E True;
     if fd < 0 then ret (- 1)
     else do {
       sock_setopt fd SO_REUSEADDR 1;
       b \<leftarrow> sock_bind E fd port;
       l \<leftarrow> (if b < 0 then ret b else sock_listen E fd 1);
       if b < 0 \<or> l < 0 then do { sock_close fd; ret (- 1) } else ret fd
     }
   }"

definition glue_accept :: "sdk \<Rightarrow> int \<Rightarrow> int fwm" where
  "glue_accept E lfd = do {
     fd \<leftarrow> sock_accept E lfd;
     if fd < 0 then ret (- 1)
     else do {
       sock_setopt fd TCP_NODELAY 1;
       sock_setopt fd SO_KEEPALIVE 1;
       sock_setopt fd TCP_KEEPIDLE 5;
       sock_setopt fd TCP_KEEPINTVL 2;
       sock_setopt fd TCP_KEEPCNT 3;
       ret fd
     }
   }"

definition glue_delay_ms :: "u32 \<Rightarrow> unit fwm" where
  "glue_delay_ms ms = vTaskDelay_ms (unat ms)"

text \<open>\<open>select\<close> overwrites the set it was given with the ready descriptors.\<close>

definition glue_poll2 :: "sdk \<Rightarrow> int \<Rightarrow> int \<Rightarrow> int \<Rightarrow> int fwm" where
  "glue_poll2 E fd_a fd_b timeout_ms = do {
     let rd = ([] :: int list);
     let maxfd = (- 1 :: int);
     let (rd, maxfd) = (if 0 \<le> fd_a then (rd @ [fd_a], fd_a) else (rd, maxfd));
     let (rd, maxfd) =
       (if 0 \<le> fd_b then (rd @ [fd_b], if maxfd < fd_b then fd_b else maxfd) else (rd, maxfd));
     if maxfd < 0 then do { glue_delay_ms (word_of_int timeout_ms); ret 0 }
     else do {
       (n, rd) \<leftarrow> sock_select E (maxfd + 1) rd (timeout_ms sdiv 1000) ((timeout_ms smod 1000) * 1000);
       if n < 0 then ret (- 1)
       else do {
         let mask = (0 :: int);
         let mask = (if 0 \<le> fd_a \<and> fd_a \<in> set rd then mask OR 1 else mask);
         let mask = (if 0 \<le> fd_b \<and> fd_b \<in> set rd then mask OR 2 else mask);
         ret mask
       }
     }
   }"

definition glue_recv :: "sdk \<Rightarrow> int \<Rightarrow> nat \<Rightarrow> rx fwm" where
  "glue_recv E fd len = sock_recv E fd len"

text \<open>
  The loop of \<open>glue_send\<close> over the bytes left. \<open>None\<close>: \<open>send\<close> claims to have taken more bytes than it
  was given, from where on the C function would read past the buffer.
\<close>

function send_loop :: "sdk \<Rightarrow> int \<Rightarrow> bytes \<Rightarrow> int \<Rightarrow> int option fwm" where
  "send_loop E fd left len =
     (if 0 < length left then do {
        n \<leftarrow> sock_send E fd left;
        if n \<le> 0 then ret (Some (- 1))
        else if int (length left) < n then ret None
        else send_loop E fd (drop (nat n) left) len
      } else ret (Some len))"
  by pat_completeness auto
termination
  by (relation "measure (\<lambda>(E, fd, left, len). length left)") auto

declare send_loop.simps [simp del]

definition glue_send :: "sdk \<Rightarrow> int \<Rightarrow> bytes \<Rightarrow> int option fwm" where
  "glue_send E fd buf = send_loop E fd buf (sint (word_of_nat (length buf) :: u32))"

definition glue_shutdown :: "int \<Rightarrow> unit fwm" where
  "glue_shutdown fd = sock_shutdown fd"

definition glue_close :: "int \<Rightarrow> unit fwm" where
  "glue_close fd = do { sock_shutdown fd; sock_close fd }"

section \<open>FreeRTOS objects, the clock and the watchdog\<close>

definition glue_sb_create :: "sdk \<Rightarrow> nat \<Rightarrow> nat option fwm" where
  "glue_sb_create E n = call (sb_create_r (rtos E) n) (\<lambda>r. Rtos (Sb_create n r))"

definition glue_sb_send :: "sdk \<Rightarrow> nat \<Rightarrow> bytes \<Rightarrow> u32 \<Rightarrow> nat fwm" where
  "glue_sb_send E buf d ms = call (sb_send_r (rtos E) buf d ms) (\<lambda>r. Rtos (Sb_send buf d ms r))"

definition glue_sb_recv :: "sdk \<Rightarrow> nat \<Rightarrow> nat \<Rightarrow> u32 \<Rightarrow> bytes fwm" where
  "glue_sb_recv E buf len ms = call (sb_recv_r (rtos E) buf len ms) (\<lambda>r. Rtos (Sb_recv buf len ms r))"

definition glue_sb_space :: "sdk \<Rightarrow> nat \<Rightarrow> nat fwm" where
  "glue_sb_space E buf = call (sb_space_r (rtos E) buf) (\<lambda>r. Rtos (Sb_space buf r))"

definition glue_sem_create :: "sdk \<Rightarrow> nat option fwm" where
  "glue_sem_create E = call (sem_create_r (rtos E)) (\<lambda>r. Rtos (Sem_create r))"

definition glue_sem_take :: "sdk \<Rightarrow> nat \<Rightarrow> u32 \<Rightarrow> bool fwm" where
  "glue_sem_take E sem ms = call (sem_take_r (rtos E) sem ms) (\<lambda>r. Rtos (Sem_take sem ms r))"

definition glue_sem_give :: "nat \<Rightarrow> unit fwm" where
  "glue_sem_give sem = notify (Rtos (Sem_give sem))"

definition glue_task_create :: "sdk \<Rightarrow> string \<Rightarrow> u32 \<Rightarrow> u32 \<Rightarrow> int \<Rightarrow> bool fwm" where
  "glue_task_create E name stack prio core = xTaskCreate E name stack prio core"

text \<open>Milliseconds since boot, modulo \<open>2 ^ 32\<close>.\<close>

definition glue_millis :: "sdk \<Rightarrow> u32 fwm" where
  "glue_millis E = do {
     t \<leftarrow> esp_timer_get_time E;
     ret (word_of_int (t sdiv 1000))
   }"

definition glue_abort :: "'a outcome fwm" where
  "glue_abort = do { system_abort; ret Aborted }"

definition glue_wdt_add :: "unit fwm" where
  "glue_wdt_add = notify (Rtos Wdt_add)"

definition glue_wdt_feed :: "unit fwm" where
  "glue_wdt_feed = notify (Rtos Wdt_feed)"

section \<open>The controller and the build configuration\<close>

definition glue_auth_handshake :: "sdk \<Rightarrow> int \<Rightarrow> bool fwm" where
  "glue_auth_handshake E fd = auth_handshake E fd"

definition glue_bt_send_available :: "sdk \<Rightarrow> bool fwm" where
  "glue_bt_send_available E = call (vhci_available_r (rtos E)) (\<lambda>r. Rtos (Vhci_available r))"

definition glue_bt_send :: "bytes \<Rightarrow> unit fwm" where
  "glue_bt_send d = notify (Rtos (Vhci_send d))"

definition glue_tcp_port :: "kconfig \<Rightarrow> u16" where
  "glue_tcp_port c = word_of_nat (BRIDGE_TCP_PORT c)"

section \<open>Sending everything or failing\<close>

text \<open>Documented: \<open>send\<close> takes at most the bytes it was given.\<close>

definition send_law :: "sdk \<Rightarrow> bool" where
  "send_law E \<longleftrightarrow> (\<forall>fd d h. sock_send_r (sock E) fd d h \<le> int (length d))"

text \<open>The bytes of a history that went out on a socket.\<close>

definition sent :: "int \<Rightarrow> history \<Rightarrow> bytes" where
  "sent fd h =
     concat (map (\<lambda>e. case e of Sock (Sock_send fd' d r) \<Rightarrow> if fd' = fd then take (nat r) d else []
                     | _ \<Rightarrow> []) h)"

lemma sent_simps [simp]:
  "sent fd [] = []"
  "sent fd (Sock (Sock_send fd d r) # h) = take (nat r) d @ sent fd h"
  by (simp_all add: sent_def)

text \<open>What a call that sends \<open>left\<close> leaves in the history when it returns \<open>r\<close>.\<close>

definition sends :: "int \<Rightarrow> bytes \<Rightarrow> int \<Rightarrow> int \<Rightarrow> history \<Rightarrow> bool" where
  "sends fd left len r new \<longleftrightarrow> length new \<le> length left \<and>
     ((r = len \<and> sent fd new = left) \<or>
      (r = - 1 \<and> (\<exists>k < length left. sent fd new = take k left) \<and>
        (\<exists>h d n. new = h @ [Sock (Sock_send fd d n)] \<and> n \<le> 0)))"

lemma sends_step:
  assumes "sends fd (drop (nat n) left) len r new" and "0 < n" and "n \<le> int (length left)"
  shows "sends fd left len r (Sock (Sock_send fd left n) # new)"
proof -
  have len: "Suc (length new) \<le> length left"
    using assms by (auto simp: sends_def)
  show ?thesis
  proof (cases "r = len \<and> sent fd new = drop (nat n) left")
    case True
    with len show ?thesis by (simp add: sends_def)
  next
    case False
    with assms(1) obtain k h d m where k: "r = - 1" "k < length (drop (nat n) left)"
        "sent fd new = take k (drop (nat n) left)" "new = h @ [Sock (Sock_send fd d m)]" "m \<le> 0"
      by (auto simp: sends_def)
    have "sent fd (Sock (Sock_send fd left n) # new) = take (nat n + k) left"
      using k(3) by (simp add: take_add)
    moreover have "nat n + k < length left" using k(2) assms(3) by simp
    moreover have "Sock (Sock_send fd left n) # new =
        (Sock (Sock_send fd left n) # h) @ [Sock (Sock_send fd d m)]" using k(4) by simp
    ultimately show ?thesis using len k(1,5) unfolding sends_def by (metis length_Cons)
  qed
qed

lemma send_loop_spec:
  assumes "send_law E"
  shows "\<exists>r new. run_state (send_loop E fd left len) s = (Some r, s\<lparr>hist := hist s @ new\<rparr>) \<and>
    sends fd left len r new"
proof (induction "length left" arbitrary: left s rule: less_induct)
  case less
  let ?n = "sock_send_r (sock E) fd left (hist s)"
  let ?u = "s\<lparr>hist := hist s @ [Sock (Sock_send fd left ?n)]\<rparr>"
  show ?case
  proof (cases "0 < length left")
    case False
    then show ?thesis
      by (intro exI [of _ len] exI [of _ "[]"]) (simp add: send_loop.simps sends_def)
  next
    case more: True
    show ?thesis
    proof (cases "?n \<le> 0")
      case True
      with more Suc_leI [OF more] show ?thesis
        by (intro exI [of _ "- 1"] exI [of _ "[Sock (Sock_send fd left ?n)]"])
          (auto simp: send_loop.simps [of E fd left] sock_send_def sends_def intro: exI [of _ 0])
    next
      case False
      have le: "?n \<le> int (length left)" using assms by (simp add: send_law_def)
      have "length (drop (nat ?n) left) < length left" using False more by simp
      from less [OF this, of ?u] obtain r new where
        run: "run_state (send_loop E fd (drop (nat ?n) left) len) ?u = (Some r, ?u\<lparr>hist := hist ?u @ new\<rparr>)"
        and new: "sends fd (drop (nat ?n) left) len r new" by blast
      have "run_state (send_loop E fd left len) s = (Some r, s\<lparr>hist := hist s @ Sock (Sock_send fd left ?n) # new\<rparr>)"
        using more False le run by (simp add: send_loop.simps [of E fd left] sock_send_def)
      moreover have "sends fd left len r (Sock (Sock_send fd left ?n) # new)"
        by (rule sends_step [OF new]) (use False le in simp_all)
      ultimately show ?thesis by blast
    qed
  qed
qed

text \<open>
  C36. \<open>glue_send\<close> sends everything or fails: it always ends, after at most one call per byte; it
  returns the length exactly when all bytes went out, in order, and otherwise \<open>-1\<close> after a call that
  failed, when a proper prefix went out.
\<close>

theorem glue_send_all_or_error:
  assumes "send_law E" and "length buf < 2 ^ 31"
  shows "\<exists>r new. run_state (glue_send E fd buf) s = (Some r, s\<lparr>hist := hist s @ new\<rparr>) \<and>
    length new \<le> length buf \<and>
    ((r = int (length buf) \<and> sent fd new = buf) \<or>
     (r = - 1 \<and> (\<exists>k < length buf. sent fd new = take k buf) \<and>
       (\<exists>h d n. new = h @ [Sock (Sock_send fd d n)] \<and> n \<le> 0)))"
proof -
  have "sint (word_of_nat (length buf) :: u32) = int (length buf)"
    using assms(2) by (simp add: sint_uint uint_nat unat_of_nat signed_take_bit_int_eq_self)
  with send_loop_spec [OF assms(1), of fd buf "int (length buf)" s] show ?thesis
    by (simp add: glue_send_def sends_def)
qed

theorem glue_send_all_or_error_witness:
  "\<exists>r new. run_state (glue_send hs_sdk 3 [1, 2, 3]) toy_fw = (Some r, toy_fw\<lparr>hist := hist toy_fw @ new\<rparr>) \<and>
    (r = 3 \<or> r = - 1)"
proof -
  have "send_law hs_sdk" by (simp add: send_law_def hs_sdk_def toy_sdk_def toy_sock_def)
  from glue_send_all_or_error [OF this, of "[1, 2, 3]" 3 toy_fw] show ?thesis by auto
qed

lemma poll2_run:
  assumes "select_r (sock E) (max a b + 1) (filter ((\<le>) 0) [a, b]) (ms sdiv 1000)
    ((ms smod 1000) * 1000) (hist s) = (n, ready)" and "0 \<le> a \<or> 0 \<le> b"
  shows "run_state (glue_poll2 E a b ms) s =
    (if n < 0 then - 1
     else of_bool (0 \<le> a \<and> a \<in> set ready) + 2 * of_bool (0 \<le> b \<and> b \<in> set ready),
     s\<lparr>hist := hist s @ [Sock (Sock_select (max a b + 1) (filter ((\<le>) 0) [a, b]) (ms sdiv 1000)
       ((ms smod 1000) * 1000) n ready)]\<rparr>)"
  using assms
  by (cases "0 \<le> a"; cases "0 \<le> b"; cases "a < b")
    (auto simp: glue_poll2_def sock_select_def max_def)

text \<open>
  \<open>glue_poll2\<close> watches exactly the valid descriptors, for the whole timeout, and reports which of
  them are ready; without a valid descriptor it only waits.
\<close>

lemma poll2_reports_ready:
  assumes "run_state (glue_poll2 E a b ms) s = (r, t)" and "0 \<le> ms"
  shows "if a < 0 \<and> b < 0
    then r = 0 \<and> t = s\<lparr>hist := hist s @ [Sys (Delay_ms (unat (word_of_int ms :: u32)))]\<rparr>
    else \<exists>nfds fds sec usec n ready.
      t = s\<lparr>hist := hist s @ [Sock (Sock_select nfds fds sec usec n ready)]\<rparr> \<and>
      set fds = {x \<in> {a, b}. 0 \<le> x} \<and> (\<forall>x \<in> set fds. x < nfds) \<and>
      1000000 * sec + usec = 1000 * ms \<and> 0 \<le> usec \<and> usec < 1000000 \<and>
      r = (if n < 0 then - 1
           else of_bool (0 \<le> a \<and> a \<in> set ready) + 2 * of_bool (0 \<le> b \<and> b \<in> set ready))"
proof -
  have tv: "1000000 * (ms sdiv 1000) + ms smod 1000 * 1000 = 1000 * ms"
    using sdiv_mult_smod_eq [of ms 1000] by linarith
  have us: "0 \<le> ms smod 1000" "ms smod 1000 < 1000"
    using assms(2) by (cases "ms = 0"; simp add: smod_int_alt_def)+
  show ?thesis
  proof (cases "a < 0 \<and> b < 0")
    case True
    with assms(1) show ?thesis by (simp add: glue_poll2_def glue_delay_ms_def vTaskDelay_ms_def)
  next
    case False
    let ?fds = "filter ((\<le>) 0) [a, b]"
    let ?usec = "(ms smod 1000) * 1000"
    obtain n ready where sel: "select_r (sock E) (max a b + 1) ?fds (ms sdiv 1000) ?usec (hist s) = (n, ready)"
      by fastforce
    have "0 \<le> a \<or> 0 \<le> b" using False by auto
    from poll2_run [OF sel this] assms(1) have
      "t = s\<lparr>hist := hist s @ [Sock (Sock_select (max a b + 1) ?fds (ms sdiv 1000) ?usec n ready)]\<rparr> \<and>
       r = (if n < 0 then - 1
            else of_bool (0 \<le> a \<and> a \<in> set ready) + 2 * of_bool (0 \<le> b \<and> b \<in> set ready))"
      by (simp only: prod.inject)
    moreover have "set ?fds = {x \<in> {a, b}. 0 \<le> x}" "\<forall>x \<in> set ?fds. x < max a b + 1" by auto
    moreover have "0 \<le> ?usec" "?usec < 1000000" using us by auto
    ultimately show ?thesis using False tv by (simp only: if_False) blast
  qed
qed

end
