(* ===== verification/Bridge.thy ===== *)
theory Bridge
  imports Glue CLib
begin

text \<open>
  \<open>firmware/main/bridge.zig\<close>: the entry points the C files call. The tasks that move the bytes
  are in \<open>Tasks\<close>.
\<close>

section \<open>Definitions\<close>

abbreviation upd_stats :: "(bridge_stats \<Rightarrow> bridge_stats) \<Rightarrow> fw \<Rightarrow> fw" where
  "upd_stats f s \<equiv> s\<lparr>bridge := (bridge s)\<lparr>stats := f (stats (bridge s))\<rparr>\<rparr>"

definition stream_buffer_len :: nat where
  "stream_buffer_len = 16 * 1024"

definition bridge_start :: "sdk \<Rightarrow> unit outcome fwm" where
  "bridge_start E = do {
     b \<leftarrow> glue_sb_create E stream_buffer_len;
     modify (\<lambda>s. s\<lparr>bridge := (bridge s)\<lparr>sb := b\<rparr>\<rparr>);
     if b = None then glue_abort
     else do {
       sem \<leftarrow> glue_sem_create E;
       modify (\<lambda>s. s\<lparr>bridge := (bridge s)\<lparr>send_sem := sem\<rparr>\<rparr>);
       if sem = None then glue_abort
       else do {
         r \<leftarrow> glue_task_create E ''hci_rx'' 6144 12 1;
         if \<not> r then glue_abort
         else do {
           r \<leftarrow> glue_task_create E ''hci_tx'' 4096 12 1;
           if \<not> r then glue_abort else ret (Returned ())
         }
       }
     }
   }"

text \<open>A packet from the controller is queued whole or dropped and counted.\<close>

definition enqueue_packet :: "sdk \<Rightarrow> bytes \<Rightarrow> int fwm" where
  "enqueue_packet E data = do {
     b \<leftarrow> gets (\<lambda>s. sb (bridge s));
     (case b of
        None \<Rightarrow> ret 0
      | Some b \<Rightarrow> do {
          space \<leftarrow> glue_sb_space E b;
          if space < length data then do {
            modify (upd_stats (\<lambda>st. st\<lparr>dropped_overflow := dropped_overflow st + 1\<rparr>));
            ret 0
          } else do {
            n \<leftarrow> glue_sb_send E b data 0;
            modify (upd_stats (\<lambda>st. st\<lparr>to_host := to_host st + 1\<rparr>));
            ret 0
          }
        })
   }"

definition bridge_on_controller_packet :: "sdk \<Rightarrow> bytes \<Rightarrow> int fwm" where
  "bridge_on_controller_packet E data = do {
     client \<leftarrow> gets (\<lambda>s. client_fd (bridge s));
     if client < 0 then do {
       modify (upd_stats (\<lambda>st. st\<lparr>dropped_no_host := dropped_no_host st + 1\<rparr>));
       ret 0
     } else enqueue_packet E data
   }"

definition bridge_on_controller_send_available :: "unit fwm" where
  "bridge_on_controller_send_available = do {
     sem \<leftarrow> gets (\<lambda>s. send_sem (bridge s));
     (case sem of None \<Rightarrow> ret () | Some sem \<Rightarrow> glue_sem_give sem)
   }"

text \<open>The text of the counters; the buffer is made the empty string when it does not fit.\<close>

definition stats_text :: "bridge_state \<Rightarrow> bytes" where
  "stats_text b =
     (let s = stats b in
      str ''{\"to_controller\":'' @ fmt_u (unat (to_controller s)) @
      str '',\"to_host\":'' @ fmt_u (unat (to_host s)) @
      str '',\"connections\":'' @ fmt_u (unat (connections s)) @
      str '',\"connected\":'' @ str (if 0 \<le> client_fd b then ''true'' else ''false'') @
      str '',\"drop_no_host\":'' @ fmt_u (unat (dropped_no_host s)) @
      str '',\"drop_overflow\":'' @ fmt_u (unat (dropped_overflow s)) @
      str '',\"drop_stale\":'' @ fmt_u (unat (dropped_stale s)) @
      str '',\"drop_busy\":'' @ fmt_u (unat (dropped_controller_busy s)) @ str ''}'')"

definition bridge_stats_json :: "nat \<Rightarrow> bytes fwm" where
  "bridge_stats_json len = do {
     text \<leftarrow> gets (\<lambda>s. stats_text (bridge s));
     ret (if length text + 1 \<le> len then text else [])
   }"

section \<open>Facts\<close>

lemma fmt_u32_le: "length (fmt_u (unat (w :: u32))) \<le> 10"
  by (rule length_fmt_u_le) (use unsigned_less [of w, where ?'a = nat] in simp_all)

lemma stats_text_le: "length (stats_text b) \<le> 210"
proof -
  let ?s = "stats b"
  have "length (fmt_u (unat (to_controller ?s))) \<le> 10" "length (fmt_u (unat (to_host ?s))) \<le> 10"
    "length (fmt_u (unat (connections ?s))) \<le> 10" "length (fmt_u (unat (dropped_no_host ?s))) \<le> 10"
    "length (fmt_u (unat (dropped_overflow ?s))) \<le> 10" "length (fmt_u (unat (dropped_stale ?s))) \<le> 10"
    "length (fmt_u (unat (dropped_controller_busy ?s))) \<le> 10"
    by (rule fmt_u32_le)+
  then show ?thesis by (simp add: stats_text_def Let_def)
qed

end
