(* ===== verification/Boottrace.thy ===== *)
theory Boottrace
  imports Platform
begin

text \<open>
  \<open>firmware/main/boottrace.c\<close>: startup progress in memory that survives a reset. The magic word
  tells memory written by an earlier boot from the random contents after power-on.
\<close>

definition MAGIC :: u32 where
  "MAGIC = 0x42007ace"

definition boottrace_init :: "sdk \<Rightarrow> unit fwm" where
  "boottrace_init E = do {
     r \<leftarrow> esp_reset_reason E;
     modify (\<lambda>s. s\<lparr>s_reset := r\<rparr>);
     modify (\<lambda>s. s\<lparr>s_prev_stage := (if s_magic s = MAGIC then s_stage s else 0xffffffff)\<rparr>);
     modify (\<lambda>s. s\<lparr>s_magic := MAGIC\<rparr>);
     modify (\<lambda>s. s\<lparr>s_stage := 0\<rparr>)
   }"

definition boottrace_mark :: "u32 \<Rightarrow> unit fwm" where
  "boottrace_mark stage = modify (\<lambda>s. s\<lparr>s_stage := stage\<rparr>)"

definition boottrace_prev_stage :: "u32 fwm" where
  "boottrace_prev_stage = gets s_prev_stage"

definition boottrace_reset_reason :: "int fwm" where
  "boottrace_reset_reason = gets s_reset"

lemmas boottrace_defs [exec_simps] =
  boottrace_init_def boottrace_mark_def boottrace_prev_stage_def boottrace_reset_reason_def

end
