(* ===== verification/Ota.thy ===== *)
theory Ota
  imports Claim Bridge Boottrace
begin

text \<open>
  \<open>firmware/main/ota.c\<close>: the HTTP handlers (status, firmware update, reboot, claim, unclaim), the
  confirmation of a new image and the timer that rolls it back. A handler's result is the value it
  returns to the HTTP server, unless the board restarts inside it.
\<close>

section \<open>Definitions\<close>

definition OTA_MAX_RECV_TIMEOUTS :: nat where
  "OTA_MAX_RECV_TIMEOUTS = 6"

definition ROLLBACK_GRACE_US :: int where
  "ROLLBACK_GRACE_US = 5 * 60 * 1000000"

definition bdaddr_text :: "bytes \<Rightarrow> bytes" where
  "bdaddr_text mac =
     fmt_02x (mac ! 0) @ str '':'' @ fmt_02x (mac ! 1) @ str '':'' @ fmt_02x (mac ! 2) @ str '':'' @
     fmt_02x (mac ! 3) @ str '':'' @ fmt_02x (mac ! 4) @ str '':'' @ fmt_02x (mac ! 5)"

text \<open>
  The status document. The text is printed into 704 bytes but sent with its full length: a text of
  more than 704 bytes is read past the end of the array.
\<close>

definition status_text ::
  "sdk \<Rightarrow> kconfig \<Rightarrow> bytes \<Rightarrow> bool \<Rightarrow> bytes \<Rightarrow> int \<Rightarrow> u32 \<Rightarrow> int \<Rightarrow> u32 \<Rightarrow> bytes \<Rightarrow> bytes" where
  "status_text E c mac claimed nonce uptime prev_stage reset heap st =
     str ''{\"version\":\"'' @ cstr (app_version_r (sys E)) @
     str ''\",\"board\":\"'' @ BRIDGE_BOARD_ID c @
     str ''\",\"idf\":\"'' @ cstr (idf_ver_r (sys E)) @
     str ''\",\"partition\":\"'' @
       (case running_label_r (sys E) of None \<Rightarrow> str ''?'' | Some l \<Rightarrow> cstr l) @
     str ''\",\"bdaddr\":\"'' @ bdaddr_text mac @
     str ''\",\"claimed\":'' @ str (if claimed then ''true'' else ''false'') @
     str '',\"nonce\":\"'' @ nonce @
     str ''\",\"uptime_s\":'' @ fmt_d uptime @
     str '',\"prev_stage\":'' @ fmt_u (unat prev_stage) @
     str '',\"reset\":'' @ fmt_d reset @
     str '',\"free_heap\":'' @ fmt_u (unat heap) @
     str '',\"stats\":'' @ st @ str ''}'' @ [10]"

definition status_get :: "sdk \<Rightarrow> kconfig \<Rightarrow> esp_err fwm" where
  "status_get E c = do {
     boottrace_mark 10;
     (e, m) \<leftarrow> esp_read_mac E;
     st \<leftarrow> bridge_stats_json 256;
     (n, nonce) \<leftarrow> auth_nonce_hex 41;
     claimed \<leftarrow> auth_claimed;
     now \<leftarrow> esp_timer_get_time E;
     prev \<leftarrow> boottrace_prev_stage;
     reset \<leftarrow> boottrace_reset_reason;
     heap \<leftarrow> esp_get_free_heap_size E;
     let (n, body) = snprintf 704 (status_text E c m claimed nonce (now sdiv 1000000) prev reset heap st);
     httpd_resp_set_type ''application/json'';
     if 704 < n then do { notify (Http (Resp_overread n)); ret ESP_OK }
     else httpd_resp_send E (take n (body @ [0]))
   }"

definition get_header :: "sdk \<Rightarrow> string \<Rightarrow> nat \<Rightarrow> bytes option fwm" where
  "get_header E name outlen = do {
     n \<leftarrow> httpd_req_get_hdr_value_len E name;
     if n = 0 \<or> outlen < n + 1 then ret None
     else do {
       (e, v) \<leftarrow> httpd_req_get_hdr_value_str E name;
       ret (if e = ESP_OK then Some v else None)
     }
   }"

definition get_proofs :: "sdk \<Rightarrow> nat \<Rightarrow> (bytes \<times> bytes) option fwm" where
  "get_proofs E len = do {
     claimed \<leftarrow> auth_claimed;
     if \<not> claimed then ret None
     else do {
       a \<leftarrow> get_header E ''X-Bridge-Auth'' len;
       (case a of
          None \<Rightarrow> ret None
        | Some auth \<Rightarrow> do {
            p \<leftarrow> get_header E ''X-Bridge-Pre'' len;
            (case p of None \<Rightarrow> ret None | Some pre \<Rightarrow> ret (Some (auth, pre)))
          })
     }
   }"

definition reply_err :: "nat \<Rightarrow> bytes \<Rightarrow> esp_err outcome fwm" where
  "reply_err code msg = do { httpd_resp_send_err code msg; ret (Returned ESP_FAIL) }"

text \<open>The receive loop; false when it gave up, after which the handler returns.\<close>

definition upload_failed :: "nat \<Rightarrow> bytes \<Rightarrow> bool fwm" where
  "upload_failed code msg = do {
     esp_ota_abort;
     mbedtls_sha256_free;
     httpd_resp_send_err code msg;
     ret False
   }"

function ota_loop :: "sdk \<Rightarrow> int \<Rightarrow> nat \<Rightarrow> bool fwm" where
  "ota_loop E remaining timeouts =
     (if 0 < remaining then do {
        r \<leftarrow> httpd_req_recv E (nat (if remaining < 1024 then remaining else 1024));
        if rx_n r = HTTPD_SOCK_ERR_TIMEOUT then
          (if timeouts + 1 < OTA_MAX_RECV_TIMEOUTS then ota_loop E remaining (timeouts + 1)
           else upload_failed 408 (str ''upload stalled''))
        else if rx_n r \<le> 0 then upload_failed 400 (str ''upload interrupted'')
        else do {
          q \<leftarrow> mbedtls_sha256_update E (rx_data r);
          err \<leftarrow> esp_ota_write E (rx_data r);
          if err \<noteq> ESP_OK then upload_failed 500 (esp_err_to_name E err)
          else ota_loop E (remaining - rx_n r) 0
        }
      } else ret True)"
  by pat_completeness auto
termination
proof (relation "measures [\<lambda>(E, remaining, timeouts). nat remaining,
    \<lambda>(E, remaining, timeouts). OTA_MAX_RECV_TIMEOUTS - timeouts]")
qed (auto simp: not_le)

declare ota_loop.simps [simp del]

definition ota_finish :: "sdk \<Rightarrow> bytes \<Rightarrow> esp_err outcome fwm" where
  "ota_finish E auth = do {
     (q, digest) \<leftarrow> mbedtls_sha256_finish E;
     mbedtls_sha256_free;
     ok \<leftarrow> auth_check_http E (str ''POST'') (str ''/ota'') digest (Some auth);
     if \<not> ok then do { esp_ota_abort; reply_err 403 (str ''bad X-Bridge-Auth'') }
     else do {
       err \<leftarrow> esp_ota_end E;
       if err \<noteq> ESP_OK then reply_err 400 (esp_err_to_name E err)
       else do {
         err \<leftarrow> esp_ota_set_boot_partition E;
         if err \<noteq> ESP_OK then reply_err 500 (esp_err_to_name E err)
         else do {
           auth_nonce_bump;
           e \<leftarrow> httpd_resp_send E (str ''ok, rebooting'' @ [10]);
           vTaskDelay_ms 500;
           esp_restart;
           ret Restarted
         }
       }
     }
   }"

definition ota_upload :: "sdk \<Rightarrow> u32 \<Rightarrow> bytes \<Rightarrow> esp_err outcome fwm" where
  "ota_upload E content_len auth = do {
     err \<leftarrow> esp_ota_begin E;
     if err \<noteq> ESP_OK then reply_err 500 (esp_err_to_name E err)
     else do {
       mbedtls_sha256_init;
       q \<leftarrow> mbedtls_sha256_starts E;
       ok \<leftarrow> ota_loop E (sint content_len) 0;
       if \<not> ok then ret (Returned ESP_FAIL) else ota_finish E auth
     }
   }"

definition ota_post :: "sdk \<Rightarrow> u32 \<Rightarrow> esp_err outcome fwm" where
  "ota_post E content_len = do {
     proofs \<leftarrow> get_proofs E 80;
     (case proofs of
        None \<Rightarrow> reply_err 401 (str ''X-Bridge-Auth and X-Bridge-Pre required (claim the board first)'')
      | Some (auth, pre) \<Rightarrow> do {
          part \<leftarrow> esp_ota_get_next_update_partition E;
          (case part of
             None \<Rightarrow> reply_err 500 (str ''no ota partition'')
           | Some sz \<Rightarrow>
               if sz < content_len then reply_err 413 (str ''image larger than the ota partition'')
               else do {
                 ok \<leftarrow> auth_check_http_pre E (str ''POST'') (str ''/ota'') content_len (Some pre);
                 if \<not> ok then reply_err 403 (str ''bad X-Bridge-Pre'')
                 else ota_upload E content_len auth
               })
        })
   }"

text \<open>
  The guard \<open>reboot_post\<close> and \<open>unclaim_post\<close> share, with \<open>||\<close> evaluated from the left. The digest of
  the empty body is whatever the call leaves in the array; its error code is not looked at.
\<close>

definition empty_body_proved :: "sdk \<Rightarrow> bytes \<Rightarrow> bool fwm" where
  "empty_body_proved E path = do {
     (r, empty_sha) \<leftarrow> mbedtls_sha256 E [];
     proofs \<leftarrow> get_proofs E 80;
     (case proofs of
        None \<Rightarrow> ret False
      | Some (auth, pre) \<Rightarrow> do {
          ok \<leftarrow> auth_check_http_pre E (str ''POST'') path 0 (Some pre);
          if \<not> ok then ret False
          else auth_check_http E (str ''POST'') path empty_sha (Some auth)
        })
   }"

definition reboot_post :: "sdk \<Rightarrow> esp_err outcome fwm" where
  "reboot_post E = do {
     ok \<leftarrow> empty_body_proved E (str ''/reboot'');
     if \<not> ok then reply_err 403 (str ''bad or missing X-Bridge-Auth / X-Bridge-Pre'')
     else do {
       auth_nonce_bump;
       e \<leftarrow> httpd_resp_send E (str ''rebooting'' @ [10]);
       vTaskDelay_ms 300;
       esp_restart;
       ret Restarted
     }
   }"

definition unclaim_post :: "sdk \<Rightarrow> esp_err outcome fwm" where
  "unclaim_post E = do {
     ok \<leftarrow> empty_body_proved E (str ''/unclaim'');
     if \<not> ok then reply_err 403 (str ''bad or missing X-Bridge-Auth / X-Bridge-Pre'')
     else do {
       err \<leftarrow> auth_unclaim E;
       if err \<noteq> ESP_OK then reply_err 500 (str ''could not erase key'')
       else do {
         e \<leftarrow> httpd_resp_send E (str ''unclaimed, rebooting'' @ [10]);
         vTaskDelay_ms 300;
         esp_restart;
         ret Restarted
       }
     }
   }"

text \<open>
  \<open>sscanf(s, "%2x", &v)\<close> of newlib on the string before the terminating zero: white space is skipped
  outside the width, a sign counts towards it, and the prefix \<open>0x\<close> alone reads as zero.
\<close>

definition is_space :: "byte \<Rightarrow> bool" where
  "is_space c \<longleftrightarrow> c = 32 \<or> 9 \<le> c \<and> c \<le> 13"

definition scan_2x :: "bytes \<Rightarrow> u32 option" where
  "scan_2x s =
     (case dropWhile is_space s of
        [] \<Rightarrow> None
      | [c] \<Rightarrow> if 0 \<le> hex_val c then Some (word_of_int (hex_val c)) else None
      | c # d # _ \<Rightarrow>
          if 0 \<le> hex_val c then
            Some (word_of_int (if 0 \<le> hex_val d then hex_val c * 16 + hex_val d else hex_val c))
          else if (c = 43 \<or> c = 45) \<and> 0 \<le> hex_val d then
            Some (word_of_int (if c = 45 then - hex_val d else hex_val d))
          else None)"

fun parse_peer :: "bytes \<Rightarrow> nat list \<Rightarrow> bytes option" where
  "parse_peer body [] = Some []"
| "parse_peer body (i # is) =
     (case scan_2x (cstr (drop (2 * i) body)) of
        None \<Rightarrow> None
      | Some v \<Rightarrow> map_option ((#) (ucast v)) (parse_peer body is))"

definition claim_post :: "sdk \<Rightarrow> esp_err outcome fwm" where
  "claim_post E = do {
     claimed \<leftarrow> auth_claimed;
     if claimed then reply_err 403 (str ''already claimed; factory-reset to re-key'')
     else do {
       r \<leftarrow> httpd_req_recv E 79;
       if rx_n r < 64 then reply_err 400 (str ''expected 64 hex chars'')
       else
         (case parse_peer (take 64 (rx_data r)) [0..<32] of
            None \<Rightarrow> reply_err 400 (str ''bad hex'')
          | Some peer \<Rightarrow> do {
              (err, ours) \<leftarrow> auth_claim E peer;
              (case ours of
                 Some pub \<Rightarrow>
                   if err \<noteq> 0 then reply_err 500 (str ''claim failed'')
                   else do {
                     e \<leftarrow> httpd_resp_send E (concat (map fmt_02x pub) @ [10]);
                     ret (Returned e)
                   }
               | None \<Rightarrow> reply_err 500 (str ''claim failed''))
            })
     }
   }"

definition pending_verify :: "sdk \<Rightarrow> bool fwm" where
  "pending_verify E = do {
     (e, st) \<leftarrow> esp_ota_get_state_partition E;
     ret (e = ESP_OK \<and> st = IMG_PENDING_VERIFY)
   }"

definition rollback_timeout :: "sdk \<Rightarrow> unit outcome fwm" where
  "rollback_timeout E = do {
     p \<leftarrow> pending_verify E;
     if \<not> p then ret (Returned ())
     else do { esp_restart; ret Restarted }
   }"

definition ota_init :: "sdk \<Rightarrow> unit outcome fwm" where
  "ota_init E =
     and_then
       (do {
          p \<leftarrow> pending_verify E;
          if p then
            ESP_ERROR_CHECK (do { e \<leftarrow> esp_timer_create E;
                                  modify (\<lambda>s. s\<lparr>g_rollback_timer := e = ESP_OK\<rparr>);
                                  ret e })
            (ESP_ERROR_CHECK (esp_timer_start_once E ROLLBACK_GRACE_US) (ret (Returned ())))
          else ret (Returned ())
        })
     (\<lambda>_. ESP_ERROR_CHECK (httpd_start E)
          (ESP_ERROR_CHECK (httpd_register_uri_handler E ''/'' ''status_get'')
          (ESP_ERROR_CHECK (httpd_register_uri_handler E ''/ota'' ''ota_post'')
          (ESP_ERROR_CHECK (httpd_register_uri_handler E ''/reboot'' ''reboot_post'')
          (ESP_ERROR_CHECK (httpd_register_uri_handler E ''/claim'' ''claim_post'')
          (ESP_ERROR_CHECK (httpd_register_uri_handler E ''/unclaim'' ''unclaim_post'')
          (ret (Returned ()))))))))"

definition ota_confirm :: "sdk \<Rightarrow> unit fwm" where
  "ota_confirm E = do {
     p \<leftarrow> pending_verify E;
     (if p then do { e \<leftarrow> esp_ota_mark_app_valid_cancel_rollback E; ret () } else ret ());
     timer \<leftarrow> gets g_rollback_timer;
     (if timer then esp_timer_stop else ret ())
   }"

section \<open>The upload loop\<close>

text \<open>What a history says about an upload: the bytes flashed and digested.\<close>

definition flashed :: "history \<Rightarrow> bytes" where
  "flashed h = concat (map (\<lambda>e. case e of Ota (Ota_write d r) \<Rightarrow> if r = ESP_OK then d else []
                               | _ \<Rightarrow> []) h)"

definition digested :: "history \<Rightarrow> bytes" where
  "digested h = concat (map (\<lambda>e. case e of Crypto (Sha_update d q) \<Rightarrow> d | _ \<Rightarrow> []) h)"

lemma upload_simps [simp]:
  "flashed [] = []" "digested [] = []" "body_of [] = []"
  "flashed (Http x # h) = flashed h" "flashed (Crypto y # h) = flashed h"
  "flashed (Ota (Ota_write d ESP_OK) # h) = d @ flashed h"
  "flashed (Ota (Next_update_partition p) # h) = flashed h" "flashed (Ota (Ota_begin e) # h) = flashed h"
  "flashed (Ota (Ota_end e) # h) = flashed h" "flashed (Ota (Ota_set_boot e) # h) = flashed h"
  "flashed (Sys q # h) = flashed h"
  "digested (Http x # h) = digested h" "digested (Crypto (Sha_update d j) # h) = d @ digested h"
  "digested (Ota z # h) = digested h" "digested (Crypto Sha_free # h) = digested h"
  "body_of (Http (Req_recv n r) # h) = rx_data r @ body_of h" "body_of (Crypto y # h) = body_of h"
  "body_of (Ota z # h) = body_of h"
  by (simp_all add: flashed_def digested_def body_of_def)

lemma upload_append [simp]:
  "flashed (g @ h) = flashed g @ flashed h" "digested (g @ h) = digested g @ digested h"
  "body_of (g @ h) = body_of g @ body_of h"
  by (simp_all add: flashed_def digested_def body_of_def)

text \<open>
  The traces of the loop with \<open>remaining\<close> bytes to go: reads that bring nothing, chunks that are
  digested and flashed, and at the end either nothing left, or an aborted update and an answer to
  the client.
\<close>

inductive upload_trace :: "bool \<Rightarrow> int \<Rightarrow> history \<Rightarrow> bool" where
  up_done: "remaining \<le> 0 \<Longrightarrow> upload_trace True remaining []"
| up_retry: "rx_data r = [] \<Longrightarrow> upload_trace ok remaining h \<Longrightarrow>
    upload_trace ok remaining (Http (Req_recv n r) # h)"
| up_chunk: "rx_data r = d \<Longrightarrow> int n \<le> remaining \<Longrightarrow> upload_trace ok (remaining - int (length d)) h \<Longrightarrow>
    upload_trace ok remaining
      (Http (Req_recv n r) # Crypto (Sha_update d q) # Ota (Ota_write d ESP_OK) # h)"
| up_lost: "rx_data r = [] \<Longrightarrow> upload_trace False remaining
    [Http (Req_recv n r), Ota Ota_abort, Crypto Sha_free, Http (Resp_err code msg)]"
| up_bad_write: "e \<noteq> ESP_OK \<Longrightarrow> upload_trace False remaining
    [Http (Req_recv n r), Crypto (Sha_update d q), Ota (Ota_write d e),
     Ota Ota_abort, Crypto Sha_free, Http (Resp_err code msg)]"

text \<open>Every read stayed within the bound it was given.\<close>

definition reads_bounded :: "history \<Rightarrow> bool" where
  "reads_bounded h \<longleftrightarrow> (\<forall>n r. Http (Req_recv n r) \<in> set h \<longrightarrow> length (rx_data r) \<le> n)"

lemma reads_bounded_Nil [simp]: "reads_bounded []"
  by (simp add: reads_bounded_def)

lemma reads_bounded_Cons [simp]:
  "reads_bounded (Http (Req_recv n r) # h) \<longleftrightarrow> length (rx_data r) \<le> n \<and> reads_bounded h"
  "reads_bounded (Crypto c # h) = reads_bounded h" "reads_bounded (Ota x # h) = reads_bounded h"
  "reads_bounded (Http (Resp_err code msg) # h) = reads_bounded h"
  by (auto simp: reads_bounded_def)

text \<open>No call of the digest failed.\<close>

definition digest_ok :: "history \<Rightarrow> bool" where
  "digest_ok h \<longleftrightarrow> (\<forall>d q. Crypto (Sha_update d q) \<in> set h \<longrightarrow> q = 0)"

lemma digest_ok_simps [simp]:
  "digest_ok []" "digest_ok (Crypto (Sha_update d q) # h) \<longleftrightarrow> q = 0 \<and> digest_ok h"
  "digest_ok (Crypto Sha_free # h) = digest_ok h" "digest_ok (Http x # h) = digest_ok h"
  "digest_ok (Ota y # h) = digest_ok h"
  by (auto simp: digest_ok_def)

lemma rx_none: "rx_n r \<le> 0 \<Longrightarrow> rx_data r = []"
  by (cases r) auto

lemma rx_some: "\<not> rx_n r \<le> 0 \<Longrightarrow> rx_n r = int (length (rx_data r))"
  by (cases r) auto

text \<open>One turn of the loop.\<close>

lemma ota_loop_step:
  assumes "0 < remaining"
  obtains (again) n r where "rx_n r = HTTPD_SOCK_ERR_TIMEOUT" and "k + 1 < OTA_MAX_RECV_TIMEOUTS"
      and "recv_law E \<longrightarrow> length (rx_data r) \<le> n"
      and "run_state (ota_loop E remaining k) s =
        run_state (ota_loop E remaining (k + 1)) (s\<lparr>hist := hist s @ [Http (Req_recv n r)]\<rparr>)"
  | (lost) n r code msg where "rx_data r = []"
      and "run_state (ota_loop E remaining k) s = (False, s\<lparr>hist := hist s @
        [Http (Req_recv n r), Ota Ota_abort, Crypto Sha_free, Http (Resp_err code msg)]\<rparr>)"
      and "if rx_n r = HTTPD_SOCK_ERR_TIMEOUT
        then \<not> k + 1 < OTA_MAX_RECV_TIMEOUTS \<and> code = 408 \<and> msg = str ''upload stalled'' else code = 400"
  | (bad_write) n r d q e code msg where "e \<noteq> ESP_OK" and "rx_data r = d"
      and "recv_law E \<longrightarrow> length (rx_data r) \<le> n"
      and "run_state (ota_loop E remaining k) s = (False, s\<lparr>hist := hist s @
        [Http (Req_recv n r), Crypto (Sha_update d q), Ota (Ota_write d e),
         Ota Ota_abort, Crypto Sha_free, Http (Resp_err code msg)]\<rparr>)"
      and "sha_ok E \<longrightarrow> q = 0" and "rx_n r \<noteq> HTTPD_SOCK_ERR_TIMEOUT" and "code = 500"
  | (chunk) n r d q where "rx_n r \<noteq> HTTPD_SOCK_ERR_TIMEOUT" and "\<not> rx_n r \<le> 0" and "rx_data r = d"
      and "rx_n r = int (length d)" and "int n \<le> remaining" and "recv_law E \<longrightarrow> length d \<le> n"
      and "run_state (ota_loop E remaining k) s = run_state (ota_loop E (remaining - rx_n r) 0)
        (s\<lparr>hist := hist s @ [Http (Req_recv n r), Crypto (Sha_update d q), Ota (Ota_write d ESP_OK)]\<rparr>)"
      and "sha_ok E \<longrightarrow> q = 0"
proof -
  let ?n = "nat (if remaining < 1024 then remaining else 1024)"
  let ?r = "req_recv_r (http E) ?n (hist s)"
  let ?d = "rx_data ?r"
  let ?q = "sha_update_r (crypto E) ?d (hist s @ [Http (Req_recv ?n ?r)])"
  let ?e = "ota_write_r (ota E) ?d (hist s @ [Http (Req_recv ?n ?r), Crypto (Sha_update ?d ?q)])"
  have sha: "sha_ok E \<longrightarrow> ?q = 0" by (simp add: sha_ok_def)
  have fits: "recv_law E \<longrightarrow> length ?d \<le> ?n" by (simp add: recv_law_def)
  note unfold = ota_loop.simps [of E remaining k] platform_calls upload_failed_def
  consider (again') "rx_n ?r = - 3" "k + 1 < OTA_MAX_RECV_TIMEOUTS"
    | (lost') "rx_n ?r \<le> 0" "\<not> (rx_n ?r = - 3 \<and> k + 1 < OTA_MAX_RECV_TIMEOUTS)"
    | (bad') "\<not> rx_n ?r \<le> 0" "rx_n ?r \<noteq> - 3" "?e \<noteq> ESP_OK"
    | (got') "\<not> rx_n ?r \<le> 0" "rx_n ?r \<noteq> - 3" "?e = ESP_OK" by linarith
  then show thesis
  proof cases
    case again'
    with assms show thesis by (intro again [OF _ _ fits]) (simp_all add: unfold)
  next
    case lost'
    let ?msg = "if rx_n ?r = - 3 then (408, str ''upload stalled'') else (400, str ''upload interrupted'')"
    have "run_state (ota_loop E remaining k) s = (False, s\<lparr>hist := hist s @
        [Http (Req_recv ?n ?r), Ota Ota_abort, Crypto Sha_free, Http (Resp_err (fst ?msg) (snd ?msg))]\<rparr>)"
      using assms lost' by (simp add: unfold)
    then show thesis by (rule lost [OF rx_none [OF lost'(1)]]) (use lost'(2) in simp)
  next
    case bad'
    with assms have "run_state (ota_loop E remaining k) s = (False, s\<lparr>hist := hist s @
        [Http (Req_recv ?n ?r), Crypto (Sha_update ?d ?q), Ota (Ota_write ?d ?e),
         Ota Ota_abort, Crypto Sha_free, Http (Resp_err 500 (esp_err_to_name E ?e))]\<rparr>)"
      by (simp add: unfold)
    then show thesis by (rule bad_write [OF bad'(3) refl fits _ sha bad'(2) refl])
  next
    case got'
    with assms have "run_state (ota_loop E remaining k) s = run_state (ota_loop E (remaining - rx_n ?r) 0)
        (s\<lparr>hist := hist s @ [Http (Req_recv ?n ?r), Crypto (Sha_update ?d ?q), Ota (Ota_write ?d ESP_OK)]\<rparr>)"
      by (simp add: unfold)
    moreover have "int ?n \<le> remaining" using assms by simp
    ultimately show thesis by (intro chunk [OF got'(2,1) refl rx_some [OF got'(1)] _ fits _ sha])
  qed
qed

lemma ota_loop_trace:
  "\<exists>new. snd (run_state (ota_loop E remaining k) s) = s\<lparr>hist := hist s @ new\<rparr> \<and>
    upload_trace (fst (run_state (ota_loop E remaining k) s)) remaining new \<and>
    (recv_law E \<longrightarrow> reads_bounded new) \<and> (sha_ok E \<longrightarrow> digest_ok new)"
proof (induction E remaining k arbitrary: s rule: ota_loop.induct)
  case (1 E remaining k)
  show ?case
  proof (cases "0 < remaining")
    case False
    then show ?thesis by (intro exI [of _ "[]"]) (simp add: ota_loop.simps up_done)
  next
    case more: True
    then show ?thesis
    proof (cases rule: ota_loop_step [of remaining k E s])
      case (again n r)
      let ?u = "s\<lparr>hist := hist s @ [Http (Req_recv n r)]\<rparr>"
      from "1.IH"(1) [OF more again(1,2), of ?u] obtain new where
        new: "snd (run_state (ota_loop E remaining (k + 1)) ?u) = ?u\<lparr>hist := hist ?u @ new\<rparr>"
        "upload_trace (fst (run_state (ota_loop E remaining (k + 1)) ?u)) remaining new"
        "recv_law E \<longrightarrow> reads_bounded new" "sha_ok E \<longrightarrow> digest_ok new" by blast
      have "rx_data r = []" using again by (intro rx_none) simp
      from this up_retry [OF this new(2)] new(1,3,4) show ?thesis
        unfolding again(4) by (intro exI [of _ "Http (Req_recv n r) # new"]) simp
    next
      case (lost n r code msg)
      show ?thesis
        unfolding lost(2) using up_lost [OF lost(1)] lost(1)
        by (intro exI [of _ "[Http (Req_recv n r), Ota Ota_abort, Crypto Sha_free,
          Http (Resp_err code msg)]"]) simp
    next
      case (bad_write n r d q e code msg)
      show ?thesis
        unfolding bad_write(4) using up_bad_write [OF bad_write(1)] bad_write(3,5)
        by (intro exI [of _ "[Http (Req_recv n r), Crypto (Sha_update d q), Ota (Ota_write d e),
          Ota Ota_abort, Crypto Sha_free, Http (Resp_err code msg)]"]) simp
    next
      case (chunk n r d q)
      let ?v = "s\<lparr>hist := hist s @ [Http (Req_recv n r), Crypto (Sha_update d q), Ota (Ota_write d ESP_OK)]\<rparr>"
      from "1.IH"(2) [OF more chunk(1,2), of ESP_OK ?v] obtain new where
        new: "snd (run_state (ota_loop E (remaining - rx_n r) 0) ?v) = ?v\<lparr>hist := hist ?v @ new\<rparr>"
        "upload_trace (fst (run_state (ota_loop E (remaining - rx_n r) 0) ?v)) (remaining - rx_n r) new"
        "recv_law E \<longrightarrow> reads_bounded new" "sha_ok E \<longrightarrow> digest_ok new" by auto
      with up_chunk [OF chunk(3,5) new(2) [unfolded chunk(4)]] chunk(3,4,6,8) show ?thesis
        unfolding chunk(7)
        by (intro exI [of _ "Http (Req_recv n r) # Crypto (Sha_update d q) # Ota (Ota_write d ESP_OK) # new"])
          simp
    qed
  qed
qed

lemma upload_complete:
  assumes "upload_trace ok remaining h" and ok
  shows "flashed h = body_of h" and "digested h = body_of h"
    and "remaining \<le> int (length (body_of h))"
  using assms by (induction rule: upload_trace.induct) auto

text \<open>Bounded reads deliver exactly the bytes that were announced.\<close>

lemma upload_exact:
  assumes "upload_trace ok remaining h" and ok and "0 \<le> remaining" and "reads_bounded h"
  shows "int (length (body_of h)) = remaining"
  using assms
proof (induction rule: upload_trace.induct)
  case (up_chunk r d n remaining ok h q)
  then have "length d \<le> n" by (auto simp: reads_bounded_def)
  moreover have "reads_bounded h" using up_chunk.prems by (auto simp: reads_bounded_def)
  ultimately show ?case using up_chunk by simp
qed (auto simp: reads_bounded_def)

text \<open>Events that touch the flash, and the end of an update session.\<close>

definition flash_event :: "event \<Rightarrow> bool" where
  "flash_event e \<longleftrightarrow> (\<exists>x d. e = Ota (Ota_begin x) \<or> e = Ota (Ota_write d x) \<or> e = Ota Ota_abort \<or>
     e = Ota (Ota_end x) \<or> e = Ota (Ota_set_boot x))"

definition session_opened :: "history \<Rightarrow> nat" where
  "session_opened h = length (filter (\<lambda>e. e = Ota (Ota_begin ESP_OK)) h)"

definition session_closed :: "history \<Rightarrow> nat" where
  "session_closed h = length (filter (\<lambda>e. e = Ota Ota_abort \<or> (\<exists>r. e = Ota (Ota_end r))) h)"

lemma session_simps [simp]:
  "session_opened [] = 0" "session_closed [] = 0"
  "session_opened (g @ h) = session_opened g + session_opened h"
  "session_closed (g @ h) = session_closed g + session_closed h"
  "session_opened (e # h) = of_bool (e = Ota (Ota_begin ESP_OK)) + session_opened h"
  "session_closed (e # h) = of_bool (e = Ota Ota_abort \<or> (\<exists>r. e = Ota (Ota_end r))) + session_closed h"
  by (simp_all add: session_opened_def session_closed_def)

lemma session_none:
  "(\<forall>e \<in> set h. \<not> flash_event e) \<Longrightarrow> session_opened h = 0 \<and> session_closed h = 0"
  by (induction h) (auto simp: flash_event_def)

lemma upload_session:
  "upload_trace ok remaining h \<Longrightarrow> session_opened h = 0 \<and> session_closed h = of_bool (\<not> ok)"
  by (induction rule: upload_trace.induct) auto

lemma upload_no_boot: "upload_trace ok remaining h \<Longrightarrow> Ota (Ota_set_boot e) \<notin> set h"
  by (induction rule: upload_trace.induct) auto

lemma upload_answers:
  assumes "upload_trace ok remaining h" and "\<not> ok"
  obtains g code msg where "h = g @ [Http (Resp_err code msg)]"
proof -
  from assms have "h \<noteq> [] \<and> (\<exists>code msg. last h = Http (Resp_err code msg))"
    by (induction rule: upload_trace.induct) auto
  then show thesis using that by (metis append_butlast_last_id)
qed

section \<open>The handlers step by step\<close>

definition ask_events :: "event set" where
  "ask_events = md_events \<union> {e. (\<exists>k n. e = Http (Hdr_len k n)) \<or> (\<exists>k r v. e = Http (Hdr_str k r v)) \<or>
     (\<exists>p. e = Ota (Next_update_partition p))}"

lemma ask_not_flash: "e \<in> ask_events \<Longrightarrow> \<not> flash_event e"
  by (auto simp: ask_events_def md_events_def flash_event_def)

lemma ask_no_upload: "set h \<subseteq> ask_events \<Longrightarrow> flashed h = [] \<and> body_of h = []"
  by (induction h) (auto simp: ask_events_def md_events_def flashed_def body_of_def)

lemma get_proofs_some:
  assumes "run_state (get_proofs E len) s = (Some (auth, pre), t)"
  obtains new where "t = s\<lparr>hist := hist s @ new\<rparr>" and "g_claimed s" and "set new \<subseteq> ask_events"
    and "Http (Hdr_str ''X-Bridge-Auth'' ESP_OK auth) \<in> set new"
    and "Http (Hdr_str ''X-Bridge-Pre'' ESP_OK pre) \<in> set new"
  using assms
  by (auto simp: get_proofs_def get_header_def auth_claimed_def platform_calls ask_events_def
      split: if_splits option.splits prod.splits)

lemma emits_get_proofs [frame_intros]: "emits ask_events (get_proofs E len)"
  unfolding get_proofs_def get_header_def auth_claimed_def platform_calls
  by (intro frame_intros) (auto simp: ask_events_def split: prod.splits)

text \<open>The last part of an update, from the digest on.\<close>

lemma ota_finish_cases:
  assumes "run_state (ota_finish E auth) s = (r, t)"
  obtains (bad_auth) q dg md msg where "r = Returned ESP_FAIL" and "set md \<subseteq> md_events"
      and "t = s\<lparr>hist := hist s @ [Crypto (Sha_finish q dg), Crypto Sha_free] @ md @
        [Ota Ota_abort, Http (Resp_err 403 msg)]\<rparr>"
  | (failed) q dg md u z e code msg where "r = Returned ESP_FAIL" and "set md \<subseteq> md_events"
      and "dg = arr 32 (snd (sha_finish_r (crypto E) (hist s)))"
      and "run_state (auth_check_http E (str ''POST'') (str ''/ota'') dg (Some auth))
        (s\<lparr>hist := hist s @ [Crypto (Sha_finish q dg), Crypto Sha_free]\<rparr>) = (True, u)"
      and "z = [Ota (Ota_end e)] \<and> e \<noteq> ESP_OK \<or>
        z = [Ota (Ota_end ESP_OK), Ota (Ota_set_boot e)] \<and> e \<noteq> ESP_OK"
      and "t = s\<lparr>hist := hist s @ [Crypto (Sha_finish q dg), Crypto Sha_free] @ md @ z @
        [Http (Resp_err code msg)]\<rparr>"
  | (activated) q dg md u e where "r = Restarted" and "set md \<subseteq> md_events"
      and "dg = arr 32 (snd (sha_finish_r (crypto E) (hist s)))"
      and "run_state (auth_check_http E (str ''POST'') (str ''/ota'') dg (Some auth))
        (s\<lparr>hist := hist s @ [Crypto (Sha_finish q dg), Crypto Sha_free]\<rparr>) = (True, u)"
      and "t = s\<lparr>g_http_counter := g_http_counter s + 1, hist := hist s @
        [Crypto (Sha_finish q dg), Crypto Sha_free] @ md @ [Ota (Ota_end ESP_OK),
         Ota (Ota_set_boot ESP_OK), Http (Resp_send (str ''ok, rebooting'' @ [10]) e),
         Sys (Delay_ms 500), Sys Esp_restart]\<rparr>"
proof -
  let ?q = "fst (sha_finish_r (crypto E) (hist s))" and ?dg = "arr 32 (snd (sha_finish_r (crypto E) (hist s)))"
  let ?s1 = "s\<lparr>hist := hist s @ [Crypto (Sha_finish ?q ?dg), Crypto Sha_free]\<rparr>"
  obtain ok u where u: "run_state (auth_check_http E (str ''POST'') (str ''/ota'') ?dg (Some auth)) ?s1 = (ok, u)"
    by fastforce
  obtain md where md: "u = ?s1\<lparr>hist := hist ?s1 @ md\<rparr>" "set md \<subseteq> md_events"
    using emits_auth_check_http u by (rule emitsE)
  let ?e1 = "ota_end_r (ota E) (hist u)"
  let ?e2 = "ota_set_boot_r (ota E) (hist u @ [Ota (Ota_end ESP_OK)])"
  note run = assms [unfolded ota_finish_def platform_calls reply_err_def auth_nonce_bump_def split_beta]
  consider "\<not> ok" | "ok" "?e1 \<noteq> ESP_OK" | "ok" "?e1 = ESP_OK" "?e2 \<noteq> ESP_OK"
    | "ok" "?e1 = ESP_OK" "?e2 = ESP_OK" by blast
  then show thesis
  proof cases
    case 1
    with run u have "r = Returned ESP_FAIL" "t = u\<lparr>hist := hist u @
        [Ota Ota_abort, Http (Resp_err 403 (str ''bad X-Bridge-Auth''))]\<rparr>" by auto
    with md show thesis by (intro bad_auth) simp_all
  next
    case 2
    with run u have "r = Returned ESP_FAIL" "t = u\<lparr>hist := hist u @
        [Ota (Ota_end ?e1), Http (Resp_err 400 (esp_err_to_name E ?e1))]\<rparr>" by auto
    with 2 u md show thesis by (intro failed [OF _ md(2) refl, of ?q u "[Ota (Ota_end ?e1)]" ?e1]) simp_all
  next
    case 3
    with run u have "r = Returned ESP_FAIL" "t = u\<lparr>hist := hist u @
        [Ota (Ota_end ESP_OK), Ota (Ota_set_boot ?e2), Http (Resp_err 500 (esp_err_to_name E ?e2))]\<rparr>" by auto
    with 3 u md show thesis
      by (intro failed [OF _ md(2) refl, of ?q u "[Ota (Ota_end ESP_OK), Ota (Ota_set_boot ?e2)]" ?e2]) simp_all
  next
    case 4
    let ?h = "hist u @ [Ota (Ota_end ESP_OK), Ota (Ota_set_boot ESP_OK)]"
    let ?e3 = "resp_send_r (http E) (str ''ok, rebooting'' @ [10]) ?h"
    from 4 run u have "r = Restarted" "t = u\<lparr>g_http_counter := g_http_counter u + 1,
        hist := ?h @ [Http (Resp_send (str ''ok, rebooting'' @ [10]) ?e3), Sys (Delay_ms 500), Sys Esp_restart]\<rparr>"
      by auto
    with 4 u md show thesis by (intro activated [OF _ md(2) refl]) simp_all
  qed
qed

lemma ota_upload_cases:
  assumes "run_state (ota_upload E len auth) s = (r, t)"
  obtains (refused) e code msg where "r = Returned ESP_FAIL" and "e \<noteq> ESP_OK"
      and "t = s\<lparr>hist := hist s @ [Ota (Ota_begin e), Http (Resp_err code msg)]\<rparr>"
  | (aborted) q up where "r = Returned ESP_FAIL" and "upload_trace False (sint len) up"
      and "t = s\<lparr>hist := hist s @ [Ota (Ota_begin ESP_OK), Crypto Sha_init, Crypto (Sha_starts q)] @ up\<rparr>"
  | (received) q up u where "upload_trace True (sint len) up" and "recv_law E \<longrightarrow> reads_bounded up"
      and "u = s\<lparr>hist := hist s @ [Ota (Ota_begin ESP_OK), Crypto Sha_init, Crypto (Sha_starts q)] @ up\<rparr>"
      and "run_state (ota_finish E auth) u = (r, t)" and "sha_ok E \<longrightarrow> q = 0 \<and> digest_ok up"
proof -
  let ?e = "ota_begin_r (ota E) (hist s)"
  let ?q = "sha_starts_r (crypto E) (hist s @ [Ota (Ota_begin ?e), Crypto Sha_init])"
  let ?s1 = "s\<lparr>hist := hist s @ [Ota (Ota_begin ?e), Crypto Sha_init, Crypto (Sha_starts ?q)]\<rparr>"
  have q: "sha_ok E \<longrightarrow> ?q = 0" by (simp add: sha_ok_def)
  note run = assms [unfolded ota_upload_def platform_calls reply_err_def]
  obtain ok u where u: "run_state (ota_loop E (sint len) 0) ?s1 = (ok, u)" by fastforce
  from ota_loop_trace [of E "sint len" 0 ?s1] u obtain up where
    up: "u = ?s1\<lparr>hist := hist ?s1 @ up\<rparr>" "upload_trace ok (sint len) up"
      "recv_law E \<longrightarrow> reads_bounded up" "sha_ok E \<longrightarrow> digest_ok up" by auto
  consider "?e \<noteq> ESP_OK" | "?e = ESP_OK" "\<not> ok" | "?e = ESP_OK" "ok" by blast
  then show thesis
  proof cases
    case 1
    with run show thesis by (intro refused [of ?e]) auto
  next
    case 2
    with run u have "r = Returned ESP_FAIL" "t = u" by auto
    with 2 up show thesis by (intro aborted) simp_all
  next
    case 3
    with run u have "run_state (ota_finish E auth) u = (r, t)" by auto
    with 3 up q show thesis by (intro received) auto
  qed
qed

lemma ota_post_cases:
  assumes "run_state (ota_post E len) s = (r, t)"
  obtains (refused) new code msg where "r = Returned ESP_FAIL" and "set new \<subseteq> ask_events"
      and "t = s\<lparr>hist := hist s @ new @ [Http (Resp_err code msg)]\<rparr>"
  | (admitted) auth pre sz a b u v where "g_claimed s" and "len \<le> sz" and "set (a @ b) \<subseteq> ask_events"
      and "Http (Hdr_str ''X-Bridge-Auth'' ESP_OK auth) \<in> set a"
      and "Http (Hdr_str ''X-Bridge-Pre'' ESP_OK pre) \<in> set a"
      and "Ota (Next_update_partition (Some sz)) \<in> set a"
      and "u = s\<lparr>hist := hist s @ a\<rparr>"
      and "run_state (auth_check_http_pre E (str ''POST'') (str ''/ota'') len (Some pre)) u = (True, v)"
      and "v = s\<lparr>hist := hist s @ a @ b\<rparr>" and "run_state (ota_upload E len auth) v = (r, t)"
proof -
  note run = assms [unfolded ota_post_def reply_err_def]
  obtain m u where m: "run_state (get_proofs E 80) s = (m, u)" by fastforce
  obtain hs where hs: "u = s\<lparr>hist := hist s @ hs\<rparr>" "set hs \<subseteq> ask_events"
    using emits_get_proofs m by (rule emitsE)
  show thesis
  proof (cases m)
    case None
    with run m hs show thesis by (intro refused [of hs]) (auto simp: platform_calls)
  next
    case (Some ap)
    obtain auth pre where ap: "ap = (auth, pre)" by fastforce
    with Some m have m': "run_state (get_proofs E 80) s = (Some (auth, pre), u)" by simp
    let ?part = "next_update_partition_r (ota E) (hist u)"
    let ?a = "hs @ [Ota (Next_update_partition ?part)]"
    let ?u = "s\<lparr>hist := hist s @ ?a\<rparr>"
    have a: "set ?a \<subseteq> ask_events" using hs(2) by (auto simp: ask_events_def)
    show thesis
    proof (cases "\<exists>sz. ?part = Some sz \<and> len \<le> sz")
      case False
      with run m' hs(1) obtain code msg where
        "r = Returned ESP_FAIL" "t = s\<lparr>hist := hist s @ ?a @ [Http (Resp_err code msg)]\<rparr>"
        by (cases ?part) (auto simp: platform_calls not_le)
      with a show thesis by (intro refused)
    next
      case True
      then obtain sz where sz: "?part = Some sz" "len \<le> sz" by blast
      obtain ok v where v: "run_state (auth_check_http_pre E (str ''POST'') (str ''/ota'') len (Some pre)) ?u = (ok, v)"
        by fastforce
      obtain md where md: "v = ?u\<lparr>hist := hist ?u @ md\<rparr>" "set md \<subseteq> md_events"
        using emits_auth_check_http_pre v by (rule emitsE)
      have ab: "set (?a @ md) \<subseteq> ask_events" using a md(2) by (auto simp: ask_events_def)
      have rest: "run_state (if \<not> ok then do { httpd_resp_send_err 403 (str ''bad X-Bridge-Pre''); ret (Returned ESP_FAIL) }
          else ota_upload E len auth) v = (r, t)"
        using run m' hs(1) sz v
        by (simp add: esp_ota_get_next_update_partition_def linorder_not_less [THEN iffD2])
      show thesis
      proof (cases ok)
        case False
        with rest md(1) show thesis by (intro refused [OF _ ab]) (auto simp: platform_calls)
      next
        case True
        from m' obtain new where new: "u = s\<lparr>hist := hist s @ new\<rparr>" "g_claimed s"
          "Http (Hdr_str ''X-Bridge-Auth'' ESP_OK auth) \<in> set new"
          "Http (Hdr_str ''X-Bridge-Pre'' ESP_OK pre) \<in> set new"
          by (rule get_proofs_some)
        have "new = hs" using new(1) hs(1) by simp
        with new sz md True v rest ab show thesis
          by (intro admitted [of sz ?a md auth pre ?u v]) simp_all
      qed
    qed
  qed
qed

section \<open>An update that succeeds\<close>

lemma sha_stream_digested:
  "upload_trace ok remaining h \<Longrightarrow> digest_ok h \<Longrightarrow> foldl sha_feed (Some d) h = Some (d @ digested h)"
  by (induction arbitrary: d rule: upload_trace.induct) simp_all

lemma upload_digest:
  "upload_trace ok remaining up \<Longrightarrow> digest_ok up \<Longrightarrow>
   sha_stream (h @ [Ota b, Crypto Sha_init, Crypto (Sha_starts 0)] @ up) = Some (digested up)"
  using sha_stream_digested [of ok remaining up "[]"] by (simp add: sha_stream_def)

lemma sha_finish_stream:
  assumes "sha_law E sha" and "sha_stream h = Some d"
  shows "arr 32 (snd (sha_finish_r (crypto E) h)) = sha d"
  using assms unfolding sha_law_def sha_ok_def by (metis prod.collapse)

text \<open>No call of the update interface fails.\<close>

definition ota_ok :: "sdk \<Rightarrow> bool" where
  "ota_ok E \<longleftrightarrow> (\<forall>h. ota_begin_r (ota E) h = ESP_OK \<and> (\<forall>d. ota_write_r (ota E) d h = ESP_OK) \<and>
     ota_end_r (ota E) h = ESP_OK \<and> ota_set_boot_r (ota E) h = ESP_OK)"

lemma ota_loop_complete:
  assumes "delivers (req_recv_r (http E)) body_of base body" and "ota_ok E"
    and "body_of (hist s) = base @ got" and "body = got @ rest"
  shows "\<exists>t. run_state (ota_loop E (int (length rest)) k) s = (True, t) \<and>
    body_of (hist t) = base @ body"
  using assms(3,4)
proof (induction "length rest" arbitrary: s got rest k rule: less_induct)
  case less
  show ?case
  proof (cases "rest = []")
    case True
    with less.prems show ?thesis by (simp add: ota_loop.simps)
  next
    case False
    let ?n = "nat (if int (length rest) < 1024 then int (length rest) else 1024)"
    have "0 < ?n" using False by simp
    with assms(1) less.prems False obtain j where j: "0 < j"
        "req_recv_r (http E) ?n (hist s) = Rx (take j rest)"
      unfolding delivers_def by blast
    let ?d = "take j rest"
    let ?q = "sha_update_r (crypto E) ?d (hist s @ [Http (Req_recv ?n (Rx ?d))])"
    let ?v = "s\<lparr>hist := hist s @ [Http (Req_recv ?n (Rx ?d)), Crypto (Sha_update ?d ?q), Ota (Ota_write ?d ESP_OK)]\<rparr>"
    have d: "?d \<noteq> []" using j(1) False by simp
    have "run_state (ota_loop E (int (length rest)) k) s = run_state (ota_loop E (int (length rest) - int (length ?d)) 0) ?v"
      using False d j(2) assms(2)
      by (simp add: ota_loop.simps [of E "int (length rest)"] platform_calls ota_ok_def del: length_take)
    also have "int (length rest) - int (length ?d) = int (length (drop j rest))" by simp
    finally show ?thesis
      using less.hyps [of "drop j rest" ?v "got @ ?d" 0] less.prems j(1) False by simp
  qed
qed

lemma ota_finish_complete:
  assumes "md_ok E" and "hmac_law E hm" and "ota_ok E" and "g_claimed s"
    and "proves hm (g_psk s) auth (http_msg (str ''POST'') (str ''/ota'') (http_nonce s)
      (arr 32 (snd (sha_finish_r (crypto E) (hist s)))))"
  shows "fst (run_state (ota_finish E auth) s) = Restarted"
proof -
  let ?dg = "arr 32 (snd (sha_finish_r (crypto E) (hist s)))"
  let ?s1 = "s\<lparr>hist := hist s @ [Crypto (Sha_finish (fst (sha_finish_r (crypto E) (hist s))) ?dg), Crypto Sha_free]\<rparr>"
  have "fst (run_state (auth_check_http E (str ''POST'') (str ''/ota'') ?dg (Some auth)) ?s1)"
    by (rule auth_check_http_complete [OF assms(1,2)]) (use assms in \<open>simp_all add: http_nonce_def\<close>)
  then obtain u where "run_state (auth_check_http E (str ''POST'') (str ''/ota'') ?dg (Some auth)) ?s1 = (True, u)"
    by (metis prod.collapse)
  then show ?thesis
    using assms(3) by (simp add: ota_finish_def platform_calls ota_ok_def auth_nonce_bump_def split_beta)
qed

lemma flashed_md: "set h \<subseteq> md_events \<Longrightarrow> flashed h = []"
  by (induction h) (auto simp: md_events_def)

text \<open>What the handler does once the image is written and proved.\<close>

definition activation :: "esp_err \<Rightarrow> history" where
  "activation e = [Ota (Ota_end ESP_OK), Ota (Ota_set_boot ESP_OK),
     Http (Resp_send (str ''ok, rebooting'' @ [10]) e), Sys (Delay_ms 500), Sys Esp_restart]"

lemma ota_upload_complete:
  assumes "md_ok E" and "hmac_law E hm" and "sha_law E sha" and "ota_ok E" and "g_claimed s"
    and "delivers (req_recv_r (http E)) body_of (body_of (hist s)) body"
    and "int (length body) = sint len"
    and "proves hm (g_psk s) auth (http_msg (str ''POST'') (str ''/ota'') (http_nonce s) (sha body))"
  shows "\<exists>t new e. run_state (ota_upload E len auth) s = (Restarted, t) \<and>
    hist t = hist s @ new @ activation e \<and> flashed new = body"
proof -
  have sha: "sha_ok E" using assms(3) by (simp add: sha_law_def)
  let ?s1 = "s\<lparr>hist := hist s @ [Ota (Ota_begin ESP_OK), Crypto Sha_init, Crypto (Sha_starts 0)]\<rparr>"
  have "body_of (hist ?s1) = body_of (hist s) @ []" by simp
  from ota_loop_complete [OF assms(6,4) this, of body 0] obtain u where
    loop: "run_state (ota_loop E (sint len) 0) ?s1 = (True, u)"
    and body: "body_of (hist u) = body_of (hist s) @ body" using assms(7) by auto
  from ota_loop_trace [of E "sint len" 0 ?s1] loop sha obtain up where
    up: "u = ?s1\<lparr>hist := hist ?s1 @ up\<rparr>" "upload_trace True (sint len) up" "digest_ok up" by auto
  have whole: "digested up = body" "flashed up = body"
    using upload_complete [OF up(2)] body up(1) by simp_all
  then have "arr 32 (snd (sha_finish_r (crypto E) (hist u))) = sha body"
    using sha_finish_stream [OF assms(3)] upload_digest [OF up(2,3), of "hist s"] up(1) by simp
  then have "fst (run_state (ota_finish E auth) u) = Restarted"
    by (intro ota_finish_complete [OF assms(1,2,4)]) (use assms(5,8) up(1) in \<open>simp_all add: http_nonce_def\<close>)
  then obtain t where fin: "run_state (ota_finish E auth) u = (Restarted, t)" by (metis prod.collapse)
  from fin obtain z e where "hist t = hist u @ z @ activation e" "flashed z = []"
    by (cases rule: ota_finish_cases) (auto simp: flashed_md activation_def intro: that [of "_ # _ # _"])
  moreover have "run_state (ota_upload E len auth) s = (Restarted, t)"
    using loop fin assms(4) sha by (simp add: ota_upload_def platform_calls ota_ok_def sha_ok_def)
  ultimately show ?thesis
    using up(1) whole(2)
    by (intro exI [of _ t] exI [of _ "[Ota (Ota_begin ESP_OK), Crypto Sha_init, Crypto (Sha_starts 0)] @ up @ z"]
        exI [of _ e]) simp
qed

text \<open>The request carries the two proof headers.\<close>

definition sends_headers :: "sdk \<Rightarrow> bytes \<Rightarrow> bytes \<Rightarrow> bool" where
  "sends_headers E auth pre \<longleftrightarrow>
     (\<forall>h. 0 < hdr_len_r (http E) ''X-Bridge-Auth'' h \<and> hdr_len_r (http E) ''X-Bridge-Auth'' h < 80 \<and>
        0 < hdr_len_r (http E) ''X-Bridge-Pre'' h \<and> hdr_len_r (http E) ''X-Bridge-Pre'' h < 80 \<and>
        hdr_str_r (http E) ''X-Bridge-Auth'' h = (ESP_OK, auth) \<and>
        hdr_str_r (http E) ''X-Bridge-Pre'' h = (ESP_OK, pre))"

lemma get_proofs_complete:
  assumes "sends_headers E auth pre" and "g_claimed s"
  shows "\<exists>t. run_state (get_proofs E 80) s = (Some (auth, pre), t)"
proof -
  have len: "hdr_len_r (http E) k h \<noteq> 0" "\<not> 80 < hdr_len_r (http E) k h + 1"
    if "k = ''X-Bridge-Auth'' \<or> k = ''X-Bridge-Pre''" for k h
    using assms(1) that unfolding sends_headers_def by (metis less_irrefl not_less_eq Suc_eq_plus1)+
  show ?thesis
    using assms len [of "''X-Bridge-Auth''"] len [of "''X-Bridge-Pre''"]
    by (simp add: get_proofs_def get_header_def auth_claimed_def platform_calls sends_headers_def)
qed

lemma ota_post_complete:
  assumes "md_ok E" and "hmac_law E hm" and "sha_law E sha" and "ota_ok E" and "g_claimed s"
    and "sends_headers E auth pre"
    and "delivers (req_recv_r (http E)) body_of (body_of (hist s)) body"
    and "int (length body) = sint len"
    and "\<And>h. \<exists>sz. next_update_partition_r (ota E) h = Some sz \<and> len \<le> sz"
    and "proves hm (g_psk s) auth (http_msg (str ''POST'') (str ''/ota'') (http_nonce s) (sha body))"
    and "proves hm (g_psk s) pre (pre_msg (str ''POST'') (str ''/ota'') (http_nonce s) len)"
  shows "\<exists>t new e. run_state (ota_post E len) s = (Restarted, t) \<and> hist t = hist s @ new @ activation e \<and>
    flashed new = body"
proof -
  from get_proofs_complete [OF assms(6,5)] obtain u where
    u: "run_state (get_proofs E 80) s = (Some (auth, pre), u)" by blast
  from u obtain hs where hs: "u = s\<lparr>hist := hist s @ hs\<rparr>" "set hs \<subseteq> ask_events"
    by (rule get_proofs_some)
  obtain sz where sz: "next_update_partition_r (ota E) (hist u) = Some sz" "\<not> sz < len"
    using assms(9) [of "hist u"] by auto
  let ?u = "u\<lparr>hist := hist u @ [Ota (Next_update_partition (Some sz))]\<rparr>"
  have "fst (run_state (auth_check_http_pre E (str ''POST'') (str ''/ota'') len (Some pre)) ?u)"
    by (rule auth_check_http_pre_complete [OF assms(1,2)]) (use assms(5,11) hs in \<open>simp_all add: http_nonce_def\<close>)
  then obtain v where v: "run_state (auth_check_http_pre E (str ''POST'') (str ''/ota'') len (Some pre)) ?u = (True, v)"
    by (metis prod.collapse)
  obtain md where md: "v = ?u\<lparr>hist := hist ?u @ md\<rparr>" "set md \<subseteq> md_events"
    using emits_auth_check_http_pre v by (rule emitsE)
  have "set md \<subseteq> ask_events" using md(2) by (auto simp: ask_events_def)
  then have none: "flashed (hs @ Ota (Next_update_partition (Some sz)) # md) = []"
      "body_of (hist v) = body_of (hist s)"
    using md(1) hs ask_no_upload [of md] ask_no_upload [of hs] by simp_all
  then have "\<exists>t new e. run_state (ota_upload E len auth) v = (Restarted, t) \<and>
      hist t = hist v @ new @ activation e \<and> flashed new = body"
    by (intro ota_upload_complete [OF assms(1-4)])
      (use assms(5,7,8,10) md(1) hs(1) in \<open>simp_all add: http_nonce_def\<close>)
  then obtain t new e where t: "run_state (ota_upload E len auth) v = (Restarted, t)"
      "hist t = hist v @ new @ activation e" "flashed new = body" by blast
  have "run_state (ota_post E len) s = (Restarted, t)"
    using u sz v t by (simp add: ota_post_def esp_ota_get_next_update_partition_def)
  with t none(1) md(1) hs(1) show ?thesis
    by (intro exI [of _ t] exI [of _ "(hs @ Ota (Next_update_partition (Some sz)) # md) @ new"] exI [of _ e]) simp
qed

section \<open>Properties of the update\<close>

lemma sint_small: "uint (w :: u32) < 2 ^ 31 \<Longrightarrow> sint w = uint w"
  unfolding sint_uint
proof (rule signed_take_bit_int_eq_self)
  have "0 \<le> uint w" by simp
  then show "- (2 ^ (LENGTH(32) - Suc 0)) \<le> uint w" by (rule order_trans [rotated]) simp
qed simp

lemma pre_nonce [simp]: "http_nonce (s\<lparr>hist := h\<rparr>) = http_nonce s"
  by (simp add: http_nonce_def)

text \<open>
  C8. An upload without the key never touches the flash: if anything of the update partition is
  opened, written, aborted or activated, the board was claimed and the request carried a proof,
  under the board's key and the current nonce, of exactly this content length, which fits the
  partition.
\<close>

theorem flash_needs_proof:
  assumes "hmac_law E hm" and "run_state (ota_post E len) s = (r, t)"
  shows "\<exists>new. hist t = hist s @ new \<and> (\<forall>e \<in> set new. flash_event e \<longrightarrow> g_claimed s \<and>
    (\<exists>pre sz. Http (Hdr_str ''X-Bridge-Pre'' ESP_OK pre) \<in> set new \<and>
      Ota (Next_update_partition (Some sz)) \<in> set new \<and> len \<le> sz \<and>
      proves hm (g_psk s) pre (pre_msg (str ''POST'') (str ''/ota'') (http_nonce s) len)))"
  using assms(2)
proof (cases rule: ota_post_cases)
  case (refused new code msg)
  then have "\<not> flash_event e" if "e \<in> set (new @ [Http (Resp_err code msg)])" for e
    using that ask_not_flash by (auto simp: flash_event_def)
  with refused show ?thesis by (intro exI [of _ "new @ [Http (Resp_err code msg)]"]) auto
next
  case (admitted auth pre sz a b u v)
  have p: "proves hm (g_psk s) pre (pre_msg (str ''POST'') (str ''/ota'') (http_nonce s) len)"
    using auth_check_http_pre_sound [OF admitted(8) assms(1)] admitted(7) by simp
  have "\<exists>z. hist t = hist v @ z"
    using admitted(10)
  proof (cases rule: ota_upload_cases)
    case (received up w)
    from received(4) show ?thesis by (cases rule: ota_finish_cases) (use received in auto)
  qed auto
  then obtain z where "hist t = hist s @ (a @ b @ z)" using admitted(9) by auto
  with p admitted show ?thesis by (intro exI [of _ "a @ b @ z"]) (simp, blast)
qed

lemma demo_ota_ok: "ota_ok demo_sdk"
  by (simp add: ota_ok_def demo_sdk_def toy_sdk_def toy_ota_def)

lemma demo_headers_length: "length (demo_headers k) = 64"
  by (simp add: demo_headers_def)

lemma demo_sends_headers:
  "sends_headers demo_sdk (demo_headers ''X-Bridge-Auth'' @ [0]) (demo_headers ''X-Bridge-Pre'' @ [0])"
  by (simp add: sends_headers_def demo_sdk_def toy_sdk_def toy_http_def demo_headers_length)

lemma unhex_loop_append:
  "(\<forall>i \<in> set is. 2 * i + 1 < length h) \<Longrightarrow> unhex_loop (h @ x) is = unhex_loop h is"
  by (induction "is") (simp_all add: nth_append Let_def)

lemma proves_append_0: "proves hm k h m \<Longrightarrow> length h = 64 \<Longrightarrow> proves hm k (h @ [0]) m"
  by (simp add: proves_def unhex_def unhex_loop_append)

lemma demo_proofs:
  "proves toy_mac (g_psk toy_fw) (demo_headers ''X-Bridge-Auth'' @ [0])
     (http_msg (str ''POST'') (str ''/ota'') (http_nonce toy_fw) (toy_sha [1, 2, 3]))"
  "proves toy_mac (g_psk toy_fw) (demo_headers ''X-Bridge-Pre'' @ [0])
     (pre_msg (str ''POST'') (str ''/ota'') (http_nonce toy_fw) 3)"
  by (rule proves_append_0; simp add: demo_headers_def proves_hexlify)+

lemma demo_update: "\<exists>t new e. run_state (ota_post demo_sdk 3) toy_fw = (Restarted, t) \<and>
  hist t = hist toy_fw @ new @ activation e \<and> flashed new = [1, 2, 3]"
proof (rule ota_post_complete [OF demo_laws(2,1,3) demo_ota_ok _ demo_sends_headers])
  show "delivers (req_recv_r (http demo_sdk)) body_of (body_of (hist toy_fw)) [1, 2, 3]"
    unfolding toy_fw_def boot_fw_def
    by (simp, rule deliversI) (simp add: demo_sdk_def toy_sdk_def toy_http_def)
  show "\<exists>sz. next_update_partition_r (ota demo_sdk) h = Some sz \<and> 3 \<le> sz" for h
    by (simp add: demo_sdk_def toy_sdk_def toy_ota_def)
qed (simp_all add: demo_proofs, simp add: toy_fw_def)

theorem flash_needs_proof_witness:
  "\<exists>t new pre. run_state (ota_post demo_sdk 3) toy_fw = (Restarted, t) \<and> hist t = hist toy_fw @ new \<and>
    (\<forall>e \<in> set new. flash_event e \<longrightarrow> (\<exists>pre.
      proves toy_mac (g_psk toy_fw) pre (pre_msg (str ''POST'') (str ''/ota'') (http_nonce toy_fw) 3)))"
proof -
  obtain t where rt: "run_state (ota_post demo_sdk 3) toy_fw = (Restarted, t)"
    using demo_update by blast
  from flash_needs_proof [OF demo_laws(1) rt] rt show ?thesis by blast
qed

text \<open>The history up to the last byte of an upload that was received completely.\<close>

lemma received_upload:
  fixes len :: u32
  assumes up: "upload_trace True (sint len) up" and "reads_bounded up" and "digest_ok up" and len: "uint len < 2 ^ 31"
    and ask: "set a \<subseteq> ask_events"
    and h: "h = a @ [Ota (Ota_begin ESP_OK), Crypto Sha_init, Crypto (Sha_starts 0)] @ up"
  shows "flashed h = body_of h" and "length (flashed h) = unat len"
    and "sha_stream (g @ h) = Some (flashed h)" and "Ota (Ota_set_boot x) \<notin> set h"
proof -
  have none: "flashed h = flashed up" "body_of h = body_of up"
    using ask_no_upload [OF ask] by (simp_all add: h)
  have whole: "flashed up = body_of up" "digested up = body_of up"
    using upload_complete [OF up] by simp_all
  then show "flashed h = body_of h" using none by simp
  have sint: "sint len = uint len" using len by (rule sint_small)
  have "int (length (body_of up)) = sint len"
    by (rule upload_exact [OF up TrueI _ assms(2)]) (simp only: sint, simp)
  then have "nat (int (length (flashed h))) = nat (uint len)"
    unfolding none whole sint by (rule arg_cong)
  then show "length (flashed h) = unat len" by simp
  show "sha_stream (g @ h) = Some (flashed h)"
    using upload_digest [OF up assms(3), of "g @ a"] none whole by (simp add: h)
  show "Ota (Ota_set_boot x) \<notin> set h"
    using upload_no_boot [OF up] ask by (auto simp: h ask_events_def md_events_def)
qed

text \<open>
  C7. Only an authenticated image is activated. If the boot partition is set or the board restarts,
  the request carried a proof of the digest of exactly the bytes that were flashed; these are the
  bytes received, as many as announced, and the activation comes after the last of them.
\<close>

theorem activation_needs_proof:
  assumes law: "hmac_law E hm" "sha_law E sha" "recv_law E"
    and run: "run_state (ota_post E len) s = (r, t)" and len: "uint len < 2 ^ 31"
    and boot: "r = Restarted \<or> Ota (Ota_set_boot e) \<in> set (drop (length (hist s)) (hist t))"
  shows "\<exists>auth up fin. hist t = hist s @ up @ fin \<and>
    Http (Hdr_str ''X-Bridge-Auth'' ESP_OK auth) \<in> set up \<and>
    proves hm (g_psk s) auth (http_msg (str ''POST'') (str ''/ota'') (http_nonce s) (sha (flashed up))) \<and>
    flashed up = body_of up \<and> length (flashed up) = unat len \<and>
    (\<forall>d x. Ota (Ota_write d x) \<notin> set fin) \<and> (\<forall>x. Ota (Ota_set_boot x) \<notin> set up)"
  using run
proof (cases rule: ota_post_cases)
  case (refused new code msg)
  with boot have "Ota (Ota_set_boot e) \<in> ask_events" by auto
  then show ?thesis by (simp add: ask_events_def md_events_def)
next
  case (admitted auth pre sz a b u v)
  have sha: "sha_ok E" using law(2) by (simp add: sha_law_def)
  from admitted(10) boot admitted(3,9) sha obtain up w where
    w: "upload_trace True (sint len) up" "recv_law E \<longrightarrow> reads_bounded up"
      "w = v\<lparr>hist := hist v @ [Ota (Ota_begin ESP_OK), Crypto Sha_init, Crypto (Sha_starts 0)] @ up\<rparr>"
      "run_state (ota_finish E auth) w = (r, t)" "digest_ok up"
    by (cases rule: ota_upload_cases) (auto simp: ask_events_def md_events_def dest: upload_no_boot)
  define h where "h = (a @ b) @ [Ota (Ota_begin ESP_OK), Crypto Sha_init, Crypto (Sha_starts 0)] @ up"
  note up = received_upload [OF w(1) w(2) [rule_format, OF law(3)] w(5) len admitted(3) h_def]
  have hist: "w = s\<lparr>hist := hist s @ h\<rparr>" using w(3) admitted(9) by (simp add: h_def)
  have digest: "arr 32 (snd (sha_finish_r (crypto E) (hist w))) = sha (flashed h)"
    using sha_finish_stream [OF law(2) up(3) [of "hist s"]] hist by simp
  have "\<exists>x g fin. hist t = hist s @ h @ fin \<and> (\<forall>d x. Ota (Ota_write d x) \<notin> set fin) \<and>
      run_state (auth_check_http E (str ''POST'') (str ''/ota'') (sha (flashed h)) (Some auth))
        (s\<lparr>hist := g\<rparr>) = (True, x)"
    using w(4)
  proof (cases rule: ota_finish_cases)
    case (bad_auth q dg md msg)
    with boot hist up(4) show ?thesis by (auto simp: md_events_def)
  next
    case (failed q dg md x z e code msg)
    with hist digest show ?thesis
      by (intro exI [of _ x] exI exI [of _ "[Crypto (Sha_finish q dg), Crypto Sha_free] @ md @ z @ [Http (Resp_err code msg)]"])
        (auto simp: md_events_def)
  next
    case (activated q dg md x e)
    then show ?thesis
      using hist digest by (intro exI [of _ x] exI exI [of _ "_ @ _"] conjI) (auto simp: md_events_def)
  qed
  then obtain x g fin where fin: "hist t = hist s @ h @ fin" "\<forall>d x. Ota (Ota_write d x) \<notin> set fin"
    and ok: "run_state (auth_check_http E (str ''POST'') (str ''/ota'') (sha (flashed h)) (Some auth))
        (s\<lparr>hist := g\<rparr>) = (True, x)" by blast
  have "Http (Hdr_str ''X-Bridge-Auth'' ESP_OK auth) \<in> set h" using admitted(4) by (simp add: h_def)
  moreover have "proves hm (g_psk s) auth (http_msg (str ''POST'') (str ''/ota'') (http_nonce s) (sha (flashed h)))"
    using auth_check_http_sound [OF ok law(1)] by simp
  ultimately show ?thesis using fin up(1,2,4) by blast
qed

theorem activation_needs_proof_witness:
  "\<exists>t auth up fin. run_state (ota_post demo_sdk 3) toy_fw = (Restarted, t) \<and>
    hist t = hist toy_fw @ up @ fin \<and> length (flashed up) = 3 \<and>
    proves toy_mac (g_psk toy_fw) auth
      (http_msg (str ''POST'') (str ''/ota'') (http_nonce toy_fw) (toy_sha (flashed up)))"
proof -
  obtain t where rt: "run_state (ota_post demo_sdk 3) toy_fw = (Restarted, t)"
    using demo_update by blast
  have "\<exists>auth up fin. hist t = hist toy_fw @ up @ fin \<and>
    Http (Hdr_str ''X-Bridge-Auth'' ESP_OK auth) \<in> set up \<and>
    proves toy_mac (g_psk toy_fw) auth
      (http_msg (str ''POST'') (str ''/ota'') (http_nonce toy_fw) (toy_sha (flashed up))) \<and>
    flashed up = body_of up \<and> length (flashed up) = unat (3 :: u32) \<and>
    (\<forall>d x. Ota (Ota_write d x) \<notin> set fin) \<and> (\<forall>x. Ota (Ota_set_boot x) \<notin> set up)"
    by (rule activation_needs_proof [OF demo_laws(1,3,5) rt]) simp_all
  moreover have "unat (3 :: u32) = 3" by simp
  ultimately show ?thesis using rt by metis
qed

text \<open>
  C15. Every update session that is opened is closed again, exactly once, by an abort or an end; the
  handler answers the client in every case; the nonce advances exactly when the update was
  installed, and no other variable changes.
\<close>

theorem update_session_closed:
  assumes "run_state (ota_post E len) s = (r, t)"
  shows "\<exists>new. hist t = hist s @ new \<and> session_closed new = session_opened new \<and>
    session_opened new \<le> 1 \<and>
    (r = Returned ESP_FAIL \<and> t = s\<lparr>hist := hist t\<rparr> \<and> (\<exists>h code msg. new = h @ [Http (Resp_err code msg)]) \<or>
     r = Restarted \<and> t = s\<lparr>g_http_counter := g_http_counter s + 1, hist := hist t\<rparr> \<and>
       (\<exists>h e. new = h @ [Ota (Ota_set_boot ESP_OK), Http (Resp_send (str ''ok, rebooting'' @ [10]) e),
         Sys (Delay_ms 500), Sys Esp_restart]))"
  using assms
proof (cases rule: ota_post_cases)
  case (refused new code msg)
  have "session_opened new = 0 \<and> session_closed new = 0"
    using refused(2) ask_not_flash by (intro session_none) blast
  with refused show ?thesis by (intro exI [of _ "new @ [Http (Resp_err code msg)]"]) auto
next
  case (admitted auth pre sz a b u v)
  have ab: "session_opened (a @ b) = 0 \<and> session_closed (a @ b) = 0"
    using admitted(3) ask_not_flash by (intro session_none) blast
  from admitted(10) show ?thesis
  proof (cases rule: ota_upload_cases)
    case (refused e code msg)
    with ab admitted(9) show ?thesis
      by (intro exI [of _ "a @ b @ [Ota (Ota_begin e), Http (Resp_err code msg)]"]) auto
  next
    case (aborted q up)
    from upload_answers [OF aborted(2)] obtain g code msg where
      g: "up = g @ [Http (Resp_err code msg)]" by auto
    with ab admitted(9) aborted upload_session [OF aborted(2)] show ?thesis
      by (intro exI [of _ "a @ b @ [Ota (Ota_begin ESP_OK), Crypto Sha_init, Crypto (Sha_starts q)] @ up"])
        auto
  next
    case (received q up w)
    note up = upload_session [OF received(1)]
    have md: "set md \<subseteq> md_events \<Longrightarrow> session_opened md = 0 \<and> session_closed md = 0" for md
      by (rule session_none) (auto simp: md_events_def flash_event_def)
    let ?h = "a @ b @ [Ota (Ota_begin ESP_OK), Crypto Sha_init, Crypto (Sha_starts q)] @ up"
    from received(4) show ?thesis
    proof (cases rule: ota_finish_cases)
      case (bad_auth q' dg m msg)
      with md [OF bad_auth(2)] ab up received(3) admitted(9) show ?thesis
        by (intro exI [of _ "?h @ [Crypto (Sha_finish q' dg), Crypto Sha_free] @ m @
          [Ota Ota_abort, Http (Resp_err 403 msg)]"]) auto
    next
      case (failed q' dg m x z e code msg)
      with md [OF failed(2)] ab up received(3) admitted(9) show ?thesis
        by (intro exI [of _ "?h @ [Crypto (Sha_finish q' dg), Crypto Sha_free] @ m @ z @
          [Http (Resp_err code msg)]"]) auto
    next
      case (activated q' dg m x e)
      with md [OF activated(2)] ab up received(3) admitted(9) show ?thesis
        by (intro exI [of _ "?h @ [Crypto (Sha_finish q' dg), Crypto Sha_free] @ m @
          [Ota (Ota_end ESP_OK), Ota (Ota_set_boot ESP_OK),
           Http (Resp_send (str ''ok, rebooting'' @ [10]) e), Sys (Delay_ms 500), Sys Esp_restart]"]) auto
    qed
  qed
qed

theorem update_session_closed_witness:
  "\<exists>t new. run_state (ota_post demo_sdk 3) toy_fw = (Restarted, t) \<and> hist t = hist toy_fw @ new \<and>
    session_closed new = session_opened new \<and>
    t = toy_fw\<lparr>g_http_counter := g_http_counter toy_fw + 1, hist := hist t\<rparr>"
proof -
  obtain t where rt: "run_state (ota_post demo_sdk 3) toy_fw = (Restarted, t)"
    using demo_update by blast
  from update_session_closed [OF rt] rt show ?thesis by auto
qed

text \<open>
  C13. A valid update is installed: with both proofs right, a body of the announced length that
  arrives in pieces of any size, and a flash that works, the handler flashes exactly that body, then
  ends the update, makes the new image the one to boot, answers the client and restarts the board.
\<close>

theorem valid_update_installed:
  assumes "md_ok E" and "hmac_law E hm" and "sha_law E sha" and "ota_ok E" and "g_claimed s"
    and "sends_headers E auth pre"
    and "delivers (req_recv_r (http E)) body_of (body_of (hist s)) body"
    and "int (length body) = sint len"
    and "\<And>h. \<exists>sz. next_update_partition_r (ota E) h = Some sz \<and> len \<le> sz"
    and "proves hm (g_psk s) auth (http_msg (str ''POST'') (str ''/ota'') (http_nonce s) (sha body))"
    and "proves hm (g_psk s) pre (pre_msg (str ''POST'') (str ''/ota'') (http_nonce s) len)"
  shows "\<exists>t new e. run_state (ota_post E len) s = (Restarted, t) \<and>
    hist t = hist s @ new @ [Ota (Ota_end ESP_OK), Ota (Ota_set_boot ESP_OK),
      Http (Resp_send (str ''ok, rebooting'' @ [10]) e), Sys (Delay_ms 500), Sys Esp_restart] \<and>
    flashed new = body"
  using ota_post_complete [OF assms] unfolding activation_def .

theorem valid_update_installed_witness:
  "\<exists>t new e. run_state (ota_post demo_sdk 3) toy_fw = (Restarted, t) \<and>
    hist t = hist toy_fw @ new @ [Ota (Ota_end ESP_OK), Ota (Ota_set_boot ESP_OK),
      Http (Resp_send (str ''ok, rebooting'' @ [10]) e), Sys (Delay_ms 500), Sys Esp_restart] \<and>
    flashed new = [1, 2, 3]"
proof (rule valid_update_installed [OF demo_laws(2,1,3) demo_ota_ok _ demo_sends_headers])
  show "delivers (req_recv_r (http demo_sdk)) body_of (body_of (hist toy_fw)) [1, 2, 3]"
    unfolding toy_fw_def boot_fw_def
    by (simp, rule deliversI) (simp add: demo_sdk_def toy_sdk_def toy_http_def)
  show "\<exists>sz. next_update_partition_r (ota demo_sdk) h = Some sz \<and> 3 \<le> sz" for h
    by (simp add: demo_sdk_def toy_sdk_def toy_ota_def)
qed (simp_all add: demo_proofs, simp add: toy_fw_def)

end
