(* ===== verification/Requests.thy ===== *)
theory Requests
  imports Ota
begin

text \<open>
  What the other handlers of \<open>firmware/main/ota.c\<close> promise: reboot, unclaim, claim and status
  requests, uploads that stall, and the confirmation or roll back of a new image.
\<close>

section \<open>Reboot and unclaim\<close>

definition guard_events :: "event set" where
  "guard_events = ask_events \<union> {Crypto (Sha256 d r out) | d r out. True}"

lemma md_ask: "md_events \<subseteq> guard_events" "ask_events \<subseteq> guard_events"
  by (auto simp: guard_events_def ask_events_def)

lemma emits_empty_body_proved [frame_intros]: "emits guard_events (empty_body_proved E path)"
  unfolding empty_body_proved_def mbedtls_sha256_def
  by (intro frame_intros emits_mono [OF emits_get_proofs] emits_mono [OF emits_auth_check_http]
      emits_mono [OF emits_auth_check_http_pre] md_ask)
    (auto simp: guard_events_def split: prod.splits)

text \<open>What an accepted request without a body has proved.\<close>

definition proved_empty ::
  "sdk \<Rightarrow> (bytes \<Rightarrow> bytes \<Rightarrow> bytes) \<Rightarrow> (bytes \<Rightarrow> bytes) \<Rightarrow> bytes \<Rightarrow> fw \<Rightarrow> history \<Rightarrow> bool" where
  "proved_empty E hm sha path s new \<longleftrightarrow> g_claimed s \<and>
     (\<exists>auth pre dg. Http (Hdr_str ''X-Bridge-Auth'' ESP_OK auth) \<in> set new \<and>
        Http (Hdr_str ''X-Bridge-Pre'' ESP_OK pre) \<in> set new \<and>
        (fst (sha256_r (crypto E) [] (hist s)) = 0 \<longrightarrow> dg = sha []) \<and>
        proves hm (g_psk s) auth (http_msg (str ''POST'') path (http_nonce s) dg) \<and>
        proves hm (g_psk s) pre (pre_msg (str ''POST'') path (http_nonce s) 0))"

lemma proved_empty_append: "proved_empty E hm sha path s new \<Longrightarrow> proved_empty E hm sha path s (new @ z)"
  by (auto simp: proved_empty_def)

lemma empty_body_proved_sound:
  assumes "run_state (empty_body_proved E path) s = (True, t)" and law: "hmac_law E hm" "sha_law E sha"
  obtains new where "t = s\<lparr>hist := hist s @ new\<rparr>" and "set new \<subseteq> guard_events"
    and "proved_empty E hm sha path s new"
proof -
  obtain r f where sha: "sha256_r (crypto E) [] (hist s) = (r, f)" by fastforce
  let ?s1 = "s\<lparr>hist := hist s @ [Crypto (Sha256 [] r (arr 32 f))]\<rparr>"
  from assms(1) sha obtain auth pre u v where
    p: "run_state (get_proofs E 80) ?s1 = (Some (auth, pre), u)"
    and pre: "run_state (auth_check_http_pre E (str ''POST'') path 0 (Some pre)) u = (True, v)"
    and auth: "run_state (auth_check_http E (str ''POST'') path (arr 32 f) (Some auth)) v = (True, t)"
    by (auto simp: empty_body_proved_def mbedtls_sha256_def split: prod.splits option.splits if_splits)
  from p obtain hs where hs: "u = ?s1\<lparr>hist := hist ?s1 @ hs\<rparr>" "g_claimed ?s1"
      "Http (Hdr_str ''X-Bridge-Auth'' ESP_OK auth) \<in> set hs"
      "Http (Hdr_str ''X-Bridge-Pre'' ESP_OK pre) \<in> set hs"
    by (rule get_proofs_some)
  obtain m1 where m1: "v = u\<lparr>hist := hist u @ m1\<rparr>"
    using emits_auth_check_http_pre pre by (rule emitsE)
  obtain m2 where m2: "t = v\<lparr>hist := hist v @ m2\<rparr>"
    using emits_auth_check_http auth by (rule emitsE)
  obtain new where new: "t = s\<lparr>hist := hist s @ new\<rparr>" "set new \<subseteq> guard_events"
    using emits_empty_body_proved assms(1) by (rule emitsE)
  have eq: "new = Crypto (Sha256 [] r (arr 32 f)) # hs @ m1 @ m2"
    using new(1) m2 m1 hs(1) by simp
  have "fst (sha256_r (crypto E) [] (hist s)) = 0 \<longrightarrow> arr 32 f = sha []"
    using sha law(2) unfolding sha_law_def by auto
  moreover have "proves hm (g_psk s) auth (http_msg (str ''POST'') path (http_nonce s) (arr 32 f))"
    using auth_check_http_sound [OF auth law(1)] m1 hs(1) by simp
  moreover have "proves hm (g_psk s) pre (pre_msg (str ''POST'') path (http_nonce s) 0)"
    using auth_check_http_pre_sound [OF pre law(1)] hs(1) by simp
  ultimately have "proved_empty E hm sha path s new"
    using hs(2,3,4) eq unfolding proved_empty_def by auto
  with new show thesis by (rule that)
qed

lemma empty_body_proved_complete:
  assumes "md_ok E" and "hmac_law E hm" and "g_claimed s" and "sends_headers E auth pre"
    and "sha256_r (crypto E) [] (hist s) = (r, f)"
    and "proves hm (g_psk s) auth (http_msg (str ''POST'') path (http_nonce s) (arr 32 f))"
    and "proves hm (g_psk s) pre (pre_msg (str ''POST'') path (http_nonce s) 0)"
  shows "fst (run_state (empty_body_proved E path) s)"
proof -
  let ?s1 = "s\<lparr>hist := hist s @ [Crypto (Sha256 [] r (arr 32 f))]\<rparr>"
  obtain u where u: "run_state (get_proofs E 80) ?s1 = (Some (auth, pre), u)"
    using get_proofs_complete [OF assms(4), of ?s1] assms(3) by auto
  obtain hs where hs: "u = ?s1\<lparr>hist := hist ?s1 @ hs\<rparr>"
    using emits_get_proofs u by (rule emitsE)
  have "fst (run_state (auth_check_http_pre E (str ''POST'') path 0 (Some pre)) u)"
    by (rule auth_check_http_pre_complete [OF assms(1,2)]) (use assms(3,7) hs in simp_all)
  then obtain v where v: "run_state (auth_check_http_pre E (str ''POST'') path 0 (Some pre)) u = (True, v)"
    by (metis prod.collapse)
  obtain md where md: "v = u\<lparr>hist := hist u @ md\<rparr>"
    using emits_auth_check_http_pre v by (rule emitsE)
  have "fst (run_state (auth_check_http E (str ''POST'') path (arr 32 f) (Some auth)) v)"
    by (rule auth_check_http_complete [OF assms(1,2)]) (use assms(3,6) hs md in simp_all)
  then show ?thesis
    using assms(5) u v by (simp add: empty_body_proved_def mbedtls_sha256_def)
qed

text \<open>
  A reboot needs both proofs. The handler restarts the board only for a request that proved the
  key for this path, the current nonce and the empty body, and then the nonce has advanced; any
  other request gets an error, and nothing but the history changes.
\<close>

lemma reboot_needs_proof:
  assumes "hmac_law E hm" and "sha_law E sha" and "run_state (reboot_post E) s = (r, t)"
  shows "\<exists>new. hist t = hist s @ new \<and>
    (r = Restarted \<and> proved_empty E hm sha (str ''/reboot'') s new \<and>
       t = s\<lparr>g_http_counter := g_http_counter s + 1, hist := hist t\<rparr> \<or>
     r = Returned ESP_FAIL \<and> t = s\<lparr>hist := hist t\<rparr> \<and> Sys Esp_restart \<notin> set new \<and>
       (\<exists>h msg. new = h @ [Http (Resp_err 403 msg)]))"
proof -
  obtain ok u where u: "run_state (empty_body_proved E (str ''/reboot'')) s = (ok, u)" by fastforce
  obtain g where g: "u = s\<lparr>hist := hist s @ g\<rparr>" "set g \<subseteq> guard_events"
    using emits_empty_body_proved u by (rule emitsE)
  note run = assms(3) [unfolded reboot_post_def reply_err_def platform_calls auth_nonce_bump_def]
  show ?thesis
  proof (cases ok)
    case False
    then have "r = Returned ESP_FAIL" "t = s\<lparr>hist := hist s @ g @
        [Http (Resp_err 403 (str ''bad or missing X-Bridge-Auth / X-Bridge-Pre''))]\<rparr>"
      using run u g(1) by auto
    moreover have "Sys Esp_restart \<notin> set g"
      using g(2) by (auto simp: guard_events_def ask_events_def md_events_def)
    ultimately show ?thesis by auto
  next
    case True
    with u have "run_state (empty_body_proved E (str ''/reboot'')) s = (True, u)" by simp
    then obtain new where new: "u = s\<lparr>hist := hist s @ new\<rparr>"
        "proved_empty E hm sha (str ''/reboot'') s new"
      using assms(1,2) by (rule empty_body_proved_sound)
    let ?e = "resp_send_r (http E) (str ''rebooting'' @ [10]) (hist u)"
    let ?z = "[Http (Resp_send (str ''rebooting'' @ [10]) ?e), Sys (Delay_ms 300), Sys Esp_restart]"
    have "r = Restarted" "t = s\<lparr>g_http_counter := g_http_counter s + 1, hist := hist s @ new @ ?z\<rparr>"
      using run u True new(1) by auto
    with proved_empty_append [OF new(2), of ?z] show ?thesis
      by (intro exI [of _ "new @ ?z"]) simp
  qed
qed

text \<open>A platform whose client proves the key of \<open>toy_fw\<close> for a request without a body.\<close>

definition path_headers :: "bytes \<Rightarrow> string \<Rightarrow> bytes" where
  "path_headers path k =
     hexlify (toy_mac (g_psk toy_fw)
       (if k = ''X-Bridge-Auth'' then http_msg (str ''POST'') path (http_nonce toy_fw) (toy_sha [])
        else pre_msg (str ''POST'') path (http_nonce toy_fw) 0)) 32"

definition path_sdk :: "bytes \<Rightarrow> sdk" where
  "path_sdk path = toy_sdk (path_headers path) [] []"

lemma path_laws:
  "hmac_law (path_sdk path) toy_mac" "md_ok (path_sdk path)" "sha_law (path_sdk path) toy_sha"
  "nvs_law (path_sdk path)"
  by (simp_all add: path_sdk_def toy_laws)

lemma path_proved: "\<exists>u. run_state (empty_body_proved (path_sdk path) path) toy_fw = (True, u)"
proof -
  let ?A = "path_headers path ''X-Bridge-Auth'' @ [0]" and ?P = "path_headers path ''X-Bridge-Pre'' @ [0]"
  have len: "length (path_headers path k) = 64" for k by (simp add: path_headers_def)
  have "sends_headers (path_sdk path) ?A ?P"
    by (simp add: sends_headers_def path_sdk_def toy_sdk_def toy_http_def len)
  moreover have "sha256_r (crypto (path_sdk path)) [] (hist toy_fw) = (0, \<lambda>i. toy_sha [] ! i)"
    by (simp add: path_sdk_def toy_sdk_def toy_crypto_def)
  moreover have "proves toy_mac (g_psk toy_fw) ?A
      (http_msg (str ''POST'') path (http_nonce toy_fw) (arr 32 (\<lambda>i. toy_sha [] ! i)))"
    by (simp add: proves_append_0 len) (simp add: path_headers_def proves_append_0 proves_hexlify)
  moreover have "proves toy_mac (g_psk toy_fw) ?P (pre_msg (str ''POST'') path (http_nonce toy_fw) 0)"
    by (rule proves_append_0) (simp_all add: path_headers_def proves_hexlify)
  moreover have "g_claimed toy_fw" by (simp add: toy_fw_def)
  ultimately have "fst (run_state (empty_body_proved (path_sdk path) path) toy_fw)"
    by (intro empty_body_proved_complete [OF path_laws(2,1)])
  then show ?thesis by (metis prod.collapse)
qed

lemma reboot_demo: "\<exists>t. run_state (reboot_post (path_sdk (str ''/reboot''))) toy_fw = (Restarted, t)"
  using path_proved [of "str ''/reboot''"]
  by (auto simp: reboot_post_def platform_calls auth_nonce_bump_def)

text \<open>
  C32. Giving up the key needs both proofs. Nothing is read from or written to the flash storage
  unless the request proved the key for this path, the current nonce and the empty body. A restart
  means the key is gone from memory; any other outcome is an error that leaves every variable as it
  was.
\<close>

theorem unclaim_needs_proof:
  assumes "hmac_law E hm" and "sha_law E sha" and "run_state (unclaim_post E) s = (r, t)"
  shows "\<exists>new. hist t = hist s @ new \<and>
    ((\<exists>x. Nvs x \<in> set new) \<longrightarrow> proved_empty E hm sha (str ''/unclaim'') s new) \<and>
    (if r = Restarted
     then proved_empty E hm sha (str ''/unclaim'') s new \<and> \<not> g_claimed t \<and> g_psk t = replicate 32 0
     else r = Returned ESP_FAIL \<and> t = s\<lparr>hist := hist t\<rparr>)"
proof -
  obtain ok u where u: "run_state (empty_body_proved E (str ''/unclaim'')) s = (ok, u)" by fastforce
  obtain g where g: "u = s\<lparr>hist := hist s @ g\<rparr>" "set g \<subseteq> guard_events"
    using emits_empty_body_proved u by (rule emitsE)
  note run = assms(3) [unfolded unclaim_post_def reply_err_def platform_calls]
  show ?thesis
  proof (cases ok)
    case False
    then have "r = Returned ESP_FAIL" "t = s\<lparr>hist := hist s @ g @
        [Http (Resp_err 403 (str ''bad or missing X-Bridge-Auth / X-Bridge-Pre''))]\<rparr>"
      using run u g(1) by auto
    moreover have "Nvs x \<notin> set g" for x
      using g(2) by (auto simp: guard_events_def ask_events_def md_events_def)
    ultimately show ?thesis by auto
  next
    case True
    with u have "run_state (empty_body_proved E (str ''/unclaim'')) s = (True, u)" by simp
    then obtain new where new: "u = s\<lparr>hist := hist s @ new\<rparr>"
        "proved_empty E hm sha (str ''/unclaim'') s new"
      using assms(1,2) by (rule empty_body_proved_sound)
    obtain err v where v: "run_state (auth_unclaim E) u = (err, v)" by fastforce
    show ?thesis
    proof (cases "err = 0")
      case False
      have keep: "v = u\<lparr>hist := hist v\<rparr>" using auth_unclaim_error [OF v False] .
      obtain z where z: "hist v = hist u @ z"
        using v by (auto simp: auth_unclaim_def platform_calls Let_def split: if_splits)
      have "v = s\<lparr>hist := hist s @ new @ z\<rparr>" by (subst keep) (simp add: z new(1))
      moreover have "r = Returned ESP_FAIL"
          "t = v\<lparr>hist := hist v @ [Http (Resp_err 500 (str ''could not erase key''))]\<rparr>"
        using run u True v False by auto
      ultimately show ?thesis
        using proved_empty_append [OF new(2), of "z @ [Http (Resp_err 500 (str ''could not erase key''))]"]
        by (intro exI [of _ "new @ z @ [Http (Resp_err 500 (str ''could not erase key''))]"]) simp
    next
      case erased: True
      with v have "run_state (auth_unclaim E) u = (0, v)" by simp
      then obtain x where x: "v = u\<lparr>hist := hist u @
          [Nvs (Nvs_open True ESP_OK), Nvs (Nvs_erase_key ''psk'' x), Nvs (Nvs_commit ESP_OK),
           Nvs Nvs_close], g_psk := replicate 32 0, g_claimed := False\<rparr>"
        by (rule auth_unclaim_ok)
      have r: "r = Restarted" "g_psk t = g_psk v" "g_claimed t = g_claimed v"
        using run u True v erased by auto
      have "\<exists>z. hist t = hist v @ z" using run u True v erased by auto
      then obtain z where "hist t = hist s @ new @ z" using x new(1) by auto
      with r x proved_empty_append [OF new(2), of z] show ?thesis
        by (intro exI [of _ "new @ z"]) simp
    qed
  qed
qed

theorem unclaim_needs_proof_witness:
  "\<exists>t new. run_state (unclaim_post (path_sdk (str ''/unclaim''))) toy_fw = (Restarted, t) \<and>
    proved_empty (path_sdk (str ''/unclaim'')) toy_mac toy_sha (str ''/unclaim'') toy_fw new \<and>
    \<not> g_claimed t"
proof -
  obtain u where "run_state (empty_body_proved (path_sdk (str ''/unclaim'')) (str ''/unclaim'')) toy_fw = (True, u)"
    using path_proved by blast
  then obtain t where t: "run_state (unclaim_post (path_sdk (str ''/unclaim''))) toy_fw = (Restarted, t)"
    by (auto simp: unclaim_post_def auth_unclaim_def platform_calls path_sdk_def toy_sdk_def toy_nvs_def)
  with unclaim_needs_proof [OF path_laws(1,3) t] show ?thesis by auto
qed

section \<open>Claim requests\<close>

lemma hex_digit_plain: "hex_digit c \<Longrightarrow> c \<noteq> 0 \<and> \<not> is_space c"
  unfolding hex_digit_iff is_space_def word_le_def by auto

lemma scan_2x_hex:
  assumes "hex_digit c" and "hex_digit d"
  shows "scan_2x (cstr (c # d # rest)) = Some (word_of_int (hex_val c * 16 + hex_val d))"
proof -
  have "cstr (c # d # rest) = c # d # cstr rest"
    using hex_digit_plain [OF assms(1)] hex_digit_plain [OF assms(2)] by (simp add: cstr_def)
  then show ?thesis
    using assms hex_digit_plain [OF assms(1)] by (simp add: scan_2x_def hex_digit_def)
qed

text \<open>On hexadecimal digits the loop with \<open>sscanf\<close> reads what \<open>unhex\<close> reads.\<close>

lemma parse_peer_hex:
  assumes "\<forall>i \<in> set is. 2 * i + 1 < length body \<and> hex_digit (body ! (2 * i)) \<and> hex_digit (body ! (2 * i + 1))"
  shows "parse_peer body is = unhex_loop body is"
  using assms
proof (induction "is")
  case (Cons i "is")
  let ?c = "body ! (2 * i)" and ?d = "body ! (2 * i + 1)"
  have "drop (2 * i) body = ?c # ?d # drop (2 * i + 2) body"
    using Cons.prems by (simp add: Cons_nth_drop_Suc)
  moreover have hex: "hex_digit ?c" "hex_digit ?d" using Cons.prems by simp_all
  ultimately have "scan_2x (cstr (drop (2 * i) body)) = Some (word_of_int (hex_val ?c * 16 + hex_val ?d))"
    using scan_2x_hex by metis
  moreover have "ucast (word_of_int k :: u32) = (word_of_int k :: byte)" for k
    by (rule bit_word_eqI) (auto simp: bit_simps)
  moreover have "\<not> hex_val ?c < 0" "\<not> hex_val ?d < 0" using hex by (simp_all add: hex_digit_def)
  ultimately show ?case using Cons by (simp add: Let_def del: of_int_add of_int_mult)
qed simp

lemma claim_pub_length:
  assumes "run_state (auth_claim E peer) s = ((0, ours), t)"
  obtains pub where "ours = Some pub" and "length pub = 32"
proof -
  from assms obtain u where "run_state (claim_exchange E peer) s = ((ESP_OK, ours), u)"
    by (rule auth_claim_ok)
  then show thesis by (rule claim_exchange_calls) (use that in simp)
qed

lemma hexlify_fmt:
  assumes "length pub = n"
  shows "concat (map fmt_02x pub) = hexlify pub n"
proof -
  have "map fmt_02x pub = map (\<lambda>i. fmt_02x (pub ! i)) [0..<n]"
    using assms by (intro nth_equalityI) auto
  then show ?thesis by (simp add: hexlify_def fmt_02x_def)
qed

lemma claim_post_run:
  assumes "\<not> g_claimed s" and body: "req_recv_r (http E) 79 (hist s) = Rx d" "64 \<le> length d"
    and hex: "\<forall>j < 64. hex_digit (d ! j)" and peer: "unhex d 32 = Some peer"
    and claim: "run_state (auth_claim E peer) (s\<lparr>hist := hist s @ [Http (Req_recv 79 (Rx d))]\<rparr>) =
      ((err, ours), u)"
  shows "run_state (claim_post E) s = run_state
      (case ours of
         Some pub \<Rightarrow>
           if err \<noteq> 0 then reply_err 500 (str ''claim failed'')
           else do {
             e \<leftarrow> httpd_resp_send E (concat (map fmt_02x pub) @ [10]);
             ret (Returned e)
           }
       | None \<Rightarrow> reply_err 500 (str ''claim failed'')) u"
proof -
  have d: "take 64 d ! j = d ! j" if "j < 64" for j using that by simp
  have "unhex (take 64 d) 32 = unhex d 32"
    using unhex_loop_append [of "[0..<32]" "take 64 d" "drop 64 d"] body(2) by (simp add: unhex_def)
  moreover have "parse_peer (take 64 d) [0..<32] = unhex_loop (take 64 d) [0..<32]"
    by (rule parse_peer_hex) (use hex body(2) d in auto)
  ultimately have parse: "parse_peer (take 64 d) [0..<32] = Some peer"
    using peer by (simp add: unhex_def)
  then show ?thesis
    using assms(1) body claim by (simp add: claim_post_def auth_claimed_def httpd_req_recv_def)
qed

text \<open>
  C33. A claim request that carries 64 hexadecimal digits hands exactly the 32 bytes they stand for to
  the key exchange. If that succeeds, the client gets the board's public key, as 64 hexadecimal
  digits and a newline from which the key can be read back; otherwise it gets an error.
\<close>

theorem claim_request_exchanges_keys:
  assumes "\<not> g_claimed s" and body: "req_recv_r (http E) 79 (hist s) = Rx d" "64 \<le> length d"
    and hex: "\<forall>j < 64. hex_digit (d ! j)" and peer: "unhex d 32 = Some peer"
    and claim: "run_state (auth_claim E peer) (s\<lparr>hist := hist s @ [Http (Req_recv 79 (Rx d))]\<rparr>) =
      ((err, ours), u)"
  shows "if err = 0
    then \<exists>pub e. ours = Some pub \<and> unhex (hexlify pub 32) 32 = Some pub \<and>
      run_state (claim_post E) s =
        (Returned e, u\<lparr>hist := hist u @ [Http (Resp_send (hexlify pub 32 @ [10]) e)]\<rparr>)
    else run_state (claim_post E) s =
      (Returned ESP_FAIL, u\<lparr>hist := hist u @ [Http (Resp_err 500 (str ''claim failed''))]\<rparr>)"
proof (cases "err = 0")
  case True
  with claim have "run_state (auth_claim E peer) (s\<lparr>hist := hist s @ [Http (Req_recv 79 (Rx d))]\<rparr>) =
      ((0, ours), u)" by simp
  then obtain pub where "ours = Some pub" "length pub = 32" by (rule claim_pub_length)
  with True show ?thesis
    unfolding claim_post_run [OF assms] by (simp add: hexlify_fmt unhex_hexlify httpd_resp_send_def)
next
  case False
  then show ?thesis
    unfolding claim_post_run [OF assms] by (cases ours) (simp_all add: reply_err_def httpd_resp_send_err_def)
qed

definition claimer_sdk :: sdk where
  "claimer_sdk = toy_sdk (\<lambda>_. []) (hexlify host_pub 32) []"

lemma length_host_pub [simp]: "length host_pub = 32"
  by (simp add: host_pub_def)

lemma hexlify_digits: "j < 2 * n \<Longrightarrow> hex_digit (hexlify inp n ! j)"
proof -
  assume "j < 2 * n"
  then have "hexlify inp n ! j \<in> set hx" using hexlify_chars nth_mem by (metis length_hexlify)
  moreover have "\<forall>c \<in> set hx. hex_digit c" by code_simp
  ultimately show ?thesis by blast
qed

text \<open>The claim of a host, at any unclaimed board that has not yet read the request.\<close>

lemma claimer_body: "body_of (hist s) = [] \<Longrightarrow> req_recv_r (http claimer_sdk) 79 (hist s) = Rx (hexlify host_pub 32)"
  by (simp add: claimer_sdk_def toy_sdk_def toy_http_def)

lemma claimer_claims:
  assumes "\<not> g_claimed s"
  shows "\<exists>u. run_state (auth_claim claimer_sdk host_pub)
      (s\<lparr>hist := hist s @ [Http (Req_recv 79 (Rx (hexlify host_pub 32)))]\<rparr>) =
    ((0, Some (le_bytes 32 (toy_smul 3 9))), u)"
  unfolding claimer_sdk_def by (rule claim_demo_at) (use assms in simp)

lemma claimer_digits: "\<forall>j < 64. hex_digit (hexlify host_pub 32 ! j)"
  by (simp add: hexlify_digits)

theorem claim_request_exchanges_keys_witness:
  "\<exists>pub u e. run_state (claim_post claimer_sdk) boot_fw =
     (Returned e, u\<lparr>hist := hist u @ [Http (Resp_send (hexlify pub 32 @ [10]) e)]\<rparr>)"
proof -
  have s: "\<not> g_claimed boot_fw" "body_of (hist boot_fw) = []" by (simp_all add: boot_fw_def)
  from claimer_claims [OF s(1)] obtain u where u: "run_state (auth_claim claimer_sdk host_pub)
      (boot_fw\<lparr>hist := hist boot_fw @ [Http (Req_recv 79 (Rx (hexlify host_pub 32)))]\<rparr>) =
    ((0, Some (le_bytes 32 (toy_smul 3 9))), u)" by blast
  from claim_request_exchanges_keys [OF s(1) claimer_body [OF s(2)] _ claimer_digits _ u] show ?thesis
    by (simp add: unhex_hexlify) blast
qed

text \<open>
  The loop reads more than hexadecimal digits: a body of signed digits is taken as a public key.
\<close>

lemma claim_accepts_signs:
  "parse_peer (concat (replicate 32 (str ''-5''))) [0..<32] = Some (replicate 32 0xfb)"
  by code_simp

section \<open>Uploads that stall\<close>

definition is_read :: "event \<Rightarrow> bool" where
  "is_read e = (case e of Http (Req_recv n r) \<Rightarrow> True | _ \<Rightarrow> False)"

definition reads :: "history \<Rightarrow> nat" where
  "reads h = length (filter is_read h)"

lemma reads_simps [simp]:
  "reads [] = 0" "reads (Http (Req_recv n r) # h) = Suc (reads h)" "reads (Crypto c # h) = reads h"
  "reads (Ota x # h) = reads h" "reads (Http (Resp_err code msg) # h) = reads h"
  by (simp_all add: reads_def is_read_def)

text \<open>The longest run of timeouts in a row, after \<open>k\<close> timeouts already seen.\<close>

fun timed_out :: "event \<Rightarrow> bool" where
  "timed_out (Http (Req_recv n r)) \<longleftrightarrow> rx_n r = HTTPD_SOCK_ERR_TIMEOUT"
| "timed_out _ \<longleftrightarrow> False"

fun longest_stall :: "nat \<Rightarrow> history \<Rightarrow> nat" where
  "longest_stall k [] = k"
| "longest_stall k (e # h) =
     (if timed_out e then longest_stall (k + 1) h else max k (longest_stall 0 h))"

text \<open>
  The reads of the loop, \<open>k\<close> timeouts in: six for each byte to come, never more than six timeouts in a
  row, and the upload is given up as stalled exactly when there were six.
\<close>

definition stall_ends :: "history \<Rightarrow> bool" where
  "stall_ends h \<longleftrightarrow>
     (\<exists>pre. h = pre @ [Ota Ota_abort, Crypto Sha_free, Http (Resp_err 408 (str ''upload stalled''))])"

definition upload_reads :: "int \<Rightarrow> nat \<Rightarrow> bool \<Rightarrow> history \<Rightarrow> bool" where
  "upload_reads remaining k ok new \<longleftrightarrow>
     reads new \<le> (if 0 < remaining then 6 * nat remaining - k else 0) \<and> longest_stall k new \<le> 6 \<and>
     (longest_stall k new = 6 \<longrightarrow> \<not> ok \<and> stall_ends new) \<and>
     (\<forall>msg. Http (Resp_err 408 msg) \<in> set new \<longrightarrow> longest_stall k new = 6)"

lemma stall_ends_Cons: "stall_ends h \<Longrightarrow> stall_ends (e # h)"
  unfolding stall_ends_def by (metis append_Cons)

lemma ota_loop_reads:
  "k < 6 \<Longrightarrow> \<exists>new. snd (run_state (ota_loop E remaining k) s) = s\<lparr>hist := hist s @ new\<rparr> \<and>
     upload_reads remaining k (fst (run_state (ota_loop E remaining k) s)) new"
proof (induction E remaining k arbitrary: s rule: ota_loop.induct)
  case (1 E remaining k)
  show ?case
  proof (cases "0 < remaining")
    case False
    with "1.prems" show ?thesis by (intro exI [of _ "[]"]) (simp add: ota_loop.simps upload_reads_def)
  next
    case more: True
    then have pos: "Suc 0 \<le> 6 * nat remaining - k" using "1.prems" by simp
    from more show ?thesis
    proof (cases rule: ota_loop_step [of remaining k E s])
      case (again n r)
      let ?u = "s\<lparr>hist := hist s @ [Http (Req_recv n r)]\<rparr>"
      have k: "k + 1 < 6" using again by (simp add: OTA_MAX_RECV_TIMEOUTS_def)
      from "1.IH"(1) [OF more again(1,2) this, of ?u] obtain new where
        "snd (run_state (ota_loop E remaining (k + 1)) ?u) = ?u\<lparr>hist := hist ?u @ new\<rparr>"
        "upload_reads remaining (k + 1) (fst (run_state (ota_loop E remaining (k + 1)) ?u)) new" by blast
      with more pos again(1) show ?thesis
        unfolding again(4)
        by (intro exI [of _ "Http (Req_recv n r) # new"]) (auto simp: upload_reads_def intro: stall_ends_Cons)
    next
      case (lost n r code msg)
      with more pos "1.prems" show ?thesis
        by (intro exI [of _ "[Http (Req_recv n r), Ota Ota_abort, Crypto Sha_free, Http (Resp_err code msg)]"])
          (auto simp: upload_reads_def stall_ends_def OTA_MAX_RECV_TIMEOUTS_def split: if_splits)
    next
      case (bad_write n r d q e code msg)
      with more pos "1.prems" show ?thesis
        by (intro exI [of _ "[Http (Req_recv n r), Crypto (Sha_update d q), Ota (Ota_write d e),
            Ota Ota_abort, Crypto Sha_free, Http (Resp_err code msg)]"]) (simp add: upload_reads_def)
    next
      case (chunk n r d q)
      let ?v = "s\<lparr>hist := hist s @ [Http (Req_recv n r), Crypto (Sha_update d q), Ota (Ota_write d ESP_OK)]\<rparr>"
      from "1.IH"(2) [OF more chunk(1,2), of ESP_OK ?v] obtain new where
        new: "snd (run_state (ota_loop E (remaining - rx_n r) 0) ?v) = ?v\<lparr>hist := hist ?v @ new\<rparr>"
        "upload_reads (remaining - rx_n r) 0 (fst (run_state (ota_loop E (remaining - rx_n r) 0) ?v)) new"
        by auto
      have "Suc (reads new) \<le> 6 * nat remaining - k"
        using new(2) chunk(2) more "1.prems" by (auto simp: upload_reads_def split: if_splits)
      with new more chunk(1) "1.prems" show ?thesis
        unfolding chunk(7)
        by (intro exI [of _ "Http (Req_recv n r) # Crypto (Sha_update d q) # Ota (Ota_write d ESP_OK) # new"])
          (auto simp: upload_reads_def max_def intro: stall_ends_Cons split: if_splits)
    qed
  qed
qed

lemma ota_loop_stalls:
  assumes "\<And>n h. req_recv_r (http E) n h = Rx_err 2" and "0 < remaining"
  shows "k < 6 \<Longrightarrow> run_state (ota_loop E remaining k) s = (False, s\<lparr>hist := hist s @
    replicate (6 - k) (Http (Req_recv (nat (if remaining < 1024 then remaining else 1024)) (Rx_err 2))) @
    [Ota Ota_abort, Crypto Sha_free, Http (Resp_err 408 (str ''upload stalled''))]\<rparr>)"
proof (induction "6 - k" arbitrary: k s)
  case (Suc j)
  let ?ev = "Http (Req_recv (nat (if remaining < 1024 then remaining else 1024)) (Rx_err 2))"
  note unfold = ota_loop.simps [of E remaining k] platform_calls upload_failed_def OTA_MAX_RECV_TIMEOUTS_def
  show ?case
  proof (cases "k + 1 < 6")
    case True
    have "run_state (ota_loop E remaining k) s = run_state (ota_loop E remaining (k + 1)) (s\<lparr>hist := hist s @ [?ev]\<rparr>)"
      using True assms by (simp add: unfold)
    moreover have "6 - k = Suc (6 - (k + 1))" using True by simp
    ultimately show ?thesis using Suc.hyps(1) [of "k + 1"] Suc.hyps(2) True by simp
  next
    case False
    with Suc.prems have "6 - k = 1" by simp
    with False assms show ?thesis by (simp add: unfold)
  qed
qed simp

text \<open>
  C34. An upload cannot hold the board: whatever the client and the flash do, the receive loop ends
  after at most six reads for each byte announced. There are never more than six timeouts in a row;
  six in a row end the upload, with the update aborted and the answer 408, and nothing else does: a
  client that sends anything in between is not given up as stalled. A client that sends nothing any
  more is given up after exactly six reads.
\<close>

theorem upload_ends:
  assumes "0 < remaining"
  shows "(\<exists>ok new. run_state (ota_loop E remaining 0) s = (ok, s\<lparr>hist := hist s @ new\<rparr>) \<and>
      reads new \<le> 6 * nat remaining \<and> longest_stall 0 new \<le> 6 \<and>
      (longest_stall 0 new = 6 \<longrightarrow> \<not> ok \<and>
        (\<exists>pre. new = pre @ [Ota Ota_abort, Crypto Sha_free, Http (Resp_err 408 (str ''upload stalled''))])) \<and>
      (\<forall>msg. Http (Resp_err 408 msg) \<in> set new \<longrightarrow> longest_stall 0 new = 6)) \<and>
    ((\<forall>n h. req_recv_r (http E) n h = Rx_err 2) \<longrightarrow>
      (\<exists>n. run_state (ota_loop E remaining 0) s = (False, s\<lparr>hist := hist s @
        replicate 6 (Http (Req_recv n (Rx_err 2))) @
        [Ota Ota_abort, Crypto Sha_free, Http (Resp_err 408 (str ''upload stalled''))]\<rparr>)))"
proof
  from ota_loop_reads [of 0 E remaining s] obtain new where
    "snd (run_state (ota_loop E remaining 0) s) = s\<lparr>hist := hist s @ new\<rparr>"
    "upload_reads remaining 0 (fst (run_state (ota_loop E remaining 0) s)) new" by auto
  with assms show "\<exists>ok new. run_state (ota_loop E remaining 0) s = (ok, s\<lparr>hist := hist s @ new\<rparr>) \<and>
      reads new \<le> 6 * nat remaining \<and> longest_stall 0 new \<le> 6 \<and>
      (longest_stall 0 new = 6 \<longrightarrow> \<not> ok \<and>
        (\<exists>pre. new = pre @ [Ota Ota_abort, Crypto Sha_free, Http (Resp_err 408 (str ''upload stalled''))])) \<and>
      (\<forall>msg. Http (Resp_err 408 msg) \<in> set new \<longrightarrow> longest_stall 0 new = 6)"
    by (intro exI [of _ "fst (run_state (ota_loop E remaining 0) s)"] exI [of _ new])
      (simp add: upload_reads_def stall_ends_def prod_eq_iff)
  show "(\<forall>n h. req_recv_r (http E) n h = Rx_err 2) \<longrightarrow>
      (\<exists>n. run_state (ota_loop E remaining 0) s = (False, s\<lparr>hist := hist s @
        replicate 6 (Http (Req_recv n (Rx_err 2))) @
        [Ota Ota_abort, Crypto Sha_free, Http (Resp_err 408 (str ''upload stalled''))]\<rparr>))"
    using ota_loop_stalls [OF _ assms, of E 0 s] by fastforce
qed

definition stalled_sdk :: sdk where
  "stalled_sdk = demo_sdk\<lparr>http := (http demo_sdk)\<lparr>req_recv_r := (\<lambda>n h. Rx_err 2)\<rparr>\<rparr>"

text \<open>A client that lets five reads time out before each byte it sends.\<close>

definition slow_sdk :: sdk where
  "slow_sdk = demo_sdk\<lparr>http := (http demo_sdk)\<lparr>req_recv_r := (\<lambda>n h. if reads h mod 6 = 5 then Rx [7] else Rx_err 2)\<rparr>\<rparr>"

lemma slow_read:
  assumes "reads (hist s) mod 6 = k" and "k < 6" and "0 < remaining"
  shows "\<exists>s'. run_state (ota_loop slow_sdk remaining k) s =
      run_state (ota_loop slow_sdk (if k = 5 then remaining - 1 else remaining) (if k = 5 then 0 else k + 1)) s' \<and>
    reads (hist s') mod 6 = (if k = 5 then 0 else k + 1)"
proof -
  have "Suc (reads (hist s)) mod 6 = (if k = 5 then 0 else k + 1)"
    using assms(1,2) by (auto simp: mod_Suc)
  moreover have "reads (h @ h') = reads h + reads h'" for h h' by (simp add: reads_def)
  ultimately show ?thesis
    using assms
    by (subst ota_loop.simps)
      (auto simp: slow_sdk_def demo_sdk_def toy_sdk_def toy_ota_def platform_calls OTA_MAX_RECV_TIMEOUTS_def
        intro!: exI)
qed

lemma slow_rounds:
  assumes "reads (hist s) mod 6 = k" and "k < 6"
  shows "fst (run_state (ota_loop slow_sdk (int m) k) s)"
  using assms
proof (induction "6 * m - k" arbitrary: m k s rule: less_induct)
  case less
  show ?case
  proof (cases m)
    case 0
    then show ?thesis by (simp add: ota_loop.simps)
  next
    case (Suc j)
    from slow_read [OF less.prems, of "int m"] Suc obtain s' where
      s': "run_state (ota_loop slow_sdk (int m) k) s =
        run_state (ota_loop slow_sdk (if k = 5 then int j else int m) (if k = 5 then 0 else k + 1)) s'"
      "reads (hist s') mod 6 = (if k = 5 then 0 else k + 1)" by (auto cong: if_cong)
    show ?thesis
    proof (cases "k = 5")
      case True
      with s' Suc less.hyps [of j 0 s'] show ?thesis by simp
    next
      case False
      with s' Suc less.prems less.hyps [of m "k + 1" s'] show ?thesis by simp
    qed
  qed
qed

theorem upload_ends_witness:
  "(\<exists>n. run_state (ota_loop stalled_sdk 5000 0) toy_fw = (False, toy_fw\<lparr>hist := hist toy_fw @
     replicate 6 (Http (Req_recv n (Rx_err 2))) @
     [Ota Ota_abort, Crypto Sha_free, Http (Resp_err 408 (str ''upload stalled''))]\<rparr>)) \<and>
   (\<exists>new. run_state (ota_loop slow_sdk (int 1000) 0) toy_fw = (True, toy_fw\<lparr>hist := hist toy_fw @ new\<rparr>) \<and>
     reads new \<le> 6000 \<and> longest_stall 0 new < 6)"
proof
  show "\<exists>n. run_state (ota_loop stalled_sdk 5000 0) toy_fw = (False, toy_fw\<lparr>hist := hist toy_fw @
     replicate 6 (Http (Req_recv n (Rx_err 2))) @
     [Ota Ota_abort, Crypto Sha_free, Http (Resp_err 408 (str ''upload stalled''))]\<rparr>)"
    using upload_ends [of 5000 stalled_sdk toy_fw] by (simp add: stalled_sdk_def)
  have "fst (run_state (ota_loop slow_sdk (int 1000) 0) toy_fw)"
    by (rule slow_rounds) (simp_all add: toy_fw_def boot_fw_def)
  with upload_ends [of "int 1000" slow_sdk toy_fw, THEN conjunct1] show
    "\<exists>new. run_state (ota_loop slow_sdk (int 1000) 0) toy_fw = (True, toy_fw\<lparr>hist := hist toy_fw @ new\<rparr>) \<and>
     reads new \<le> 6000 \<and> longest_stall 0 new < 6" by (auto simp: order_less_le)
qed

section \<open>Confirming or rolling back a new image\<close>

text \<open>
  Documented: the state of the running image is the one the bootloader left, until the image marks
  itself valid; marking it works. The firmware ignores what that call returns.
\<close>

definition img_law :: "sdk \<Rightarrow> img_state \<Rightarrow> bool" where
  "img_law E st \<longleftrightarrow> (\<forall>h. ota_mark_valid_r (ota E) h = ESP_OK \<and> ota_get_state_r (ota E) h =
     (ESP_OK, if Ota (Ota_mark_valid ESP_OK) \<in> set h then IMG_VALID else st))"

lemma pending_verify_law:
  assumes "img_law E st"
  shows "run_state (pending_verify E) s =
    (st = IMG_PENDING_VERIFY \<and> Ota (Ota_mark_valid ESP_OK) \<notin> set (hist s),
     s\<lparr>hist := hist s @ [Ota (Ota_get_state ESP_OK (if Ota (Ota_mark_valid ESP_OK) \<in> set (hist s) then IMG_VALID else st))]\<rparr>)"
  using assms by (auto simp: pending_verify_def platform_calls img_law_def)

text \<open>
  C35. A new image is kept or rolled back. When the grace period ends, the board restarts exactly if
  the running image still waits for its confirmation; once the network came up and \<open>ota_confirm\<close>
  ran, the timer finds nothing to do, whatever happened in between.
\<close>

theorem rollback_unless_confirmed:
  assumes "img_law E st"
  shows "(fst (run_state (rollback_timeout E) s) = Restarted \<longleftrightarrow>
      st = IMG_PENDING_VERIFY \<and> Ota (Ota_mark_valid ESP_OK) \<notin> set (hist s)) \<and>
    fst (run_state (rollback_timeout E) (s\<lparr>hist := hist (snd (run_state (ota_confirm E) s)) @ h\<rparr>)) =
      Returned ()"
proof -
  have "st = IMG_PENDING_VERIFY \<longrightarrow> Ota (Ota_mark_valid ESP_OK) \<in> set (hist (snd (run_state (ota_confirm E) s)))"
    using assms by (simp add: ota_confirm_def pending_verify_law [OF assms] platform_calls img_law_def)
  then show ?thesis
    by (simp add: rollback_timeout_def pending_verify_law [OF assms] platform_calls)
qed

definition fresh_sdk :: sdk where
  "fresh_sdk = demo_sdk\<lparr>ota := (ota demo_sdk)\<lparr>ota_get_state_r := (\<lambda>h.
     (ESP_OK, if Ota (Ota_mark_valid ESP_OK) \<in> set h then IMG_VALID else IMG_PENDING_VERIFY))\<rparr>\<rparr>"

lemma fresh_img: "img_law fresh_sdk IMG_PENDING_VERIFY"
  by (simp add: img_law_def fresh_sdk_def demo_sdk_def toy_sdk_def toy_ota_def)

theorem rollback_unless_confirmed_witness:
  "fst (run_state (rollback_timeout fresh_sdk) toy_fw) = Restarted \<and>
   fst (run_state (rollback_timeout fresh_sdk)
     (toy_fw\<lparr>hist := hist (snd (run_state (ota_confirm fresh_sdk) toy_fw)) @ []\<rparr>)) = Returned ()"
  using rollback_unless_confirmed [OF fresh_img, of toy_fw "[]"] by (simp add: toy_fw_def boot_fw_def)

text \<open>
  The server starts only with the roll back armed: if \<open>ota_init\<close> returns, it has registered the
  five handlers, in order, after the timer was created and started with five minutes for an image
  that waits for its confirmation; otherwise it has aborted the program.
\<close>

lemma ota_init_arms_rollback:
  assumes "img_law E st" and "run_state (ota_init E) s = (r, t)"
  shows "if r = Returned ()
    then \<exists>e. hist t = hist s @ [Ota (Ota_get_state ESP_OK e)] @
      (if st = IMG_PENDING_VERIFY \<and> Ota (Ota_mark_valid ESP_OK) \<notin> set (hist s)
       then [Ota (Rollback_timer_create ESP_OK), Ota (Rollback_timer_start 300000000 ESP_OK)] else []) @
      [Ota (Httpd_start ESP_OK), Ota (Httpd_register ''/'' ''status_get'' ESP_OK),
       Ota (Httpd_register ''/ota'' ''ota_post'' ESP_OK),
       Ota (Httpd_register ''/reboot'' ''reboot_post'' ESP_OK),
       Ota (Httpd_register ''/claim'' ''claim_post'' ESP_OK),
       Ota (Httpd_register ''/unclaim'' ''unclaim_post'' ESP_OK)]
    else r = Aborted \<and> (\<exists>h. hist t = h @ [Rtos System_abort])"
  using assms(2)
  by (auto simp: ota_init_def and_then_def ESP_ERROR_CHECK_def pending_verify_law [OF assms(1)]
      platform_calls ROLLBACK_GRACE_US_def split: if_splits)

section \<open>The status document\<close>

lemma length_fmt_d_le: "\<bar>i\<bar> < 10 ^ k \<Longrightarrow> 0 < k \<Longrightarrow> length (fmt_d i) \<le> Suc k"
proof -
  assume *: "\<bar>i\<bar> < 10 ^ k" "0 < k"
  have "nat \<bar>i\<bar> < 10 ^ k" using *(1) by (simp add: nat_less_iff)
  then have "length (fmt_u (nat \<bar>i\<bar>)) \<le> k" using *(2) by (rule length_fmt_u_le)
  then show ?thesis by (auto simp: fmt_d_def)
qed

lemma length_bdaddr_text [simp]: "length (bdaddr_text mac) = 17"
  by (simp add: bdaddr_text_def)

text \<open>
  The strings of the application description and of the partition table have fixed sizes, the
  clock counts microseconds and reset reasons are 32-bit numbers.
\<close>

definition short_strings :: "sdk \<Rightarrow> kconfig \<Rightarrow> bool" where
  "short_strings E c \<longleftrightarrow> length (cstr (app_version_r (sys E))) \<le> 31 \<and> length (cstr (idf_ver_r (sys E))) \<le> 31 \<and>
     (\<forall>l. running_label_r (sys E) = Some l \<longrightarrow> length (cstr l) \<le> 16) \<and> length (BRIDGE_BOARD_ID c) \<le> 128"

lemma status_text_le:
  assumes "short_strings E c" and "length nonce = 40" and "\<bar>up\<bar> < 10 ^ 13" and "\<bar>reset\<bar> < 2 ^ 31"
    and "length st \<le> 210"
  shows "length (status_text E c mac claimed nonce up prev reset heap st) \<le> 703"
proof -
  have "length (fmt_d up) \<le> Suc 13" using assms(3) by (rule length_fmt_d_le) simp
  moreover have "length (fmt_d reset) \<le> Suc 10" using assms(4) by (intro length_fmt_d_le) auto
  moreover have "length (fmt_u (unat prev)) \<le> 10" "length (fmt_u (unat heap)) \<le> 10" by (rule fmt_u32_le)+
  moreover have "length (case running_label_r (sys E) of None \<Rightarrow> str ''?'' | Some l \<Rightarrow> cstr l) \<le> 16"
    using assms(1) by (auto simp: short_strings_def split: option.splits)
  ultimately show ?thesis using assms(1,2,5) by (simp add: status_text_def short_strings_def)
qed

lemma nonce_stage [simp]: "http_nonce (s\<lparr>s_stage := x\<rparr>) = http_nonce s"
  by (simp add: http_nonce_def)

lemma sdiv_bound:
  fixes i :: int
  assumes "\<bar>i\<bar> < 10 ^ 18"
  shows "\<bar>i sdiv 1000000\<bar> < 10 ^ 13"
proof -
  have "\<bar>i sdiv 1000000\<bar> \<le> \<bar>i\<bar> div 1000000" by (auto simp: signed_divide_int_def abs_mult sgn_if)
  also have "\<dots> < 10 ^ 13" using assms by (simp add: div_less_iff_less_mult)
  finally show ?thesis .
qed

text \<open>The configuration of one of the boards.\<close>

definition demo_conf :: kconfig where
  "demo_conf =
     \<lparr>BRIDGE_TCP_PORT = 4444, BRIDGE_HOSTNAME = str ''hcibridge'', BRIDGE_BOARD_ID = str ''wt32-eth01'',
      BRIDGE_NET_WIFI = False, BRIDGE_WIFI_SSID = [], BRIDGE_WIFI_PASS = [], BRIDGE_ETH_PHY = LAN87XX,
      BRIDGE_ETH_MDC_GPIO = 23, BRIDGE_ETH_MDIO_GPIO = 18, BRIDGE_ETH_CLK_IN = True,
      BRIDGE_ETH_CLK_GPIO = 0, BRIDGE_ETH_PHY_ADDR = 1, BRIDGE_ETH_PHY_POWER_GPIO = 16\<rparr>"

text \<open>
  The status page is sent whole: with strings of their documented sizes it fits the buffer, so
  the client gets the complete document, in which the nonce is the hexadecimal text of the current
  one.
\<close>

lemma status_sent_whole:
  assumes "short_strings E c" and "\<And>h. \<bar>get_time_r (sys E) h\<bar> < 10 ^ 18" and "\<bar>s_reset s\<bar> < 2 ^ 31"
  shows "\<exists>mac up heap e t g. run_state (status_get E c) s = (e, t) \<and> t = s\<lparr>s_stage := 10, hist := hist t\<rparr> \<and>
    hist t = hist s @ g @ [Http (Resp_type ''application/json''), Http (Resp_send
      (status_text E c mac (g_claimed s) (hexlify (http_nonce s) 20) up (s_prev_stage s) (s_reset s) heap
        (stats_text (bridge s))) e)]"
proof -
  obtain r f where mac: "read_mac_r (sys E) (hist s) = (r, f)" by fastforce
  let ?h = "hist s @ [Sys (Read_mac r (arr 6 f))]"
  let ?now = "get_time_r (sys E) ?h"
  let ?heap = "free_heap_r (sys E) (?h @ [Sys (Get_time ?now)])"
  let ?text = "status_text E c (arr 6 f) (g_claimed s) (hexlify (http_nonce s) 20) (?now sdiv 1000000)
    (s_prev_stage s) (s_reset s) ?heap (stats_text (bridge s))"
  let ?g = "[Sys (Read_mac r (arr 6 f)), Sys (Get_time ?now), Sys (Free_heap ?heap)]"
  let ?e = "resp_send_r (http E) ?text (hist s @ ?g @ [Http (Resp_type ''application/json'')])"
  have "\<bar>?now sdiv 1000000\<bar> < 10 ^ 13" using assms(2) [of ?h] by (rule sdiv_bound)
  then have "length ?text \<le> 703"
    by (intro status_text_le [OF assms(1) _ _ assms(3) stats_text_le]) simp_all
  then have fits: "length ?text < 704" by (rule le_less_trans) simp
  have st: "length (stats_text (bridge s)) + 1 \<le> 256" using stats_text_le [of "bridge s"] by simp
  have "run_state (status_get E c) s = (?e, s\<lparr>s_stage := 10, hist := hist s @ ?g @
      [Http (Resp_type ''application/json''), Http (Resp_send ?text ?e)]\<rparr>)"
    using fits st mac
    by (simp add: status_get_def boottrace_defs bridge_stats_json_def auth_nonce_hex_def auth_claimed_def
        platform_calls snprintf_fits)
  then show ?thesis by fastforce
qed

end
