(* ===== verification/Net.thy ===== *)
theory Net
  imports Requests
begin

text \<open>
  \<open>firmware/main/net.c\<close>: the board's address, the start of Ethernet or WiFi, the stored WiFi
  credentials and the setup portal that receives them. Which of the two variants of \<open>net_start\<close> is
  compiled depends on the configuration. \<open>eth_event\<close> only writes to the console.
\<close>

section \<open>Strings\<close>

text \<open>\<open>strstr\<close>: the rest of the text from the first occurrence of the pattern on.\<close>

fun strstr :: "bytes \<Rightarrow> bytes \<Rightarrow> bytes option" where
  "strstr [] pat = (if pat = [] then Some [] else None)"
| "strstr (c # s) pat = (if take (length pat) (c # s) = pat then Some (c # s) else strstr s pat)"

text \<open>\<open>strlcpy\<close> into an array of \<open>sz\<close> bytes: what a reader of the copy sees.\<close>

definition strlcpy :: "bytes \<Rightarrow> nat \<Rightarrow> bytes" where
  "strlcpy src sz = take (sz - 1) (cstr src)"

section \<open>The address of the board\<close>

definition on_got_ip :: "sdk \<Rightarrow> u32 \<Rightarrow> unit fwm" where
  "on_got_ip E addr = do {
     boottrace_mark 9;
     modify (\<lambda>s. s\<lparr>g_ip4 := addr\<rparr>);
     ota_confirm E
   }"

definition on_lost_ip :: "unit fwm" where
  "on_lost_ip = modify (\<lambda>s. s\<lparr>g_ip4 := 0\<rparr>)"

text \<open>The address is kept in network order; its first byte is the least significant one.\<close>

definition ip_text :: "u32 \<Rightarrow> bytes" where
  "ip_text a =
     fmt_u (unat (ucast a :: byte)) @ str ''.'' @ fmt_u (unat (ucast (drop_bit 8 a) :: byte)) @ str ''.'' @
     fmt_u (unat (ucast (drop_bit 16 a) :: byte)) @ str ''.'' @ fmt_u (unat (ucast (drop_bit 24 a) :: byte))"

text \<open>The result and the string left in the caller's array of \<open>len\<close> bytes.\<close>

definition net_ip_str :: "nat \<Rightarrow> (bool \<times> bytes) fwm" where
  "net_ip_str len = do {
     a \<leftarrow> gets g_ip4;
     if a = 0 then ret (False, [])
     else do {
       let (n, out) = snprintf len (ip_text a);
       ret (n < len, out)
     }
   }"

section \<open>Ethernet\<close>

definition make_phy :: "sdk \<Rightarrow> kconfig \<Rightarrow> int \<Rightarrow> int \<Rightarrow> esp_err fwm" where
  "make_phy E c phy_addr reset_gpio_num = net_call E (Eth_phy_new (BRIDGE_ETH_PHY c) phy_addr reset_gpio_num)"

definition net_start_eth :: "sdk \<Rightarrow> kconfig \<Rightarrow> unit outcome fwm" where
  "net_start_eth E c = do {
     e \<leftarrow> net_call E (Eth_mac_new (BRIDGE_ETH_MDC_GPIO c) (BRIDGE_ETH_MDIO_GPIO c) (BRIDGE_ETH_CLK_IN c)
            (BRIDGE_ETH_CLK_GPIO c));
     e \<leftarrow> make_phy E c (BRIDGE_ETH_PHY_ADDR c) (BRIDGE_ETH_PHY_POWER_GPIO c);
     ESP_ERROR_CHECK (net_call E Eth_driver_install) (do {
       e \<leftarrow> net_call E Netif_new_eth;
       e \<leftarrow> net_call E (Netif_set_hostname (BRIDGE_HOSTNAME c));
       ESP_ERROR_CHECK (net_call E Netif_attach)
       (ESP_ERROR_CHECK (net_call E (Handler_register ''ETH_EVENT'' ''ESP_EVENT_ANY_ID'' ''eth_event''))
       (ESP_ERROR_CHECK (net_call E (Handler_register ''IP_EVENT'' ''IP_EVENT_ETH_GOT_IP'' ''on_got_ip''))
       (ESP_ERROR_CHECK (net_call E (Handler_register ''IP_EVENT'' ''IP_EVENT_ETH_LOST_IP'' ''on_lost_ip''))
       (ESP_ERROR_CHECK (net_call E Eth_start)
       (ret (Returned ()))))))
     })
   }"

definition net_start_wired :: "sdk \<Rightarrow> kconfig \<Rightarrow> bool outcome fwm" where
  "net_start_wired E c = and_then (net_start_eth E c) (\<lambda>_. ret (Returned True))"

section \<open>WiFi\<close>

datatype wifi_ev = WIFI_EVENT_STA_START | WIFI_EVENT_STA_DISCONNECTED | WIFI_EVENT_OTHER

definition wifi_event :: "sdk \<Rightarrow> wifi_ev \<Rightarrow> unit fwm" where
  "wifi_event E ev =
     (case ev of
        WIFI_EVENT_STA_START \<Rightarrow> do { e \<leftarrow> net_call E Wifi_connect; ret () }
      | WIFI_EVENT_STA_DISCONNECTED \<Rightarrow> do { e \<leftarrow> net_call E Wifi_connect; ret () }
      | WIFI_EVENT_OTHER \<Rightarrow> ret ())"

text \<open>
  The two strings, from the storage or else from the build. The arrays start zeroed; a read that
  succeeds writes the string with its terminating zero over them.
\<close>

definition load_creds :: "sdk \<Rightarrow> kconfig \<Rightarrow> nat \<Rightarrow> nat \<Rightarrow> (bytes \<times> bytes) option fwm" where
  "load_creds E c ssid_len pass_len = do {
     e \<leftarrow> nvs_open E False;
     stored \<leftarrow>
       (if e = ESP_OK then do {
          (e1, d1) \<leftarrow> nvs_get_str E ''ssid'' ssid_len;
          let ssid = overwrite d1 (replicate ssid_len 0);
          (e2, d2) \<leftarrow> nvs_get_str E ''pass'' pass_len;
          let pass = overwrite d2 (replicate pass_len 0);
          nvs_close;
          ret (if e1 = ESP_OK \<and> ssid ! 0 \<noteq> 0
               then Some (cstr ssid, if e2 \<noteq> ESP_OK then [] else cstr pass) else None)
        } else ret None);
     (case stored of
        Some creds \<Rightarrow> ret (Some creds)
      | None \<Rightarrow>
          if 0 < length (cstr (BRIDGE_WIFI_SSID c))
          then ret (Some (strlcpy (BRIDGE_WIFI_SSID c) ssid_len, strlcpy (BRIDGE_WIFI_PASS c) pass_len))
          else ret None)
   }"

definition wifi_connect :: "sdk \<Rightarrow> kconfig \<Rightarrow> bytes \<Rightarrow> bytes \<Rightarrow> unit outcome fwm" where
  "wifi_connect E c ssid pass = do {
     e \<leftarrow> net_call E Netif_create_sta;
     e \<leftarrow> net_call E (Netif_set_hostname (BRIDGE_HOSTNAME c));
     ESP_ERROR_CHECK (net_call E Wifi_init)
     (ESP_ERROR_CHECK (net_call E (Handler_register ''WIFI_EVENT'' ''ESP_EVENT_ANY_ID'' ''wifi_event''))
     (ESP_ERROR_CHECK (net_call E (Handler_register ''IP_EVENT'' ''IP_EVENT_STA_GOT_IP'' ''on_got_ip''))
     (ESP_ERROR_CHECK (net_call E (Handler_register ''IP_EVENT'' ''IP_EVENT_STA_LOST_IP'' ''on_lost_ip''))
     (do {
        let sl = length (cstr ssid);
        let pl = length (cstr pass);
        let wc_ssid = overwrite (take (if sl < 32 then sl else 32) ssid) (replicate 32 0);
        let wc_password = overwrite (take (if pl < 64 then pl else 64) pass) (replicate 64 0);
        ESP_ERROR_CHECK (net_call E (Wifi_set_mode WIFI_MODE_STA))
        (ESP_ERROR_CHECK (net_call E (Wifi_set_sta wc_ssid wc_password))
        (ESP_ERROR_CHECK (net_call E Wifi_start)
        (ret (Returned ()))))
      }))))
   }"

section \<open>The setup portal\<close>

definition portal_page :: bytes where
  "portal_page =
     str ''<!doctype html><meta name=viewport content='' @ [39] @ str ''width=device-width,initial-scale=1'' @ [39] @
     str ''>'' @ str ''<title>hcibridge setup</title>'' @ str ''<h2>hcibridge WiFi setup</h2>'' @
     str ''<form method=POST action=/save>'' @ str ''<p>SSID:<br><input name=ssid maxlength=31 required>'' @
     str ''<p>Password:<br><input name=pass type=password maxlength=63>'' @
     str ''<p><button>Save &amp; reboot</button></form>''"

definition portal_get :: "sdk \<Rightarrow> esp_err fwm" where
  "portal_get E = do {
     httpd_resp_set_type ''text/html'';
     httpd_resp_send E portal_page
   }"

text \<open>A character after the percent sign: everything up to \<open>'9'\<close> is taken for a decimal digit.\<close>

definition url_digit :: "byte \<Rightarrow> int" where
  "url_digit c = (let hi = uint c in if hi \<le> 57 then hi - 48 else (hi OR 0x20) - 97 + 10)"

fun url_decode :: "bytes \<Rightarrow> bytes" where
  "url_decode [] = []"
| "url_decode (c # p) =
     (if c = 43 then 32 # url_decode p
      else if c = 37 \<and> 2 \<le> length p
        then word_of_int (url_digit (p ! 0) * 16 + url_digit (p ! 1)) # url_decode (drop 2 p)
      else c # url_decode p)"

text \<open>\<open>body\<close> is a string without zeros, and so is the result: it ends at a decoded zero.\<close>

definition form_field :: "bytes \<Rightarrow> bytes \<Rightarrow> nat \<Rightarrow> bytes option" where
  "form_field body key out_len =
     (let (n, pat) = snprintf 24 (key @ str ''='') in
      case strstr body pat of
        None \<Rightarrow> None
      | Some p \<Rightarrow>
          let p = drop n p;
              len = length (takeWhile (\<lambda>c. c \<noteq> 38) p);
              len = (if out_len \<le> len then out_len - 1 else len)
          in Some (cstr (url_decode (take len p))))"

definition portal_save :: "sdk \<Rightarrow> esp_err outcome fwm" where
  "portal_save E = do {
     r \<leftarrow> httpd_req_recv E 255;
     if rx_n r \<le> 0 then ret (Returned ESP_FAIL)
     else do {
       let body = cstr (rx_data r);
       (case form_field body (str ''ssid'') 33 of
          None \<Rightarrow> reply_err 400 (str ''ssid required'')
        | Some ssid \<Rightarrow>
            if ssid = [] then reply_err 400 (str ''ssid required'')
            else do {
              let pass = (case form_field body (str ''pass'') 65 of None \<Rightarrow> [] | Some pass \<Rightarrow> pass);
              ESP_ERROR_CHECK (nvs_open E True) (do {
                e \<leftarrow> nvs_set_str E ''ssid'' ssid;
                e \<leftarrow> nvs_set_str E ''pass'' pass;
                e \<leftarrow> nvs_commit E;
                nvs_close;
                e \<leftarrow> httpd_resp_send E (str ''saved, rebooting'');
                vTaskDelay_ms 500;
                esp_restart;
                ret Restarted
              })
            })
     }
   }"

definition start_portal :: "sdk \<Rightarrow> unit outcome fwm" where
  "start_portal E = do {
     e \<leftarrow> net_call E Netif_create_ap;
     ESP_ERROR_CHECK (net_call E Wifi_init)
     (ESP_ERROR_CHECK (net_call E (Wifi_set_mode WIFI_MODE_AP))
     (ESP_ERROR_CHECK (net_call E (Wifi_set_ap (overwrite (str ''hcibridge-setup'') (replicate 32 0)) 15 2 True))
     (ESP_ERROR_CHECK (net_call E Wifi_start)
     (ESP_ERROR_CHECK (httpd_start E)
     (do {
        e \<leftarrow> httpd_register_uri_handler E ''/'' ''portal_get'';
        e \<leftarrow> httpd_register_uri_handler E ''/save'' ''portal_save'';
        ret (Returned ())
      })))))
   }"

definition net_start_wifi :: "sdk \<Rightarrow> kconfig \<Rightarrow> bool outcome fwm" where
  "net_start_wifi E c = do {
     creds \<leftarrow> load_creds E c 33 65;
     (case creds of
        None \<Rightarrow> and_then (start_portal E) (\<lambda>_. ret (Returned False))
      | Some (ssid, pass) \<Rightarrow> and_then (wifi_connect E c ssid pass) (\<lambda>_. ret (Returned True)))
   }"

definition net_start :: "sdk \<Rightarrow> kconfig \<Rightarrow> bool outcome fwm" where
  "net_start E c = (if BRIDGE_NET_WIFI c then net_start_wifi E c else net_start_wired E c)"

section \<open>Facts about the address\<close>

lemma fmt_byte_le: "length (fmt_u (unat (b :: byte))) \<le> 3"
  by (rule length_fmt_u_le) (use byte_cases_le [of b] in simp_all)

lemma length_ip_text: "length (ip_text a) \<le> 15"
proof -
  have "length (fmt_u (unat (ucast a :: byte))) \<le> 3" "length (fmt_u (unat (ucast (drop_bit 8 a) :: byte))) \<le> 3"
    "length (fmt_u (unat (ucast (drop_bit 16 a) :: byte))) \<le> 3"
    "length (fmt_u (unat (ucast (drop_bit 24 a) :: byte))) \<le> 3"
    by (rule fmt_byte_le)+
  then show ?thesis by (simp add: ip_text_def)
qed

lemma dot_not_digit: "46 \<notin> set (fmt_u n)"
  using fmt_u_digits [of 46 n] by (auto simp: is_digit_def)

lemma unat_byte_inject: "unat (x :: byte) = unat y \<longleftrightarrow> x = y"
  by (auto intro: unsigned_word_eqI)

lemma ip_text_inject: "ip_text a = ip_text b \<longleftrightarrow> a = b"
proof
  assume "ip_text a = ip_text b"
  then have "be32 a = be32 b"
    by (simp add: ip_text_def str_def append_sep_inject dot_not_digit fmt_u_inject unat_byte_inject be32_def)
  then show "a = b" by (simp add: be32_codec.enc_inject)
qed simp

lemma run_net_ip_str [simp]:
  "run_state (net_ip_str 16) s = ((g_ip4 s \<noteq> 0, if g_ip4 s = 0 then [] else ip_text (g_ip4 s)), s)"
  using length_ip_text [of "g_ip4 s"] by (simp add: net_ip_str_def snprintf_fits)

lemma g_ip4_events:
  "g_ip4 (snd (run_state (on_got_ip E a) s)) = a" "g_ip4 (snd (run_state on_lost_ip s)) = 0"
  by (auto simp: on_got_ip_def on_lost_ip_def ota_confirm_def pending_verify_def boottrace_mark_def platform_calls
      split: prod.splits if_splits)

section \<open>Form encoding\<close>

text \<open>
  What a browser sends for a field (\<open>application/x-www-form-urlencoded\<close>): letters, digits and four
  other characters as they are, a space as \<open>+\<close>, every other byte as a percent sign and two digits.
\<close>

definition url_plain :: bytes where
  "url_plain = str ''ABCDEFGHIJKLMNOPQRSTUVWXYZabcdefghijklmnopqrstuvwxyz0123456789*-._''"

definition HX :: bytes where
  "HX = str ''0123456789ABCDEF''"

fun url_encode :: "bytes \<Rightarrow> bytes" where
  "url_encode [] = []"
| "url_encode (c # s) =
     (if c = 32 then [43] else if c \<in> set url_plain then [c]
      else [37, HX ! unat (drop_bit 4 c), HX ! unat (c AND 15)]) @ url_encode s"

lemma url_digit_HX: "n < 16 \<Longrightarrow> url_digit (HX ! n) = int n"
proof -
  have "\<forall>n \<in> set [0..<16]. url_digit (HX ! n) = int n" by code_simp
  then show "n < 16 \<Longrightarrow> url_digit (HX ! n) = int n" by simp
qed

lemma HX_mem: "n < 16 \<Longrightarrow> HX ! n \<in> set HX"
  by (rule nth_mem) (simp add: HX_def)

lemma plain_not_special: "43 \<notin> set url_plain" "37 \<notin> set url_plain"
  by code_simp+

lemma url_decode_encode_append: "url_decode (url_encode s @ r) = s @ url_decode r"
proof (induction s)
  case (Cons c s)
  consider "c = 32" | "c \<noteq> 32" "c \<in> set url_plain" | "c \<noteq> 32" "c \<notin> set url_plain" by blast
  then show ?case
  proof cases
    case 2
    with plain_not_special have "c \<noteq> 43" "c \<noteq> 37" by auto
    with 2 Cons show ?thesis by simp
  next
    case 3
    have "word_of_int (int (unat (drop_bit 4 c)) * 16 + int (unat (c AND 15))) = c"
      by (rule hex_byte_split)
    then show ?thesis using 3 Cons hex_byte_split [of c]
      by (simp add: url_digit_HX del: of_int_add of_int_mult)
  qed (use Cons in simp)
qed simp

lemma url_decode_encode: "url_decode (url_encode s) = s"
  using url_decode_encode_append [of s "[]"] by simp

lemma url_encode_append: "url_encode (s @ r) = url_encode s @ url_encode r"
  by (induction s) simp_all

text \<open>The encoding contains no separator and no zero.\<close>

lemma url_encode_alphabet: "set (url_encode s) \<subseteq> set url_plain \<union> set HX \<union> {43, 37}"
proof (induction s)
  case (Cons c s)
  have "HX ! unat (drop_bit 4 c) \<in> set HX" "HX ! unat (c AND 15) \<in> set HX"
    using hex_byte_split [of c] by (auto intro: HX_mem)
  with Cons show ?case by simp
qed simp

lemma url_encode_chars: "c \<in> set (url_encode s) \<Longrightarrow> c \<noteq> 61 \<and> c \<noteq> 38 \<and> c \<noteq> 0"
proof -
  have "\<forall>c \<in> set url_plain \<union> set HX \<union> {43, 37}. c \<noteq> 61 \<and> c \<noteq> 38 \<and> c \<noteq> 0" by code_simp
  then show "c \<in> set (url_encode s) \<Longrightarrow> c \<noteq> 61 \<and> c \<noteq> 38 \<and> c \<noteq> 0"
    using url_encode_alphabet by blast
qed

lemma url_encode_field [simp]:
  "takeWhile (\<lambda>c. c \<noteq> 38) (url_encode s) = url_encode s"
  "takeWhile (\<lambda>c. c \<noteq> 38) (url_encode s @ 38 # r) = url_encode s"
  using url_encode_chars by (auto simp: takeWhile_eq_all_conv takeWhile_append)

section \<open>The fields of the form\<close>

definition form_body :: "bytes \<Rightarrow> bytes \<Rightarrow> bytes" where
  "form_body ssid pass = str ''ssid='' @ url_encode ssid @ str ''&pass='' @ url_encode pass"

lemma strstr_here: "take (length pat) s = pat \<Longrightarrow> strstr s pat = Some s"
  by (cases s) auto

lemma strstr_pass:
  assumes "61 \<notin> set e"
  shows "strstr (e @ str ''&pass='' @ r) (str ''pass='') = Some (str ''pass='' @ r)"
  using assms
proof (induction e)
  case Nil
  show ?case by (simp add: str_def strstr_here)
next
  case (Cons c e)
  have "take 5 (c # e @ str ''&pass='' @ r) \<noteq> str ''pass=''"
  proof
    assume *: "take 5 (c # e @ str ''&pass='' @ r) = str ''pass=''"
    have "(c # e @ str ''&pass='' @ r) ! 4 = take 5 (c # e @ str ''&pass='' @ r) ! 4"
      by (rule nth_take [symmetric]) simp
    also have "\<dots> = 61" unfolding * by (simp add: str_def)
    finally have at: "(e @ str ''&pass='' @ r) ! 3 = 61" by simp
    have "\<not> 3 < length e"
    proof
      assume long: "3 < length e"
      with at have "e ! 3 = 61" by (simp add: nth_append)
      with nth_mem [OF long] Cons.prems show False by simp
    qed
    then have "length e = 0 \<or> length e = 1 \<or> length e = 2 \<or> length e = 3" by linarith
    then show False using at by (auto simp: nth_append str_def)
  qed
  moreover have "length (str ''pass='') = 5" by (simp add: eval_nat_numeral)
  ultimately have "strstr (c # e @ str ''&pass='' @ r) (str ''pass='') =
      strstr (e @ str ''&pass='' @ r) (str ''pass='')"
    by (simp only: strstr.simps if_False)
  with Cons show ?case by simp
qed

lemma form_field_ssid:
  assumes "length (url_encode ssid) \<le> 32"
  shows "form_field (form_body ssid pass) (str ''ssid'') 33 = Some (cstr ssid)"
proof -
  have "takeWhile (\<lambda>c. c \<noteq> 38) (url_encode ssid @ str ''&pass='' @ url_encode pass) = url_encode ssid"
    by (simp add: str_def)
  moreover have "strstr (form_body ssid pass) (str ''ssid='') = Some (form_body ssid pass)"
    by (rule strstr_here) (simp add: form_body_def str_def)
  moreover have "str ''ssid'' @ str ''='' = str ''ssid=''" by (simp add: str_def)
  ultimately show ?thesis
    using assms by (simp add: form_field_def snprintf_def form_body_def url_decode_encode Let_def)
qed

lemma form_field_pass:
  assumes "length (url_encode pass) \<le> 64"
  shows "form_field (form_body ssid pass) (str ''pass'') 65 = Some (cstr pass)"
proof -
  let ?rest = "url_encode ssid @ str ''&pass='' @ url_encode pass"
  have "strstr (str ''ssid='' @ ?rest) (str ''pass='') = strstr ?rest (str ''pass='')"
    by (simp add: str_def)
  also have "\<dots> = Some (str ''pass='' @ url_encode pass)"
    by (rule strstr_pass) (use url_encode_chars in auto)
  finally have "strstr (form_body ssid pass) (str ''pass='') = Some (str ''pass='' @ url_encode pass)"
    by (simp add: form_body_def)
  moreover have "takeWhile (\<lambda>c. c \<noteq> 38) (url_encode pass) = url_encode pass"
    by (rule url_encode_field)
  moreover have "str ''pass'' @ str ''='' = str ''pass=''" by (simp add: str_def)
  ultimately show ?thesis
    using assms by (simp add: form_field_def snprintf_def url_decode_encode Let_def)
qed

text \<open>A field whose encoding is too long for the caller's array is cut before it is decoded.\<close>

lemma form_field_ssid_cut:
  assumes "32 \<le> length (url_encode ssid)"
  shows "form_field (form_body ssid pass) (str ''ssid'') 33 = Some (cstr (url_decode (take 32 (url_encode ssid))))"
proof -
  have "takeWhile (\<lambda>c. c \<noteq> 38) (url_encode ssid @ str ''&pass='' @ url_encode pass) = url_encode ssid"
    by (simp add: str_def)
  moreover have "strstr (form_body ssid pass) (str ''ssid='') = Some (form_body ssid pass)"
    by (rule strstr_here) (simp add: form_body_def str_def)
  moreover have "str ''ssid'' @ str ''='' = str ''ssid=''" by (simp add: str_def)
  ultimately show ?thesis
    using assms by (simp add: form_field_def snprintf_def form_body_def Let_def)
qed

lemma length_url_encode_special:
  "\<forall>b \<in> set s. b \<noteq> 32 \<and> b \<notin> set url_plain \<Longrightarrow> length (url_encode s) = 3 * length s"
  by (induction s) auto

section \<open>The stored credentials\<close>

lemma length_url_encode: "length s \<le> length (url_encode s)"
  by (induction s) auto

lemma cstr_overwrite_zeros:
  assumes "0 \<notin> set v" and "length v < n"
  shows "cstr (overwrite (v @ [0]) (replicate n 0)) = v"
proof -
  from assms(2) obtain k where "n = Suc (length v + k)" using less_natE by blast
  then have "overwrite (v @ [0]) (replicate n 0) = v @ 0 # replicate k 0" by (simp add: overwrite_def)
  then show ?thesis using assms(1) by (simp add: cstr_id)
qed

lemma first_overwrite_zeros: "v \<noteq> [] \<Longrightarrow> length v < n \<Longrightarrow> overwrite (v @ [0]) (replicate n 0) ! 0 = v ! 0"
  by (cases v) (simp_all add: overwrite_def)

lemma padded_field:
  assumes "0 \<notin> set v" and "length v \<le> n"
  shows "overwrite (take (if length (cstr v) < n then length (cstr v) else n) v) (replicate n 0) =
    v @ replicate (n - length v) 0"
  using assms by (auto simp: overwrite_def cstr_id)

text \<open>Strings written and committed are settled.\<close>

lemma settled_strings:
  assumes "\<forall>e \<in> set quiet. nvs_silent e" and "k \<noteq> k'"
  shows "nvs_settled (h @ [Nvs (Nvs_set_str k v ESP_OK), Nvs (Nvs_set_str k' v' ESP_OK),
      Nvs (Nvs_commit ESP_OK)] @ quiet) k = Holds_str v"
    and "nvs_settled (h @ [Nvs (Nvs_set_str k v ESP_OK), Nvs (Nvs_set_str k' v' ESP_OK),
      Nvs (Nvs_commit ESP_OK)] @ quiet) k' = Holds_str v'"
  using assms by (simp_all only: append_assoc [symmetric] nvs_settled_silent)
    (auto simp: nvs_settled_def nvs_store_append settled_in_def nvs_write_def nvs_feed_def)

lemma load_creds_stored:
  assumes law: "nvs_str_law E" and ssid: "nvs_settled (hist s) ''ssid'' = Holds_str ssid"
    and pass: "nvs_settled (hist s) ''pass'' = Holds_str pass"
    and "ssid \<noteq> []" and "0 \<notin> set ssid" and "0 \<notin> set pass" and "length ssid < sl" and "length pass < pl"
  shows "\<exists>new. run_state (load_creds E c sl pl) s = (Some (ssid, pass), s\<lparr>hist := hist s @ new\<rparr>)"
proof -
  have settled: "nvs_open_r (nvs E) False (hist s @ new) = ESP_OK"
      "nvs_get_str_r (nvs E) ''ssid'' sl (hist s @ new) = (ESP_OK, ssid @ [0])"
      "nvs_get_str_r (nvs E) ''pass'' pl (hist s @ new) = (ESP_OK, pass @ [0])"
    if "\<forall>e \<in> set new. nvs_silent e" for new
    using law ssid pass assms(5-8) nvs_settled_silent [OF that] unfolding nvs_str_law_def by metis+
  have "ssid ! 0 \<noteq> 0" using assms(4,5) by (cases ssid) auto
  then show ?thesis
    using assms(4-8) settled [of "[]"]
    by (simp add: load_creds_def platform_calls settled cstr_overwrite_zeros first_overwrite_zeros)
qed

lemma run_portal_save:
  assumes "req_recv_r (http E) 255 (hist s) = Rx (form_body ssid pass)"
    and "length (url_encode ssid) \<le> 32" and "length (url_encode pass) \<le> 64"
    and "ssid \<noteq> []" and "0 \<notin> set ssid" and "0 \<notin> set pass"
    and "\<And>h. nvs_open_r (nvs E) True h = ESP_OK" and "\<And>k v h. nvs_set_str_r (nvs E) k v h = ESP_OK"
    and "\<And>h. nvs_commit_r (nvs E) h = ESP_OK"
  shows "\<exists>e. run_state (portal_save E) s = (Restarted, s\<lparr>hist := hist s @
    [Http (Req_recv 255 (Rx (form_body ssid pass))), Nvs (Nvs_open True ESP_OK),
     Nvs (Nvs_set_str ''ssid'' ssid ESP_OK), Nvs (Nvs_set_str ''pass'' pass ESP_OK),
     Nvs (Nvs_commit ESP_OK), Nvs Nvs_close, Http (Resp_send (str ''saved, rebooting'') e),
     Sys (Delay_ms 500), Sys Esp_restart]\<rparr>)"
proof -
  have "0 \<notin> set (form_body ssid pass)"
    using url_encode_chars [of 0] by (auto simp: form_body_def str_def)
  then have body: "cstr (form_body ssid pass) = form_body ssid pass" by (rule cstr_id)
  have "0 < length (form_body ssid pass)" by (simp add: form_body_def)
  then show ?thesis
    using assms by (simp add: portal_save_def platform_calls ESP_ERROR_CHECK_def body form_field_ssid
        form_field_pass cstr_id)
qed

lemma run_wifi_connect:
  assumes "\<And>a h. net_r E a h = ESP_OK" and "0 \<notin> set ssid" and "0 \<notin> set pass"
    and "length ssid \<le> 32" and "length pass \<le> 64"
  shows "\<exists>h. run_state (wifi_connect E c ssid pass) s = (Returned (), s\<lparr>hist := h @
    [Net (Wifi_set_mode WIFI_MODE_STA) ESP_OK,
     Net (Wifi_set_sta (ssid @ replicate (32 - length ssid) 0) (pass @ replicate (64 - length pass) 0)) ESP_OK,
     Net Wifi_start ESP_OK]\<rparr>)"
  using assms by (simp add: wifi_connect_def platform_calls ESP_ERROR_CHECK_def Let_def padded_field)

lemma net_start_stored:
  assumes "nvs_str_law E" and "nvs_settled (hist s) ''ssid'' = Holds_str ssid"
    and "nvs_settled (hist s) ''pass'' = Holds_str pass"
    and "ssid \<noteq> []" and "0 \<notin> set ssid" and "0 \<notin> set pass" and "length ssid \<le> 32" and "length pass \<le> 64"
    and "\<And>a h. net_r E a h = ESP_OK"
  shows "\<exists>u h. run_state (net_start_wifi E c) s = (Returned True, u) \<and>
    hist u = h @ [Net (Wifi_set_mode WIFI_MODE_STA) ESP_OK,
      Net (Wifi_set_sta (ssid @ replicate (32 - length ssid) 0) (pass @ replicate (64 - length pass) 0)) ESP_OK,
      Net Wifi_start ESP_OK]"
proof -
  obtain new where "run_state (load_creds E c 33 65) s = (Some (ssid, pass), s\<lparr>hist := hist s @ new\<rparr>)"
    using load_creds_stored [OF assms(1-6), of 33 65 c] assms(7,8) by auto
  then show ?thesis
    using run_wifi_connect [OF assms(9,5,6,7,8), of c "s\<lparr>hist := hist s @ new\<rparr>"]
    by (auto simp: net_start_wifi_def and_then_def)
qed

section \<open>Properties\<close>

text \<open>
  C28. Provisioning, end to end. A browser sends the form; if both fields, encoded, fit what the
  portal keeps of them and the storage accepts the writes, the board stores the two values, restarts,
  reads them back whatever it was built with, and hands exactly them to the radio, padded with zeros:
  a name of 32 bytes or a password of 64 is not cut.
\<close>

theorem provisioning_roundtrip:
  assumes "req_recv_r (http E) 255 (hist s) = Rx (form_body ssid pass)"
    and "length (url_encode ssid) \<le> 32" and "length (url_encode pass) \<le> 64"
    and "ssid \<noteq> []" and "0 \<notin> set ssid" and "0 \<notin> set pass"
    and "\<And>h. nvs_open_r (nvs E) True h = ESP_OK" and "\<And>k v h. nvs_set_str_r (nvs E) k v h = ESP_OK"
    and "\<And>h. nvs_commit_r (nvs E) h = ESP_OK" and "nvs_str_law E" and "\<And>a h. net_r E a h = ESP_OK"
    and "\<forall>e \<in> set quiet. nvs_silent e"
  shows "\<exists>t u h. run_state (portal_save E) s = (Restarted, t) \<and>
    run_state (net_start_wifi E c) (restart (t\<lparr>hist := hist t @ quiet\<rparr>)) = (Returned True, u) \<and>
    hist u = h @ [Net (Wifi_set_mode WIFI_MODE_STA) ESP_OK,
      Net (Wifi_set_sta (ssid @ replicate (32 - length ssid) 0) (pass @ replicate (64 - length pass) 0)) ESP_OK,
      Net Wifi_start ESP_OK]"
proof -
  have len: "length ssid \<le> 32" "length pass \<le> 64"
    using assms(2,3) length_url_encode [of ssid] length_url_encode [of pass] by simp_all
  obtain e where run: "run_state (portal_save E) s = (Restarted, s\<lparr>hist := hist s @
      [Http (Req_recv 255 (Rx (form_body ssid pass))), Nvs (Nvs_open True ESP_OK),
       Nvs (Nvs_set_str ''ssid'' ssid ESP_OK), Nvs (Nvs_set_str ''pass'' pass ESP_OK),
       Nvs (Nvs_commit ESP_OK), Nvs Nvs_close, Http (Resp_send (str ''saved, rebooting'') e),
       Sys (Delay_ms 500), Sys Esp_restart]\<rparr>)"
    using run_portal_save [OF assms(1-9)] by blast
  define t where "t = snd (run_state (portal_save E) s)"
  define h1 where "h1 = hist s @ [Http (Req_recv 255 (Rx (form_body ssid pass))), Nvs (Nvs_open True ESP_OK)]"
  have t: "run_state (portal_save E) s = (Restarted, t)" using run by (simp add: t_def)
  have h: "hist t = h1 @ [Nvs (Nvs_set_str ''ssid'' ssid ESP_OK), Nvs (Nvs_set_str ''pass'' pass ESP_OK),
      Nvs (Nvs_commit ESP_OK)] @ [Nvs Nvs_close, Http (Resp_send (str ''saved, rebooting'') e),
      Sys (Delay_ms 500), Sys Esp_restart]"
    using run by (simp add: t_def h1_def)
  let ?r = "restart (t\<lparr>hist := hist t @ quiet\<rparr>)"
  have "nvs_settled (hist ?r) ''ssid'' = Holds_str ssid" "nvs_settled (hist ?r) ''pass'' = Holds_str pass"
    using assms(12) settled_strings [of "[Nvs Nvs_close, Http (Resp_send (str ''saved, rebooting'') e),
      Sys (Delay_ms 500), Sys Esp_restart] @ quiet" "''ssid''" "''pass''" h1 ssid pass]
    by (simp_all add: h)
  then have "\<exists>u h. run_state (net_start_wifi E c) ?r = (Returned True, u) \<and>
    hist u = h @ [Net (Wifi_set_mode WIFI_MODE_STA) ESP_OK,
      Net (Wifi_set_sta (ssid @ replicate (32 - length ssid) 0) (pass @ replicate (64 - length pass) 0)) ESP_OK,
      Net Wifi_start ESP_OK]"
    using len by (intro net_start_stored assms(4-6,10,11))
  with t show ?thesis by blast
qed

text \<open>A platform whose request body is a form, for a network with a space and a separator in its name.\<close>

definition home_ssid :: bytes where
  "home_ssid = str ''my & home''"

definition home_pass :: bytes where
  "home_pass = str ''secret=1''"

definition portal_sdk :: sdk where
  "portal_sdk = toy_sdk (\<lambda>_. []) (form_body home_ssid home_pass) []"

lemma home_facts:
  "length (url_encode home_ssid) \<le> 32" "length (url_encode home_pass) \<le> 64" "home_ssid \<noteq> []"
  "0 \<notin> set home_ssid" "0 \<notin> set home_pass" "length (form_body home_ssid home_pass) \<le> 255"
  by code_simp+

lemma portal_recv: "req_recv_r (http portal_sdk) 255 (hist boot_fw) = Rx (form_body home_ssid home_pass)"
  using home_facts(6) by (simp add: portal_sdk_def toy_sdk_def toy_http_def boot_fw_def body_of_def)

theorem provisioning_roundtrip_witness:
  "\<exists>t u h. run_state (portal_save portal_sdk) boot_fw = (Restarted, t) \<and>
    run_state (net_start_wifi portal_sdk demo_conf) (restart (t\<lparr>hist := hist t @ []\<rparr>)) = (Returned True, u) \<and>
    hist u = h @ [Net (Wifi_set_mode WIFI_MODE_STA) ESP_OK,
      Net (Wifi_set_sta (home_ssid @ replicate (32 - length home_ssid) 0)
        (home_pass @ replicate (64 - length home_pass) 0)) ESP_OK,
      Net Wifi_start ESP_OK]"
  by (rule provisioning_roundtrip [OF portal_recv home_facts(1-5)])
    (simp_all add: portal_sdk_def toy_nvs_str_law, simp_all add: toy_sdk_def toy_nvs_def)

text \<open>
  C37. A limit of the portal. The form's field is cut to 32 bytes before it is decoded, so what counts
  is the length of the encoded name: of a name outside the plain alphabet only ten bytes survive,
  followed by the torn rest of an escape sequence. The field of the page admits 31 characters.
\<close>

theorem portal_cuts_encoded_name:
  assumes "11 \<le> length ssid" and "\<forall>b \<in> set ssid. b \<noteq> 32 \<and> b \<notin> set url_plain \<and> b \<noteq> 0"
  shows "form_field (form_body ssid pass) (str ''ssid'') 33 =
    Some (take 10 ssid @ [37, HX ! unat (drop_bit 4 (ssid ! 10))])"
proof -
  obtain a b r where ssid: "ssid = a @ b # r" and a: "length a = 10"
    using assms(1) id_take_nth_drop [of 10 ssid] by (metis Suc_le_eq eval_nat_numeral(3) length_take min.absorb2 less_imp_le)
  have la: "length (url_encode a) = 30" using assms(2) a ssid length_url_encode_special [of a] by simp
  let ?h = "HX ! unat (drop_bit 4 b)"
  have "?h \<in> set HX" using hex_byte_split(1) by (rule HX_mem)
  moreover have "\<forall>c \<in> set HX. c \<noteq> 43 \<and> c \<noteq> 37 \<and> c \<noteq> 0" by code_simp
  ultimately have h: "?h \<noteq> 43" "?h \<noteq> 37" "?h \<noteq> 0" by auto
  have "take 32 (url_encode ssid) = url_encode a @ [37, ?h]"
    using assms(2) la by (simp add: ssid url_encode_append)
  then have "url_decode (take 32 (url_encode ssid)) = a @ [37, ?h]"
    using h by (simp add: url_decode_encode_append)
  moreover have "0 \<notin> set (a @ [37, ?h])" using assms(2) ssid h by auto
  moreover have "32 \<le> length (url_encode ssid)"
    using assms length_url_encode_special [of ssid] by simp
  ultimately show ?thesis using a by (simp add: form_field_ssid_cut cstr_id ssid nth_append)
qed

text \<open>Eleven times a letter outside ASCII.\<close>

theorem portal_cuts_encoded_name_witness:
  "form_field (form_body (replicate 11 0xe4) []) (str ''ssid'') 33 = Some (replicate 10 0xe4 @ str ''%E'')"
proof -
  have "\<forall>b \<in> set (replicate 11 (0xe4 :: byte)). b \<noteq> 32 \<and> b \<notin> set url_plain \<and> b \<noteq> 0" by code_simp
  moreover have "[37, HX ! unat (drop_bit 4 (replicate 11 (0xe4 :: byte) ! 10))] = str ''%E''" by code_simp
  ultimately show ?thesis using portal_cuts_encoded_name [of "replicate 11 0xe4" "[]"] by simp
qed

text \<open>
  What the caller of \<open>net_start\<close> learns. On Ethernet it returns true, after the driver started. On
  WiFi it returns true exactly when credentials were found, after the station started; otherwise the
  portal is up with its two pages, no station was configured, and the caller is told not to go on.
\<close>

lemma net_start_result:
  assumes "run_state (net_start E c) s = (Returned b, t)"
  shows "if BRIDGE_NET_WIFI c
    then (b \<longleftrightarrow> fst (run_state (load_creds E c 33 65) s) \<noteq> None) \<and>
      (if b then last (hist t) = Net Wifi_start ESP_OK
       else \<exists>h r1 r2. hist t = h @ [Net Wifi_start ESP_OK, Ota (Httpd_start ESP_OK),
          Ota (Httpd_register ''/'' ''portal_get'' r1), Ota (Httpd_register ''/save'' ''portal_save'' r2)])
    else b \<and> last (hist t) = Net Eth_start ESP_OK"
proof (cases "BRIDGE_NET_WIFI c")
  case False
  with assms show ?thesis
    by (auto simp: net_start_def net_start_wired_def net_start_eth_def make_phy_def platform_calls
        ESP_ERROR_CHECK_def and_then_def split: if_splits)
next
  case True
  obtain creds u where u: "run_state (load_creds E c 33 65) s = (creds, u)" by fastforce
  show ?thesis
  proof (cases creds)
    case None
    with True u assms show ?thesis
      by (auto simp: net_start_def net_start_wifi_def start_portal_def platform_calls
          ESP_ERROR_CHECK_def and_then_def split: if_splits)
  next
    case (Some p)
    with True u assms show ?thesis
      by (auto simp: net_start_def net_start_wifi_def wifi_connect_def platform_calls
          ESP_ERROR_CHECK_def and_then_def Let_def split: if_splits prod.splits)
  qed
qed

text \<open>
  The address as text. Once the network reports an address, and until it reports its loss,
  \<open>net_ip_str\<close> has its text, at most 15 characters, and no other address has the same text; without
  an address it returns false.
\<close>

lemma ip_text_reports_address:
  "run_state (net_ip_str 16) (snd (run_state (on_got_ip E a) s)) =
     ((a \<noteq> 0, if a = 0 then [] else ip_text a), snd (run_state (on_got_ip E a) s)) \<and>
   fst (run_state (net_ip_str 16) (snd (run_state on_lost_ip s))) = (False, []) \<and>
   length (ip_text a) \<le> 15 \<and> (ip_text a = ip_text b \<longleftrightarrow> a = b)"
  by (simp add: g_ip4_events length_ip_text ip_text_inject)

end
