(* ===== verification/Discovery.thy ===== *)
theory Discovery
  imports Net
begin

text \<open>
  \<open>discovery_task\<close> of \<open>firmware/main/glue.c\<close>: the board broadcasts an announcement every two seconds
  and answers probes, and the host's reader of it in \<open>common/discovery.zig\<close> and
  \<open>common/auth.zig\<close>.
\<close>

section \<open>The board\<close>

definition DISCOVERY_PORT :: u16 where "DISCOVERY_PORT = 4445"
definition ANNOUNCE_INTERVAL_MS :: u32 where "ANNOUNCE_INTERVAL_MS = 2000"
definition PROBE_REPLIES_PER_S :: int where "PROBE_REPLIES_PER_S = 5"

definition sock_sendto :: "sdk \<Rightarrow> int \<Rightarrow> bytes \<Rightarrow> sockaddr \<Rightarrow> int fwm" where
  "sock_sendto E fd d a = call (sendto_r (sock E) fd d a) (\<lambda>r. Sock (Sock_sendto fd d a r))"

definition sock_recvfrom :: "sdk \<Rightarrow> int \<Rightarrow> nat \<Rightarrow> (rx \<times> sockaddr) fwm" where
  "sock_recvfrom E fd n =
     call (recvfrom_r (sock E) fd n) (\<lambda>(r, a). Sock (Sock_recvfrom fd n r a))"

text \<open>The variables of the task.\<close>

record disc =
  bdaddr :: bytes
  announce :: bytes
  alen :: nat
  last_announce :: u32
  reply_window :: u32
  replies :: int

definition announce_text :: "bytes \<Rightarrow> nat \<Rightarrow> bytes \<Rightarrow> bytes \<Rightarrow> bytes" where
  "announce_text bd port name sig =
     str ''ESPHCI1'' @ 9 # str ''ANNOUNCE'' @ 9 # bd @ 9 # fmt_u port @ 9 # name @ 9 # sig @ [10]"

definition discovery_bcast :: sockaddr where
  "discovery_bcast = Sockaddr INADDR_BROADCAST DISCOVERY_PORT"

text \<open>
  Sending \<open>alen\<close> bytes of the array \<open>announce[224]\<close>, which ends with a zero. \<open>None\<close>: the length is
  that of the whole text, which may be more than the array has.
\<close>

definition send_announce :: "sdk \<Rightarrow> int \<Rightarrow> disc \<Rightarrow> sockaddr \<Rightarrow> disc option fwm" where
  "send_announce E fd d dest =
     (if 224 < alen d then ret None
      else do {
        n \<leftarrow> sock_sendto E fd (take (alen d) (announce d @ [0])) dest;
        ret (Some d)
      })"

text \<open>The first half of an iteration. \<open>None\<close> stands for a read past the end of an array, here and below.\<close>

definition discovery_announce :: "sdk \<Rightarrow> kconfig \<Rightarrow> int \<Rightarrow> disc \<Rightarrow> disc option fwm" where
  "discovery_announce E c fd d = do {
     now \<leftarrow> glue_millis E;
     if ANNOUNCE_INTERVAL_MS \<le> now - last_announce d then do {
       let d = d\<lparr>last_announce := now, alen := 0\<rparr>;
       (up, ip) \<leftarrow> net_ip_str 16;
       if up then do {
         (n, sig) \<leftarrow> auth_announce_sig E (bdaddr d) (BRIDGE_TCP_PORT c) (BRIDGE_HOSTNAME c) ip 40;
         (case sig of
            Sig_text sig \<Rightarrow> do {
              let (n, text) = snprintf 224 (announce_text (bdaddr d) (BRIDGE_TCP_PORT c) (BRIDGE_HOSTNAME c) sig);
              let d = d\<lparr>announce := text, alen := n\<rparr>;
              send_announce E fd d discovery_bcast
            }
          | _ \<Rightarrow> ret None)
       } else ret (Some d)
     } else ret (Some d)
   }"

text \<open>\<open>strncmp\<close> over 13 bytes: the pattern has no zero, so all 13 must be there.\<close>

definition is_probe :: "bytes \<Rightarrow> bool" where
  "is_probe buf \<longleftrightarrow> take 13 buf = str ''ESPHCI1'' @ 9 # str ''PROBE''"

text \<open>The second half.\<close>

definition discovery_reply :: "sdk \<Rightarrow> int \<Rightarrow> disc \<Rightarrow> disc option fwm" where
  "discovery_reply E fd d = do {
     (r, sender) \<leftarrow> sock_recvfrom E fd 63;
     if rx_n r \<le> 0 \<or> alen d = 0 then ret (Some d)
     else if \<not> is_probe (rx_data r) then ret (Some d)
     else do {
       now \<leftarrow> glue_millis E;
       let d = (if 1000 \<le> now - reply_window d then d\<lparr>reply_window := now, replies := 0\<rparr> else d);
       if replies d < PROBE_REPLIES_PER_S
       then send_announce E fd (d\<lparr>replies := replies d + 1\<rparr>) sender
       else ret (Some d)
     }
   }"

definition discovery_iter :: "sdk \<Rightarrow> kconfig \<Rightarrow> int \<Rightarrow> disc \<Rightarrow> disc option fwm" where
  "discovery_iter E c fd d = do {
     r \<leftarrow> discovery_announce E c fd d;
     (case r of None \<Rightarrow> ret None | Some d \<Rightarrow> discovery_reply E fd d)
   }"

text \<open>
  The loop never ends; this is a part of it, one iteration for each element of the list. The element
  is what other tasks do to the shared variables before the iteration.
\<close>

fun discovery_loop :: "sdk \<Rightarrow> kconfig \<Rightarrow> int \<Rightarrow> (fw \<Rightarrow> fw) list \<Rightarrow> disc \<Rightarrow> disc option fwm" where
  "discovery_loop E c fd [] d = ret (Some d)"
| "discovery_loop E c fd (other # others) d = do {
     modify (\<lambda>s. (other s)\<lparr>hist := hist s\<rparr>);
     r \<leftarrow> discovery_iter E c fd d;
     (case r of None \<Rightarrow> ret None | Some d \<Rightarrow> discovery_loop E c fd others d)
   }"

text \<open>Up to the loop: \<open>None\<close> when there is no socket and the task deletes itself.\<close>

definition discovery_setup :: "sdk \<Rightarrow> (int \<times> disc) option fwm" where
  "discovery_setup E = do {
     (e, mac) \<leftarrow> esp_read_mac E;
     let (n, bd) = snprintf 18 (bdaddr_text mac);
     fd \<leftarrow> sock_socket E False;
     if fd < 0 then do { notify (Rtos Task_delete); ret None }
     else do {
       sock_setopt fd SO_BROADCAST 1;
       sock_setopt fd SO_REUSEADDR 1;
       b \<leftarrow> sock_bind E fd DISCOVERY_PORT;
       set_rcvtimeo fd 1 0;
       now \<leftarrow> glue_millis E;
       ret (Some (fd, \<lparr>bdaddr = bd, announce = [], alen = 0, last_announce = now - ANNOUNCE_INTERVAL_MS,
         reply_window = 0, replies = 0\<rparr>))
     }
   }"

definition discovery_task :: "sdk \<Rightarrow> kconfig \<Rightarrow> (fw \<Rightarrow> fw) list \<Rightarrow> (int \<times> disc) option option fwm" where
  "discovery_task E c others = do {
     r \<leftarrow> discovery_setup E;
     (case r of
        None \<Rightarrow> ret (Some None)
      | Some (fd, d) \<Rightarrow> do {
          r \<leftarrow> discovery_loop E c fd others d;
          ret (map_option (\<lambda>d. Some (fd, d)) r)
        })
   }"

section \<open>The host\<close>

datatype Message = Probe | Announce bytes nat bytes bytes
datatype ParseError = BadMagic | BadFormat | UnknownKind

fun splitScalar :: "byte \<Rightarrow> bytes \<Rightarrow> bytes list" where
  "splitScalar c [] = [[]]"
| "splitScalar c (x # xs) =
     (if x = c then [] # splitScalar c xs
      else case splitScalar c xs of [] \<Rightarrow> [[x]] | f # fs \<Rightarrow> (x # f) # fs)"

text \<open>
  \<open>std.fmt.parseInt\<close> for \<open>u16\<close> and base 10: an optional sign, digits, underscores between
  them; a negative number is out of range unless it is zero.
\<close>

definition parse_digits :: "bytes \<Rightarrow> nat option" where
  "parse_digits s =
     (if s = [] \<or> hd s = 95 \<or> last s = 95 \<or> \<not> list_all (\<lambda>b. is_digit b \<or> b = 95) s then None
      else Some (dec_val (filter (\<lambda>b. b \<noteq> 95) s)))"

definition in_range :: "nat \<Rightarrow> nat option \<Rightarrow> nat option" where
  "in_range m r = (case r of None \<Rightarrow> None | Some n \<Rightarrow> if n < m then Some n else None)"

definition parse_u16 :: "bytes \<Rightarrow> nat option" where
  "parse_u16 s =
     (if s = [] then None
      else if hd s = 43 then in_range 65536 (parse_digits (tl s))
      else if hd s = 45 then in_range 1 (parse_digits (tl s))
      else in_range 65536 (parse_digits s))"

definition parse_announce :: "bytes list \<Rightarrow> ParseError + Message" where
  "parse_announce it =
     (case it of
        bd # port_s # name # it \<Rightarrow>
          let (sig, it) = (case it of [] \<Rightarrow> (str ''-'', []) | sig # it \<Rightarrow> (sig, it)) in
          if it \<noteq> [] then Inl BadFormat
          else if length bd \<noteq> 17 then Inl BadFormat
          else (case parse_u16 port_s of
                  None \<Rightarrow> Inl BadFormat
                | Some port \<Rightarrow> if length name = 0 then Inl BadFormat else Inr (Announce bd port name sig))
      | _ \<Rightarrow> Inl BadFormat)"

definition parse :: "bytes \<Rightarrow> ParseError + Message" where
  "parse data =
     (let line = (if 0 < length data \<and> last data = 10 then butlast data else data) in
      case splitScalar 9 line of
        [] \<Rightarrow> Inl BadFormat
      | m # it \<Rightarrow>
          if m \<noteq> str ''ESPHCI1'' then Inl BadMagic
          else (case it of
              [] \<Rightarrow> Inl BadFormat
            | kind # it \<Rightarrow>
                if kind = str ''PROBE'' then Inr Probe
                else if kind \<noteq> str ''ANNOUNCE'' then Inl UnknownKind
                else parse_announce it))"

definition ctEqual :: "bytes \<Rightarrow> bytes \<Rightarrow> bool" where
  "ctEqual a b = (if length a \<noteq> length b then False else fold (\<lambda>(x, y) diff. diff OR (x XOR y)) (zip a b) 0 = 0)"

definition announce_msg :: "bytes \<Rightarrow> nat \<Rightarrow> bytes \<Rightarrow> bytes \<Rightarrow> bytes" where
  "announce_msg bd port name ip =
     bd @ str [CHR 0x09] @ fmt_u port @ str [CHR 0x09] @ name @ str [CHR 0x09] @
     fmt_u (unat (ip ! 0)) @ str ''.'' @ fmt_u (unat (ip ! 1)) @ str ''.'' @
     fmt_u (unat (ip ! 2)) @ str ''.'' @ fmt_u (unat (ip ! 3))"

definition announceSig :: "(bytes \<Rightarrow> bytes \<Rightarrow> bytes) \<Rightarrow> bytes \<Rightarrow> bytes \<Rightarrow> nat \<Rightarrow> bytes \<Rightarrow> bytes \<Rightarrow> bytes" where
  "announceSig hm psk bd port name ip = hexlify (hm psk (announce_msg bd port name ip)) 16"

definition verifyAnnounce ::
  "(bytes \<Rightarrow> bytes \<Rightarrow> bytes) \<Rightarrow> bytes \<Rightarrow> bytes \<Rightarrow> nat \<Rightarrow> bytes \<Rightarrow> bytes \<Rightarrow> bytes \<Rightarrow> bool" where
  "verifyAnnounce hm psk bd port name ip sig = ctEqual (announceSig hm psk bd port name ip) sig"

section \<open>Reading an announcement\<close>

lemma splitScalar_sep: "c \<notin> set a \<Longrightarrow> splitScalar c (a @ c # r) = a # splitScalar c r"
  by (induction a) (auto split: list.splits)

lemma splitScalar_last: "c \<notin> set a \<Longrightarrow> splitScalar c a = [a]"
  by (induction a) auto

lemma digit_not: "is_digit b \<Longrightarrow> b \<noteq> 9 \<and> b \<noteq> 43 \<and> b \<noteq> 45 \<and> b \<noteq> 95 \<and> b \<noteq> 46"
  by (auto simp: is_digit_def)

lemma fmt_u_not: "9 \<notin> set (fmt_u n)" "43 \<notin> set (fmt_u n)" "45 \<notin> set (fmt_u n)" "95 \<notin> set (fmt_u n)"
  using fmt_u_digits [of _ n] digit_not by blast+

lemma parse_digits_fmt_u: "parse_digits (fmt_u n) = Some n"
proof -
  have "list_all (\<lambda>b. is_digit b \<or> b = 95) (fmt_u n)" using fmt_u_digits by (auto simp: list_all_iff)
  moreover have "hd (fmt_u n) \<noteq> 95" "last (fmt_u n) \<noteq> 95"
    using fmt_u_not(4) [of n] hd_in_set [OF fmt_u_nonempty] last_in_set [OF fmt_u_nonempty] by metis+
  moreover have "filter (\<lambda>b. b \<noteq> 95) (fmt_u n) = fmt_u n"
    using fmt_u_not(4) by (auto simp: filter_id_conv)
  ultimately show ?thesis by (simp add: parse_digits_def dec_val_fmt_u)
qed

lemma parse_u16_fmt_u: "n < 65536 \<Longrightarrow> parse_u16 (fmt_u n) = Some n"
proof -
  have "hd (fmt_u n) \<noteq> 43" "hd (fmt_u n) \<noteq> 45"
    using fmt_u_not(2,3) [of n] hd_in_set [OF fmt_u_nonempty] by metis+
  then show "n < 65536 \<Longrightarrow> parse_u16 (fmt_u n) = Some n"
    by (simp add: parse_u16_def parse_digits_fmt_u in_range_def)
qed

lemma parse_announce_text:
  assumes "length bd = 17" and "9 \<notin> set bd" and "port < 65536" and "name \<noteq> []" and "9 \<notin> set name"
    and "9 \<notin> set sig"
  shows "parse (announce_text bd port name sig) = Inr (Announce bd port name sig)"
proof -
  have lit: "9 \<notin> set (str ''ESPHCI1'')" "9 \<notin> set (str ''ANNOUNCE'')" "str ''ANNOUNCE'' \<noteq> str ''PROBE''"
    by code_simp+
  have "butlast (announce_text bd port name sig) =
      str ''ESPHCI1'' @ 9 # str ''ANNOUNCE'' @ 9 # bd @ 9 # fmt_u port @ 9 # name @ 9 # sig"
    and "last (announce_text bd port name sig) = 10" and "announce_text bd port name sig \<noteq> []"
    by (simp_all add: announce_text_def butlast_append)
  then show ?thesis
    using assms lit fmt_u_not(1)
    by (simp add: parse_def parse_announce_def Let_def splitScalar_sep splitScalar_last parse_u16_fmt_u)
qed

lemma hx_chars: "n < 16 \<Longrightarrow> hx ! n \<noteq> 9"
proof -
  have "\<forall>c \<in> set hx. c \<noteq> 9" by code_simp
  then show "n < 16 \<Longrightarrow> hx ! n \<noteq> 9" by simp
qed

lemma hex_no_tab: "9 \<notin> set (hexlify b n)" "9 \<notin> set (fmt_02x x)"
  using hx_chars hex_byte_split by (auto simp: hexlify_def fmt_02x_def)

lemma bdaddr_text_ok: "length (bdaddr_text mac) = 17" "9 \<notin> set (bdaddr_text mac)"
  using hex_no_tab(2) by (auto simp: bdaddr_text_def str_def)

section \<open>The signature\<close>

lemma fold_xor_zero: "fold (\<lambda>(x, y) d. d OR (x XOR y)) ps (d :: byte) = 0 \<longleftrightarrow> d = 0 \<and> (\<forall>(x, y) \<in> set ps. x = y)"
  by (induction ps arbitrary: d) (auto simp: or_eq_0_iff xor_eq_0_iff)

lemma ctEqual_iff: "ctEqual a b \<longleftrightarrow> a = b"
proof (cases "length a = length b")
  case True
  then show ?thesis
    by (induction a b rule: list_induct2) (simp_all add: ctEqual_def fold_xor_zero xor_eq_0_iff)
qed (auto simp: ctEqual_def)

definition ip_bytes :: "u32 \<Rightarrow> bytes" where
  "ip_bytes a = [ucast a, ucast (drop_bit 8 a), ucast (drop_bit 16 a), ucast (drop_bit 24 a)]"

lemma announce_msg_ip: "announce_msg bd port name (ip_bytes a) =
   concat [bd, [9], fmt_u port, [9], name, [9], ip_text a]"
  by (simp add: announce_msg_def ip_bytes_def ip_text_def str_def)

lemma run_announce_sig:
  assumes "md_ok E" and "hmac_law E hm" and "port < 65536"
  shows "\<exists>n new. run_state (auth_announce_sig E bd port name (ip_text a) 40) s =
    ((n, Sig_text (if g_claimed s then announceSig hm (g_psk s) bd port name (ip_bytes a) else str ''-'')),
     s\<lparr>hist := hist s @ new\<rparr>)"
proof (cases "g_claimed s")
  case False
  then show ?thesis by (intro exI [of _ 1] exI [of _ "[]"]) (simp add: auth_announce_sig_def)
next
  case True
  have len: "length (fmt_u port) \<le> 5" using assms(3) by (intro length_fmt_u_le) simp_all
  let ?parts = "[bd, [9], fmt_u port, [9], name, [9], ip_text a]"
  obtain t where t: "run_state (hmac_parts E (g_psk s) ?parts) s = (Some (hm (g_psk s) (concat ?parts)), t)"
    using assms(1,2) by (rule hmac_parts_complete)
  obtain new where "t = s\<lparr>hist := hist s @ new\<rparr>" using emits_hmac_parts t by (rule emitsE)
  with t True len show ?thesis
    by (simp add: auth_announce_sig_def snprintf_fits announceSig_def announce_msg_ip)
qed

section \<open>One iteration\<close>

text \<open>What the clock of a platform shows, in milliseconds since the start.\<close>

definition millis :: "sdk \<Rightarrow> history \<Rightarrow> int" where
  "millis E h = get_time_r (sys E) h sdiv 1000"

lemma run_glue_millis [simp]:
  "run_state (glue_millis E) s =
     (word_of_int (millis E (hist s)), s\<lparr>hist := hist s @ [Sys (Get_time (get_time_r (sys E) (hist s)))]\<rparr>)"
  by (simp add: glue_millis_def platform_calls millis_def)

lemma run_sendto [simp]:
  "run_state (sock_sendto E fd b a) s = (sendto_r (sock E) fd b a (hist s),
     s\<lparr>hist := hist s @ [Sock (Sock_sendto fd b a (sendto_r (sock E) fd b a (hist s)))]\<rparr>)"
  by (simp add: sock_sendto_def)

lemma run_recvfrom [simp]:
  "run_state (sock_recvfrom E fd n) s = (recvfrom_r (sock E) fd n (hist s),
     s\<lparr>hist := hist s @ [case recvfrom_r (sock E) fd n (hist s) of (r, a) \<Rightarrow> Sock (Sock_recvfrom fd n r a)]\<rparr>)"
  by (simp add: sock_recvfrom_def)

lemma length_announceSig [simp]: "length (announceSig hm k bd port name ip) = 32"
  by (simp add: announceSig_def)

lemma length_announce_text: "length (announce_text bd port name sig) =
   21 + length bd + length (fmt_u port) + length name + length sig"
  by (simp add: announce_text_def)

definition due :: "sdk \<Rightarrow> disc \<Rightarrow> fw \<Rightarrow> bool" where
  "due E d s \<longleftrightarrow> ANNOUNCE_INTERVAL_MS \<le> word_of_int (millis E (hist s)) - last_announce d"

text \<open>The names with which an announcement can be read: not empty, no tab, short enough for the array.\<close>

definition announceable :: "kconfig \<Rightarrow> bool" where
  "announceable c \<longleftrightarrow> BRIDGE_TCP_PORT c < 65536 \<and> BRIDGE_HOSTNAME c \<noteq> [] \<and> 9 \<notin> set (BRIDGE_HOSTNAME c) \<and>
     length (BRIDGE_HOSTNAME c) \<le> 148"

text \<open>The announcement as a message format: every field can be read off it.\<close>

definition announce_wf :: "bytes \<times> nat \<times> bytes \<times> bytes \<Rightarrow> bool" where
  "announce_wf f = (case f of (bd, port, name, ip) \<Rightarrow> 9 \<notin> set bd \<and> 9 \<notin> set name \<and> length ip = 4)"

lemma list4_eq: "length x = 4 \<Longrightarrow> length y = 4 \<Longrightarrow> x ! 0 = y ! 0 \<Longrightarrow> x ! 1 = y ! 1 \<Longrightarrow> x ! 2 = y ! 2 \<Longrightarrow>
    x ! 3 = y ! 3 \<Longrightarrow> x = y"
  by (rule nth_equalityI) (auto simp: less_Suc_eq numeral_eq_Suc)

interpretation announce_role: mac_role "\<lambda>(bd, port, name, ip). announce_msg bd port name ip" announce_wf
proof unfold_locales
  fix x y :: "bytes \<times> nat \<times> bytes \<times> bytes"
  assume "announce_wf x" and "announce_wf y"
    and "(case x of (bd, port, name, ip) \<Rightarrow> announce_msg bd port name ip) =
         (case y of (bd, port, name, ip) \<Rightarrow> announce_msg bd port name ip)"
  then show "x = y"
    by (cases x; cases y)
      (auto simp: announce_wf_def announce_msg_def str_def append_sep_inject fmt_u_not dot_not_digit
        fmt_u_inject unat_byte_inject intro: list4_eq)
qed

lemma hexlify_take: "hexlify (take n b) n = hexlify b n"
  unfolding hexlify_def by (rule arg_cong [where f = concat], rule map_cong) simp_all

lemma hexlify_inject:
  assumes "n \<le> length a" and "n \<le> length b" and "hexlify a n = hexlify b n"
  shows "take n a = take n b"
  using assms hex_codec.enc_inject [of "take n a" "take n b"] by (simp add: hexlify_take)

section \<open>Staying inside the arrays\<close>

definition disc_ok :: "disc \<Rightarrow> bool" where
  "disc_ok d \<longleftrightarrow> length (bdaddr d) = 17 \<and> alen d \<le> 224"

definition short_name :: "kconfig \<Rightarrow> bool" where
  "short_name c \<longleftrightarrow> length (fmt_u (BRIDGE_TCP_PORT c)) \<le> 8 \<and>
     length (fmt_u (BRIDGE_TCP_PORT c)) + length (BRIDGE_HOSTNAME c) \<le> 154"

lemma announce_sig_text:
  assumes "length (fmt_u port) \<le> 8"
  shows "\<exists>n sig. fst (run_state (auth_announce_sig E bd port name ip 40) s) = (n, Sig_text sig) \<and> length sig \<le> 32"
  using assms by (auto simp: auth_announce_sig_def snprintf_def split: prod.splits option.splits)

lemma send_announce_some: "alen d \<le> 224 \<Longrightarrow> fst (run_state (send_announce E fd d a) s) = Some d"
  by (simp add: send_announce_def)

lemma discovery_announce_some:
  assumes "short_name c" and "disc_ok d"
  shows "\<exists>d'. fst (run_state (discovery_announce E c fd d) s) = Some d' \<and> disc_ok d'"
proof (cases "due E d s \<and> g_ip4 s \<noteq> 0")
  case False
  with assms(2) show ?thesis by (auto simp: discovery_announce_def due_def disc_ok_def Let_def)
next
  case True
  let ?s = "s\<lparr>hist := hist s @ [Sys (Get_time (get_time_r (sys E) (hist s)))]\<rparr>"
  obtain n sig u where sig: "run_state (auth_announce_sig E (bdaddr d) (BRIDGE_TCP_PORT c) (BRIDGE_HOSTNAME c)
      (ip_text (g_ip4 s)) 40) ?s = ((n, Sig_text sig), u)" "length sig \<le> 32"
    using assms(1) announce_sig_text [of "BRIDGE_TCP_PORT c" E "bdaddr d" "BRIDGE_HOSTNAME c" "ip_text (g_ip4 s)" ?s]
    unfolding short_name_def by (metis prod.collapse)
  then have "length (announce_text (bdaddr d) (BRIDGE_TCP_PORT c) (BRIDGE_HOSTNAME c) sig) \<le> 224"
    using assms by (simp add: length_announce_text short_name_def disc_ok_def)
  with True sig(1) assms(2) show ?thesis
    by (simp add: discovery_announce_def due_def snprintf_def Let_def send_announce_some disc_ok_def)
qed

lemma discovery_reply_some:
  assumes "disc_ok d"
  shows "\<exists>d'. fst (run_state (discovery_reply E fd d) s) = Some d' \<and> disc_ok d'"
  using assms by (auto simp: discovery_reply_def disc_ok_def Let_def send_announce_some split: prod.splits)

lemma discovery_iter_some:
  assumes "short_name c" and "disc_ok d"
  shows "\<exists>d'. fst (run_state (discovery_iter E c fd d) s) = Some d' \<and> disc_ok d'"
proof -
  obtain d1 t where a: "run_state (discovery_announce E c fd d) s = (Some d1, t)" and d1: "disc_ok d1"
    using discovery_announce_some [OF assms, of E fd s] by (metis prod.collapse)
  show ?thesis using a discovery_reply_some [OF d1, of E fd t] by (simp add: discovery_iter_def)
qed

lemma discovery_loop_some:
  assumes "short_name c"
  shows "disc_ok d \<Longrightarrow> fst (run_state (discovery_loop E c fd others d) s) \<noteq> None"
proof (induction others arbitrary: d s)
  case (Cons other others)
  let ?s = "(other s)\<lparr>hist := hist s\<rparr>"
  obtain d1 t where "run_state (discovery_iter E c fd d) ?s = (Some d1, t)" and "disc_ok d1"
    using discovery_iter_some [OF assms Cons.prems, of E fd ?s] by (metis prod.collapse)
  with Cons.IH show ?case by simp
qed simp

lemma discovery_setup_ok:
  "run_state (discovery_setup E) s = (Some (fd, d), t) \<Longrightarrow> disc_ok d \<and> replies d = 0"
  by (auto simp: discovery_setup_def platform_calls socket_calls snprintf_fits bdaddr_text_ok disc_ok_def
      split: prod.splits if_splits)

section \<open>The rate of datagrams\<close>

fun is_sendto :: "event \<Rightarrow> bool" where
  "is_sendto (Sock (Sock_sendto fd b a r)) = True"
| "is_sendto _ = False"

definition datagrams :: "history \<Rightarrow> int" where
  "datagrams h = int (length (filter is_sendto h))"

lemma datagrams_simps [simp]: "datagrams [] = 0" "datagrams (a @ b) = datagrams a + datagrams b"
  "datagrams (e # h) = (if is_sendto e then 1 else 0) + datagrams h"
  by (simp_all add: datagrams_def)

lemma datagrams_silent: "set h \<subseteq> md_events \<Longrightarrow> datagrams h = 0"
  by (induction h) (auto simp: md_events_def)

text \<open>Documented: the clock starts at zero and never goes back.\<close>

definition clock_law :: "sdk \<Rightarrow> bool" where
  "clock_law E \<longleftrightarrow>
     (\<forall>h h'. 0 \<le> get_time_r (sys E) h \<and> get_time_r (sys E) h \<le> get_time_r (sys E) (h @ h'))"

lemma sdiv_nonneg: "0 \<le> a \<Longrightarrow> a sdiv 1000 = a div (1000 :: int)"
  by (cases "a = 0") (simp_all add: signed_divide_int_def)

lemma millis_mono: "clock_law E \<Longrightarrow> millis E h \<le> millis E (h @ h')"
  by (simp add: clock_law_def millis_def sdiv_nonneg zdiv_mono1)

text \<open>
  The 32-bit clock wraps around after 49 days. A window that begins at the true time \<open>W\<close> is found to
  be over at a true time \<open>N\<close> only if it is: \<open>anch\<close> states this for all times from \<open>T\<close> on.
\<close>

definition anch :: "int \<Rightarrow> u32 \<Rightarrow> int \<Rightarrow> int \<Rightarrow> bool" where
  "anch P w W T \<longleftrightarrow> (\<forall>N. T \<le> N \<longrightarrow> P \<le> uint (word_of_int N - w) \<longrightarrow> W + P \<le> N)"

lemma anch_mono: "anch P w W T \<Longrightarrow> T \<le> T' \<Longrightarrow> anch P w W T'"
  by (auto simp: anch_def)

lemma anch_now: "anch P (word_of_int N) N N"
proof -
  have "uint (word_of_int M - word_of_int N :: u32) \<le> M - N" if "N \<le> M" for M
    using that zmod_le_nonneg_dividend [of "M - N" "2 ^ 32"]
    by (simp add: uint_word_ariths uint_word_of_int mod_diff_eq)
  then show ?thesis by (fastforce simp: anch_def)
qed

lemma anch_any: "anch P w (T - P) T"
  by (simp add: anch_def)

definition anchored :: "disc \<Rightarrow> int \<Rightarrow> int \<Rightarrow> int \<Rightarrow> bool" where
  "anchored d L W T \<longleftrightarrow> L \<le> T \<and> W \<le> T \<and> anch 2000 (last_announce d) L T \<and> anch 1000 (reply_window d) W T \<and>
     0 \<le> replies d \<and> replies d \<le> 5"

text \<open>The datagrams that may still be sent until the time \<open>T'\<close>.\<close>

definition allowance :: "disc \<Rightarrow> int \<Rightarrow> int \<Rightarrow> int \<Rightarrow> int" where
  "allowance d L W T' = (T' - L) div 2000 + (5 - replies d) + 5 * ((T' - W) div 1000)"

lemma div_step: "0 < P \<Longrightarrow> L + P \<le> N \<Longrightarrow> 1 + (T - N) div P \<le> (T - L) div (P :: int)"
proof -
  assume "0 < P" and "L + P \<le> N"
  then have "(T - N + P) div P \<le> (T - L) div P" by (intro zdiv_mono1) simp_all
  moreover have "(T - N + P) div P = (T - N) div P + 1" using \<open>0 < P\<close> by (simp add: div_add_self2)
  ultimately show "1 + (T - N) div P \<le> (T - L) div P" by simp
qed

lemma emits_announce_sig: "emits md_events (auth_announce_sig E bd port name ip n)"
  unfolding auth_announce_sig_def by (intro frame_intros)

lemma send_announce_sends:
  assumes "run_state (send_announce E fd d a) s = (Some d', t)"
  shows "d' = d \<and> (\<exists>e. is_sendto e \<and> hist t = hist s @ [e])"
  using assms by (auto simp: send_announce_def split: if_splits)

lemma announce_cases:
  assumes "run_state (discovery_announce E c fd d) s = (Some d', t)"
  shows "\<exists>new. hist t = hist s @ new \<and> reply_window d' = reply_window d \<and> replies d' = replies d \<and>
    (if due E d s then last_announce d' = word_of_int (millis E (hist s)) \<and> datagrams new \<le> 1
     else last_announce d' = last_announce d \<and> datagrams new = 0)"
proof (cases "due E d s \<and> g_ip4 s \<noteq> 0")
  case False
  with assms show ?thesis by (auto simp: discovery_announce_def due_def Let_def split: if_splits)
next
  case True
  let ?s = "s\<lparr>hist := hist s @ [Sys (Get_time (get_time_r (sys E) (hist s)))]\<rparr>"
  obtain n sig u where sig: "run_state (auth_announce_sig E (bdaddr d) (BRIDGE_TCP_PORT c) (BRIDGE_HOSTNAME c)
      (ip_text (g_ip4 s)) 40) ?s = ((n, sig), u)" by (metis prod.collapse)
  obtain new where u: "u = ?s\<lparr>hist := hist ?s @ new\<rparr>" and new: "set new \<subseteq> md_events"
    using emits_announce_sig sig by (rule emitsE)
  obtain g where g: "sig = Sig_text g"
    using assms True sig by (cases sig) (auto simp: discovery_announce_def due_def Let_def)
  obtain k where "run_state (send_announce E fd (d\<lparr>last_announce := word_of_int (millis E (hist s)),
      announce := take 223 (announce_text (bdaddr d) (BRIDGE_TCP_PORT c) (BRIDGE_HOSTNAME c) g), alen := k\<rparr>)
      discovery_bcast) u = (Some d', t)"
    using assms True sig g by (simp add: discovery_announce_def due_def Let_def snprintf_def)
  from send_announce_sends [OF this] u datagrams_silent [OF new] True show ?thesis by auto
qed

lemma announce_step:
  assumes "run_state (discovery_announce E c fd d) s = (Some d', t)" and "clock_law E"
    and "anchored d L W (millis E (hist s))"
  shows "\<exists>new L'. hist t = hist s @ new \<and> anchored d' L' W (millis E (hist t)) \<and>
    (\<forall>T'. datagrams new + allowance d' L' W T' \<le> allowance d L W T')"
proof -
  obtain new where new: "hist t = hist s @ new" "reply_window d' = reply_window d" "replies d' = replies d"
    and k: "if due E d s then last_announce d' = word_of_int (millis E (hist s)) \<and> datagrams new \<le> 1
     else last_announce d' = last_announce d \<and> datagrams new = 0"
    using announce_cases [OF assms(1)] by blast
  let ?T = "millis E (hist s)"
  have T: "?T \<le> millis E (hist t)" using new(1) millis_mono [OF assms(2)] by simp
  show ?thesis
  proof (cases "due E d s")
    case True
    then have "2000 \<le> uint (word_of_int ?T - last_announce d)"
      by (simp add: due_def ANNOUNCE_INTERVAL_MS_def word_le_def)
    then have "L + 2000 \<le> ?T" using assms(3) by (simp add: anchored_def anch_def)
    then have win: "1 + (T' - ?T) div 2000 \<le> (T' - L) div 2000" for T' by (intro div_step) simp_all
    have "datagrams new + allowance d' ?T W T' \<le> allowance d L W T'" for T'
      using True new(3) k win [of T'] by (simp add: allowance_def)
    moreover have "anchored d' ?T W (millis E (hist t))"
      using True new k T assms(3) anch_mono [OF _ T] anch_now by (simp add: anchored_def)
    ultimately show ?thesis using new(1) by blast
  next
    case False
    then have "datagrams new + allowance d' L W T' \<le> allowance d L W T'" for T'
      using new(3) k by (simp add: allowance_def)
    moreover have "anchored d' L W (millis E (hist t))"
      using False new k T assms(3) anch_mono [OF _ T] by (simp add: anchored_def)
    ultimately show ?thesis using new(1) by blast
  qed
qed

definition open_window :: "int \<Rightarrow> disc \<Rightarrow> disc" where
  "open_window N d =
     (if 1000 \<le> word_of_int N - reply_window d then d\<lparr>reply_window := word_of_int N, replies := 0\<rparr> else d)"

lemma reply_cases:
  assumes "run_state (discovery_reply E fd d) s = (Some d', t)"
  obtains (quiet) h where "hist t = hist s @ h" and "datagrams h = 0" and "d' = d"
    | (full) h h' where "hist t = (hist s @ h) @ h'" and "datagrams (h @ h') = 0"
        and "d' = open_window (millis E (hist s @ h)) d"
    | (answered) h h' where "hist t = (hist s @ h) @ h'" and "datagrams (h @ h') = 1"
        and "replies (open_window (millis E (hist s @ h)) d) < 5"
        and "d' = (open_window (millis E (hist s @ h)) d)\<lparr>replies :=
          replies (open_window (millis E (hist s @ h)) d) + 1\<rparr>"
proof -
  obtain r a where r: "recvfrom_r (sock E) fd 63 (hist s) = (r, a)" by fastforce
  let ?h = "[Sock (Sock_recvfrom fd 63 r a)]"
  let ?w = "open_window (millis E (hist s @ ?h)) d"
  let ?u = "s\<lparr>hist := (hist s @ ?h) @ [Sys (Get_time (get_time_r (sys E) (hist s @ ?h)))]\<rparr>"
  consider "rx_n r \<le> 0 \<or> alen d = 0 \<or> \<not> is_probe (rx_data r)"
    | "\<not> (rx_n r \<le> 0 \<or> alen d = 0 \<or> \<not> is_probe (rx_data r))" "\<not> replies ?w < 5"
    | "\<not> (rx_n r \<le> 0 \<or> alen d = 0 \<or> \<not> is_probe (rx_data r))" "replies ?w < 5" by blast
  then show thesis
  proof cases
    case 1
    then have "hist t = hist s @ ?h" "d' = d" using assms r by (auto simp: discovery_reply_def split: if_splits)
    then show thesis by (intro quiet [of ?h]) simp_all
  next
    case 2
    then have "run_state (discovery_reply E fd d) s = (Some ?w, ?u)"
      using r by (simp add: discovery_reply_def Let_def PROBE_REPLIES_PER_S_def open_window_def)
    with assms have "d' = ?w" "t = ?u" by simp_all
    then show thesis by (intro full [of ?h "[Sys (Get_time (get_time_r (sys E) (hist s @ ?h)))]"]) simp_all
  next
    case 3
    then have "run_state (discovery_reply E fd d) s =
        run_state (send_announce E fd (?w\<lparr>replies := replies ?w + 1\<rparr>) a) ?u"
      using r by (simp add: discovery_reply_def Let_def PROBE_REPLIES_PER_S_def open_window_def)
    with assms have "run_state (send_announce E fd (?w\<lparr>replies := replies ?w + 1\<rparr>) a) ?u = (Some d', t)" by simp
    from send_announce_sends [OF this] obtain e where "d' = ?w\<lparr>replies := replies ?w + 1\<rparr>" "is_sendto e"
      "hist t = hist ?u @ [e]" by blast
    with 3 show thesis
      by (intro answered [of ?h "[Sys (Get_time (get_time_r (sys E) (hist s @ ?h))), e]"]) simp_all
  qed
qed

lemma open_window_step:
  assumes "anchored d L W T" and "T \<le> N"
  shows "\<exists>W'. anchored (open_window N d) L W' N \<and>
    (\<forall>T'. allowance (open_window N d) L W' T' \<le> allowance d L W T')"
proof (cases "1000 \<le> word_of_int N - reply_window d")
  case True
  then have "1000 \<le> uint (word_of_int N - reply_window d)" by (simp add: word_le_def)
  then have "W + 1000 \<le> N" using assms by (simp add: anchored_def anch_def)
  then have win: "1 + (T' - N) div 1000 \<le> (T' - W) div 1000" for T' by (intro div_step) simp_all
  have "anchored (open_window N d) L N N"
    using True assms anch_now anch_mono by (auto simp: anchored_def open_window_def)
  moreover have "allowance (open_window N d) L N T' \<le> allowance d L W T'" for T'
    using True win [of T'] assms(1) by (simp add: open_window_def allowance_def anchored_def)
  ultimately show ?thesis by blast
next
  case False
  then show ?thesis
    using assms anch_mono by (intro exI [of _ W]) (auto simp: anchored_def open_window_def)
qed

lemma anchored_mono: "anchored d L W T \<Longrightarrow> T \<le> T' \<Longrightarrow> anchored d L W T'"
  using anch_mono by (auto simp: anchored_def)

lemma reply_step:
  assumes "run_state (discovery_reply E fd d) s = (Some d', t)" and "clock_law E"
    and "anchored d L W (millis E (hist s))"
  shows "\<exists>new W'. hist t = hist s @ new \<and> anchored d' L W' (millis E (hist t)) \<and>
    (\<forall>T'. datagrams new + allowance d' L W' T' \<le> allowance d L W T')"
  using assms(1)
proof (cases rule: reply_cases)
  case (quiet h)
  then show ?thesis using assms(3) anchored_mono millis_mono [OF assms(2)] by (intro exI [of _ h] exI [of _ W]) auto
next
  case (full h h')
  obtain W' where "anchored d' L W' (millis E (hist s @ h))" "\<forall>T'. allowance d' L W' T' \<le> allowance d L W T'"
    using open_window_step [OF assms(3) millis_mono [OF assms(2)]] full(3) by blast
  then show ?thesis
    using full anchored_mono millis_mono [OF assms(2)] by (intro exI [of _ "h @ h'"] exI [of _ W']) force
next
  case (answered h h')
  let ?w = "open_window (millis E (hist s @ h)) d"
  obtain W' where w: "anchored ?w L W' (millis E (hist s @ h))" "\<forall>T'. allowance ?w L W' T' \<le> allowance d L W T'"
    using open_window_step [OF assms(3) millis_mono [OF assms(2)]] by blast
  have "anchored d' L W' (millis E (hist s @ h))" using w(1) answered(3,4) by (simp add: anchored_def)
  then have "anchored d' L W' (millis E (hist t))"
    unfolding answered(1) by (rule anchored_mono) (rule millis_mono [OF assms(2)])
  moreover have "allowance d' L W' T' = allowance ?w L W' T' - 1" for T'
    using answered(4) by (simp add: allowance_def)
  ultimately show ?thesis
    using answered(1,2) w(2) by (intro exI [of _ "h @ h'"] exI [of _ W']) simp
qed

lemma iter_step:
  assumes "run_state (discovery_iter E c fd d) s = (Some d', t)" and "clock_law E"
    and "anchored d L W (millis E (hist s))"
  shows "\<exists>new L' W'. hist t = hist s @ new \<and> anchored d' L' W' (millis E (hist t)) \<and>
    (\<forall>T'. datagrams new + allowance d' L' W' T' \<le> allowance d L W T')"
proof -
  obtain d1 u where a: "run_state (discovery_announce E c fd d) s = (Some d1, u)"
    and r: "run_state (discovery_reply E fd d1) u = (Some d', t)"
    using assms(1) unfolding discovery_iter_def by (elim run_bindE) (auto split: option.splits)
  obtain n1 L' where 1: "hist u = hist s @ n1" "anchored d1 L' W (millis E (hist u))"
    "\<forall>T'. datagrams n1 + allowance d1 L' W T' \<le> allowance d L W T'"
    using announce_step [OF a assms(2,3)] by blast
  obtain n2 W' where 2: "hist t = hist u @ n2" "anchored d' L' W' (millis E (hist t))"
    "\<forall>T'. datagrams n2 + allowance d' L' W' T' \<le> allowance d1 L' W T'"
    using reply_step [OF r assms(2) 1(2)] by blast
  have "datagrams (n1 @ n2) + allowance d' L' W' T' \<le> allowance d L W T'" for T'
    using spec [OF 1(3), of T'] spec [OF 2(3), of T'] by simp
  then show ?thesis using 1 2 by (intro exI [of _ "n1 @ n2"] exI [of _ L'] exI [of _ W']) simp
qed

lemma loop_allowance:
  assumes "clock_law E"
  shows "run_state (discovery_loop E c fd others d) s = (Some d', t) \<Longrightarrow> anchored d L W (millis E (hist s)) \<Longrightarrow>
    \<exists>new. hist t = hist s @ new \<and> datagrams new \<le> allowance d L W (millis E (hist t))"
proof (induction others arbitrary: d s L W)
  case Nil
  then show ?case by (auto simp: anchored_def allowance_def pos_imp_zdiv_nonneg_iff)
next
  case (Cons other others)
  let ?s = "(other s)\<lparr>hist := hist s\<rparr>"
  obtain d1 u where i: "run_state (discovery_iter E c fd d) ?s = (Some d1, u)"
    and l: "run_state (discovery_loop E c fd others d1) u = (Some d', t)"
    using Cons.prems(1) by (auto split: prod.splits option.splits)
  obtain n1 L' W' where 1: "hist u = hist s @ n1" "anchored d1 L' W' (millis E (hist u))"
    "\<forall>T'. datagrams n1 + allowance d1 L' W' T' \<le> allowance d L W T'"
    using iter_step [OF i assms, of L W] Cons.prems(2) by auto
  obtain n2 where 2: "hist t = hist u @ n2" "datagrams n2 \<le> allowance d1 L' W' (millis E (hist t))"
    using Cons.IH [OF l 1(2)] by blast
  show ?case using 1(1) 2 spec [OF 1(3), of "millis E (hist t)"] by (intro exI [of _ "n1 @ n2"]) simp
qed

section \<open>Properties\<close>

text \<open>
  C23. An announcement that is due. Without an address nothing is sent and probes go unanswered. With
  one, the board broadcasts a text that the host reads back field by field; if the board is claimed,
  its signature passes the host's check for the board's own address, otherwise the field is a dash.
  The same text answers the probes until the next announcement.
\<close>

theorem announcement_is_verifiable:
  assumes "md_ok E" and "hmac_law E hm" and "announceable c" and "due E d s" and "bdaddr d = bdaddr_text mac"
  shows "\<exists>d' t. run_state (discovery_announce E c fd d) s = (Some d', t) \<and>
    (if g_ip4 s = 0 then alen d' = 0 \<and> hist t = hist s @ [Sys (Get_time (get_time_r (sys E) (hist s)))]
     else \<exists>h r sig. hist t = h @ [Sock (Sock_sendto fd (take (alen d') (announce d' @ [0])) discovery_bcast r)] \<and>
       parse (take (alen d') (announce d' @ [0])) =
         Inr (Announce (bdaddr d) (BRIDGE_TCP_PORT c) (BRIDGE_HOSTNAME c) sig) \<and>
       (if g_claimed s
        then verifyAnnounce hm (g_psk s) (bdaddr d) (BRIDGE_TCP_PORT c) (BRIDGE_HOSTNAME c)
               (ip_bytes (g_ip4 s)) sig
        else sig = str ''-''))"
proof (cases "g_ip4 s = 0")
  case True
  with assms(4) show ?thesis by (simp add: discovery_announce_def due_def Let_def)
next
  case False
  let ?port = "BRIDGE_TCP_PORT c" and ?name = "BRIDGE_HOSTNAME c"
  define sig where "sig =
    (if g_claimed s then announceSig hm (g_psk s) (bdaddr d) ?port ?name (ip_bytes (g_ip4 s)) else str ''-'')"
  define dgram where "dgram = announce_text (bdaddr d) ?port ?name sig"
  have ok: "?port < 65536" "?name \<noteq> []" "9 \<notin> set ?name" "length ?name \<le> 148"
    using assms(3) by (auto simp: announceable_def)
  have "length (fmt_u ?port) \<le> 5" using ok(1) by (intro length_fmt_u_le) simp_all
  then have fits: "length dgram < 224"
    using ok(4) by (simp add: dgram_def length_announce_text assms(5) bdaddr_text_ok sig_def)
  have "9 \<notin> set sig" using hex_no_tab(1) by (simp add: sig_def announceSig_def str_def)
  then have read: "parse dgram = Inr (Announce (bdaddr d) ?port ?name sig)"
    using ok by (simp add: dgram_def parse_announce_text assms(5) bdaddr_text_ok)
  let ?now = "word_of_int (millis E (hist s))"
  let ?s = "s\<lparr>hist := hist s @ [Sys (Get_time (get_time_r (sys E) (hist s)))]\<rparr>"
  obtain n new where "run_state (auth_announce_sig E (bdaddr d) ?port ?name (ip_text (g_ip4 s)) 40) ?s =
      ((n, Sig_text sig), ?s\<lparr>hist := hist ?s @ new\<rparr>)"
    using run_announce_sig [OF assms(1,2) ok(1), of "bdaddr d" ?name "g_ip4 s" ?s] by (auto simp: sig_def)
  then have "run_state (discovery_announce E c fd d) s =
      run_state (send_announce E fd (d\<lparr>last_announce := ?now, announce := dgram, alen := length dgram\<rparr>) discovery_bcast)
        (?s\<lparr>hist := hist ?s @ new\<rparr>)"
    using assms(4) False fits by (simp add: discovery_announce_def due_def dgram_def snprintf_fits Let_def)
  also have "\<dots> = (Some (d\<lparr>last_announce := ?now, announce := dgram, alen := length dgram\<rparr>),
      ?s\<lparr>hist := hist ?s @ new @ [Sock (Sock_sendto fd dgram discovery_bcast
        (sendto_r (sock E) fd dgram discovery_bcast (hist ?s @ new)))]\<rparr>)"
    using fits by (simp add: send_announce_def)
  finally show ?thesis using False read by (auto simp: sig_def verifyAnnounce_def ctEqual_iff)
qed

text \<open>A claimed board with the address 192.168.0.10 on the concrete platform.\<close>

definition disc_sdk :: sdk where
  "disc_sdk = toy_sdk (\<lambda>_. []) [] (str ''ESPHCI1'' @ 9 # str ''PROBE'' @ [10])"

definition disc_fw :: fw where
  "disc_fw = toy_fw\<lparr>g_ip4 := 0x0a00a8c0\<rparr>"

definition disc_start :: disc where
  "disc_start = \<lparr>bdaddr = bdaddr_text [1, 2, 3, 4, 5, 6], announce = [], alen = 0,
     last_announce = - 2000, reply_window = 0, replies = 0\<rparr>"

lemma disc_demo: "md_ok disc_sdk" "hmac_law disc_sdk toy_mac" "announceable demo_conf"
    "due disc_sdk disc_start disc_fw" "clock_law disc_sdk" "short_name demo_conf"
  by (simp_all add: disc_sdk_def toy_laws)
    (simp_all add: announceable_def demo_conf_def str_def due_def disc_start_def disc_fw_def toy_fw_def boot_fw_def
      millis_def toy_sdk_def toy_sys_def ANNOUNCE_INTERVAL_MS_def clock_law_def short_name_def fmt_u.simps min.coboundedI1)

theorem announcement_is_verifiable_witness:
  "\<exists>d' t h r sig. run_state (discovery_announce disc_sdk demo_conf 3 disc_start) disc_fw = (Some d', t) \<and>
     hist t = h @ [Sock (Sock_sendto 3 (take (alen d') (announce d' @ [0])) discovery_bcast r)] \<and>
     parse (take (alen d') (announce d' @ [0])) = Inr (Announce (bdaddr disc_start) 4444 (str ''hcibridge'') sig) \<and>
     verifyAnnounce toy_mac (replicate 32 7) (bdaddr disc_start) 4444 (str ''hcibridge'') [192, 168, 0, 10] sig"
proof -
  have "g_ip4 disc_fw \<noteq> 0" "g_claimed disc_fw" "g_psk disc_fw = replicate 32 7"
    "ip_bytes (g_ip4 disc_fw) = [192, 168, 0, 10]"
    "BRIDGE_TCP_PORT demo_conf = 4444" "BRIDGE_HOSTNAME demo_conf = str ''hcibridge''"
    by (simp_all add: disc_fw_def toy_fw_def demo_conf_def ip_bytes_def drop_bit_eq_div)
  moreover have "bdaddr disc_start = bdaddr_text [1, 2, 3, 4, 5, 6]" by (simp add: disc_start_def)
  ultimately show ?thesis
    using announcement_is_verifiable [OF disc_demo(1-4), of "[1, 2, 3, 4, 5, 6]" 3] by force
qed

text \<open>
  C24. A signature cannot be moved. If the host accepts one signature for two announcements, and the
  sixteen bytes of the MAC do not collide on the two messages, then address, port, name and the IP
  address of the sender are the same: a captured announcement is worthless from another machine.
\<close>

theorem announce_signature_binds:
  assumes "verifyAnnounce hm k bd port name ip sig" and "verifyAnnounce hm k bd' port' name' ip' sig"
    and "no_collision (\<lambda>k m. take 16 (hm k m)) k (announce_msg bd port name ip) (announce_msg bd' port' name' ip')"
    and "\<And>m. length (hm k m) = 32" and "announce_wf (bd, port, name, ip)" and "announce_wf (bd', port', name', ip')"
  shows "bd = bd' \<and> port = port' \<and> name = name' \<and> ip = ip'"
proof -
  have "take 16 (hm k (announce_msg bd port name ip)) = take 16 (hm k (announce_msg bd' port' name' ip'))"
    using assms(1,2,4) by (intro hexlify_inject) (simp_all add: verifyAnnounce_def ctEqual_iff announceSig_def)
  then have "(bd, port, name, ip) = (bd', port', name', ip')"
    using announce_role.mac_binds [of "\<lambda>k m. take 16 (hm k m)" k "(bd, port, name, ip)" "(bd', port', name', ip')"]
      assms(3,5,6) by simp
  then show ?thesis by simp
qed

theorem announce_signature_binds_witness:
  "\<not> verifyAnnounce toy_mac (replicate 32 7) (str ''aa'') 1 (str ''b'') [10, 0, 0, 2]
     (announceSig toy_mac (replicate 32 7) (str ''aa'') 1 (str ''b'') [10, 0, 0, 1])"
proof
  let ?k = "replicate 32 7 :: bytes" and ?sig = "announceSig toy_mac (replicate 32 7) (str ''aa'') 1 (str ''b'') [10, 0, 0, 1]"
  assume other: "verifyAnnounce toy_mac ?k (str ''aa'') 1 (str ''b'') [10, 0, 0, 2] ?sig"
  have own: "verifyAnnounce toy_mac ?k (str ''aa'') 1 (str ''b'') [10, 0, 0, 1] ?sig"
    by (simp add: verifyAnnounce_def ctEqual_iff)
  have "announce_msg (str ''aa'') 1 (str ''b'') [10, 0, 0, 1] = str ''aa'' @ [9, 49, 9, 98, 9] @ str ''10.0.0.1''"
    "announce_msg (str ''aa'') 1 (str ''b'') [10, 0, 0, 2] = str ''aa'' @ [9, 49, 9, 98, 9] @ str ''10.0.0.2''"
    by (simp_all add: announce_msg_def str_def fmt_u.simps)
  then have "no_collision (\<lambda>k m. take 16 (toy_mac k m)) ?k
      (announce_msg (str ''aa'') 1 (str ''b'') [10, 0, 0, 1]) (announce_msg (str ''aa'') 1 (str ''b'') [10, 0, 0, 2])"
    by (simp add: no_collision_def toy_mac_def pad32_def str_def)
  moreover have "announce_wf (str ''aa'', 1, str ''b'', [10, 0, 0, 1])" "announce_wf (str ''aa'', 1, str ''b'', [10, 0, 0, 2])"
    by (simp_all add: announce_wf_def str_def)
  ultimately show False using announce_signature_binds [OF own other] by simp
qed

text \<open>
  C29. The discovery task never reads past its arrays, whatever the other tasks do to the shared
  variables meanwhile and whatever it receives, provided the port has at most eight digits and the
  name fits. (A port of nine digits would be read past the end of the array it is printed to.)
\<close>

theorem discovery_stays_in_bounds:
  assumes "short_name c"
  shows "fst (run_state (discovery_task E c others) s) \<noteq> None"
proof -
  obtain r t where r: "run_state (discovery_setup E) s = (r, t)" by fastforce
  show ?thesis
  proof (cases r)
    case None
    with r show ?thesis by (simp add: discovery_task_def)
  next
    case (Some p)
    obtain fd d where p: "p = (fd, d)" by (cases p)
    with r Some have "disc_ok d" by (auto dest: discovery_setup_ok)
    from discovery_loop_some [OF assms this, of E fd others t] r Some p show ?thesis
      by (auto simp: discovery_task_def split: prod.splits)
  qed
qed

theorem discovery_stays_in_bounds_witness:
  "fst (run_state (discovery_task disc_sdk demo_conf [id, \<lambda>s. s\<lparr>g_ip4 := 0\<rparr>]) disc_fw) \<noteq> None"
  by (rule discovery_stays_in_bounds [OF disc_demo(6)])

text \<open>
  C25. The rate of datagrams. Over any part of the loop, from any point of a run and however many
  probes arrive, the board sends at most one broadcast per two seconds and five answers per second
  of the time that passed, and eleven more: it cannot be used to amplify traffic. The clock's wrap-around
  after 49 days does not weaken the bound.
\<close>

theorem discovery_rate_limited:
  assumes "run_state (discovery_loop E c fd others d) s = (Some d', t)" and "clock_law E"
    and "0 \<le> replies d" and "replies d \<le> 5"
  shows "\<exists>new. hist t = hist s @ new \<and>
    datagrams new \<le> 11 + (millis E (hist t) - millis E (hist s)) div 2000 +
      5 * ((millis E (hist t) - millis E (hist s)) div 1000)"
proof -
  let ?T = "millis E (hist s)" and ?T' = "millis E (hist t)"
  have "anchored d (?T - 2000) (?T - 1000) ?T" using assms(3,4) anch_any by (simp add: anchored_def)
  from loop_allowance [OF assms(2,1) this] obtain new where
    new: "hist t = hist s @ new" "datagrams new \<le> allowance d (?T - 2000) (?T - 1000) ?T'" by blast
  have "(?T' - (?T - 2000)) div 2000 = (?T' - ?T) div 2000 + 1"
    "(?T' - (?T - 1000)) div 1000 = (?T' - ?T) div 1000 + 1"
    using div_add_self2 [of 2000 "?T' - ?T"] div_add_self2 [of 1000 "?T' - ?T"] by (simp_all add: algebra_simps)
  with new assms(3) show ?thesis by (intro exI [of _ new]) (simp add: allowance_def)
qed

theorem discovery_rate_limited_witness:
  "\<exists>d' t. run_state (discovery_loop disc_sdk demo_conf 3 (replicate 20 id) disc_start) disc_fw = (Some d', t) \<and>
     datagrams (hist t) \<le> 11 + millis disc_sdk (hist t) div 2000 + 5 * (millis disc_sdk (hist t) div 1000)"
proof -
  have "disc_ok disc_start" by (simp add: disc_ok_def disc_start_def bdaddr_text_ok)
  from discovery_loop_some [OF disc_demo(6) this] obtain d' t where
    run: "run_state (discovery_loop disc_sdk demo_conf 3 (replicate 20 id) disc_start) disc_fw = (Some d', t)"
    by (metis not_None_eq prod.collapse)
  have "hist disc_fw = []" "millis disc_sdk [] = 0" "0 \<le> replies disc_start" "replies disc_start \<le> 5"
    by (simp_all add: disc_fw_def toy_fw_def boot_fw_def millis_def disc_sdk_def toy_sdk_def toy_sys_def disc_start_def)
  with discovery_rate_limited [OF run disc_demo(5)] run show ?thesis by auto
qed

end
