(* ===== verification/App.thy ===== *)
theory App
  imports Discovery
begin

text \<open>
  \<open>bt_init\<close> and \<open>app_main\<close> of \<open>firmware/main/glue.c\<close>: the order in which the board comes up, what a
  boot that fails leaves for the next one, and what happens to the key.
\<close>

section \<open>Definitions\<close>

definition bt_init :: "sdk \<Rightarrow> unit outcome fwm" where
  "bt_init E =
     ESP_ERROR_CHECK (net_call E Bt_controller_init)
     (ESP_ERROR_CHECK (net_call E Bt_controller_enable)
     (do {
        boottrace_mark 4;
        ESP_ERROR_CHECK (net_call E Vhci_register_callback)
        (ESP_ERROR_CHECK (do { (e, mac) \<leftarrow> esp_read_mac E; ret e })
        (ret (Returned ())))
      }))"

text \<open>The flash storage; a storage that cannot be used is erased.\<close>

definition nvs_start :: "sdk \<Rightarrow> unit outcome fwm" where
  "nvs_start E = do {
     err \<leftarrow> nvs_flash_init E;
     and_then
       (if err = ESP_ERR_NVS_NO_FREE_PAGES \<or> err = ESP_ERR_NVS_NEW_VERSION_FOUND
        then ESP_ERROR_CHECK (nvs_flash_erase E) (do { err \<leftarrow> nvs_flash_init E; ret (Returned err) })
        else ret (Returned err))
       (\<lambda>err. ESP_ERROR_CHECK (ret err) (ret (Returned ())))
   }"

text \<open>From the network on; the task created last may run on either core.\<close>

definition app_services :: "sdk \<Rightarrow> kconfig \<Rightarrow> unit outcome fwm" where
  "app_services E c = do {
     boottrace_mark 5;
     and_then (net_start E c) (\<lambda>up.
       if \<not> up then ret (Returned ())
       else and_then (bt_init E) (\<lambda>_. do {
         boottrace_mark 6;
         and_then (bridge_start E) (\<lambda>_. do {
           boottrace_mark 7;
           and_then (ota_init E) (\<lambda>_. do {
             boottrace_mark 8;
             r \<leftarrow> xTaskCreate E ''discovery'' 4096 4 0x7fffffff;
             ret (Returned ())
           })
         })
       }))
   }"

definition app_main :: "sdk \<Rightarrow> kconfig \<Rightarrow> unit outcome fwm" where
  "app_main E c = do {
     boottrace_init E;
     boottrace_mark 1;
     and_then (nvs_start E) (\<lambda>_.
       ESP_ERROR_CHECK (net_call E Netif_init)
       (ESP_ERROR_CHECK (net_call E Event_loop_create)
       (do {
          boottrace_mark 2;
          claimed \<leftarrow> auth_init E;
          boottrace_mark 3;
          app_services E c
        })))
   }"

section \<open>What a boot leaves alone\<close>

text \<open>After its first step a boot does not touch the record of the previous one.\<close>

definition trace_kept :: "fw \<Rightarrow> fw \<Rightarrow> bool" where
  "trace_kept s t \<longleftrightarrow> s_magic t = s_magic s \<and> s_prev_stage t = s_prev_stage s \<and> s_reset t = s_reset s"

interpretation trace_frame: field_frame trace_kept
  by unfold_locales (simp_all add: trace_kept_def)

text \<open>After the key was read, a boot does not touch it.\<close>

definition key_kept :: "fw \<Rightarrow> fw \<Rightarrow> bool" where
  "key_kept s t \<longleftrightarrow> g_psk t = g_psk s \<and> g_claimed t = g_claimed s \<and> g_http_rand t = g_http_rand s"

interpretation key_frame: field_frame key_kept
  by unfold_locales (simp_all add: key_kept_def)

lemma emits_load_creds: "emits calm (load_creds E c a b)"
  unfolding load_creds_def platform_calls by (intro frame_intros) (simp_all add: calm_def split: prod.splits)

lemma emits_net_start: "emits calm (net_start E c)"
  unfolding net_start_def net_start_wifi_def net_start_wired_def net_start_eth_def make_phy_def wifi_connect_def
    start_portal_def platform_calls
  by (intro frame_intros emits_load_creds) (simp_all add: calm_def)

lemmas boot_code = bt_init_def bridge_start_def ota_init_def pending_verify_def app_services_def glue_sb_create_def
  glue_sem_create_def glue_task_create_def glue_abort_def boottrace_mark_def

lemma trace_services: "effects trace_kept UNIV (app_services E c)"
  unfolding boot_code platform_calls
  by (intro frame_intros UNIV_I trace_frame.of_emits emits_mono [OF emits_net_start]) (simp_all add: trace_kept_def)

lemma key_services: "effects key_kept calm (app_services E c)"
  unfolding boot_code platform_calls
  by (intro frame_intros key_frame.of_emits emits_net_start) (simp_all add: key_kept_def calm_def split: prod.splits)

section \<open>How a boot ends\<close>

text \<open>The calls of a boot that failed, and those whose result it checks.\<close>

fun call_failed :: "event \<Rightarrow> bool" where
  "call_failed (Nvs (Nvs_flash_init r)) \<longleftrightarrow> r \<noteq> ESP_OK"
| "call_failed (Nvs (Nvs_flash_erase r)) \<longleftrightarrow> r \<noteq> ESP_OK"
| "call_failed (Net a r) \<longleftrightarrow> r \<noteq> ESP_OK"
| "call_failed (Sys (Read_mac r m)) \<longleftrightarrow> r \<noteq> ESP_OK"
| "call_failed (Rtos (Sb_create n b)) \<longleftrightarrow> b = None"
| "call_failed (Rtos (Sem_create sem)) \<longleftrightarrow> sem = None"
| "call_failed (Rtos (Task_create name st pr co ok)) \<longleftrightarrow> \<not> ok"
| "call_failed (Ota (Rollback_timer_create r)) \<longleftrightarrow> r \<noteq> ESP_OK"
| "call_failed (Ota (Rollback_timer_start us r)) \<longleftrightarrow> r \<noteq> ESP_OK"
| "call_failed (Ota (Httpd_start r)) \<longleftrightarrow> r \<noteq> ESP_OK"
| "call_failed (Ota (Httpd_register uri handler r)) \<longleftrightarrow> r \<noteq> ESP_OK"
| "call_failed _ \<longleftrightarrow> False"

text \<open>
  Not checked are the constructors of the network drivers, the name given to the network, the handlers
  of the setup portal and the task that announces the board; a storage that has to be erased is a
  result the boot deals with.
\<close>

fun checked :: "event \<Rightarrow> bool" where
  "checked (Nvs (Nvs_flash_init r)) \<longleftrightarrow> r \<noteq> ESP_ERR_NVS_NO_FREE_PAGES \<and> r \<noteq> ESP_ERR_NVS_NEW_VERSION_FOUND"
| "checked (Net (Eth_mac_new _ _ _ _) r) \<longleftrightarrow> False"
| "checked (Net (Eth_phy_new _ _ _) r) \<longleftrightarrow> False"
| "checked (Net Netif_new_eth r) \<longleftrightarrow> False"
| "checked (Net (Netif_set_hostname _) r) \<longleftrightarrow> False"
| "checked (Net Netif_create_sta r) \<longleftrightarrow> False"
| "checked (Net Netif_create_ap r) \<longleftrightarrow> False"
| "checked (Rtos (Task_create name st pr co ok)) \<longleftrightarrow> name \<noteq> ''discovery''"
| "checked (Ota (Httpd_register uri handler r)) \<longleftrightarrow> handler \<noteq> ''portal_get'' \<and> handler \<noteq> ''portal_save''"
| "checked _ \<longleftrightarrow> True"

definition fatal :: "event \<Rightarrow> bool" where
  "fatal e \<longleftrightarrow> checked e \<and> call_failed e"

text \<open>
  The part of the boot a call belongs to, by the mark that was set last when it is made: 1 the storage
  and the basics of the network stack, 5 the network and then the start of the Bluetooth controller, 4
  the controller's callbacks, 6 the bridge, 7 the update server.
\<close>

fun part_of :: "event \<Rightarrow> u32 \<Rightarrow> bool" where
  "part_of (Nvs x) stage = (stage = 1)"
| "part_of (Net a e) stage =
     (stage = (case a of Netif_init \<Rightarrow> 1 | Event_loop_create \<Rightarrow> 1 | Vhci_register_callback \<Rightarrow> 4 | _ \<Rightarrow> 5))"
| "part_of (Sys x) stage = (stage = 4)"
| "part_of (Rtos x) stage = (stage = 6)"
| "part_of (Ota (Httpd_start r)) stage = (stage = 5 \<or> stage = 7)"
| "part_of (Ota x) stage = (stage = 7)"
| "part_of _ stage = False"

text \<open>A boot without a fatal call so far, and one that ended with its first.\<close>

definition clean :: "history \<Rightarrow> history \<Rightarrow> bool" where
  "clean h0 g \<longleftrightarrow> (\<exists>h. g = h0 @ h \<and> (\<forall>e \<in> set h. \<not> fatal e))"

definition dies :: "history \<Rightarrow> history \<Rightarrow> u32 \<Rightarrow> bool" where
  "dies h0 g stage \<longleftrightarrow> (\<exists>h e. g = h0 @ h @ [e, Rtos System_abort] \<and> call_failed e \<and> part_of e stage \<and>
     (\<forall>e' \<in> set h. \<not> fatal e'))"

lemma clean_refl: "clean h0 h0"
  by (simp add: clean_def)

lemma clean_append: "clean h0 g \<Longrightarrow> \<forall>e \<in> set es. \<not> fatal e \<Longrightarrow> clean h0 (g @ es)"
  unfolding clean_def by force

text \<open>The same read off the calls at the end of a history.\<close>

fun ends_in :: "history \<Rightarrow> u32 \<Rightarrow> bool" where
  "ends_in (e # e' # e'' # es) stage \<longleftrightarrow> \<not> fatal e \<and> ends_in (e' # e'' # es) stage"
| "ends_in [e, a] stage \<longleftrightarrow> a = Rtos System_abort \<and> call_failed e \<and> part_of e stage"
| "ends_in _ stage \<longleftrightarrow> False"

lemma ends_in_dies: "ends_in es stage \<Longrightarrow> dies [] es stage"
proof (induction es stage rule: ends_in.induct)
  case (1 e e' e'' es stage)
  then have "\<not> fatal e" by simp
  moreover from 1 obtain h x where "e' # e'' # es = h @ [x, Rtos System_abort]" "call_failed x" "part_of x stage"
    "\<forall>y \<in> set h. \<not> fatal y" by (auto simp: dies_def)
  ultimately show ?case unfolding dies_def by (intro exI [of _ "e # h"] exI [of _ x]) simp
qed (simp_all add: dies_def)

lemma dies_append:
  assumes "clean h0 g" and "ends_in es stage"
  shows "dies h0 (g @ es) stage"
proof -
  from ends_in_dies [OF assms(2)] obtain h e where "es = h @ [e, Rtos System_abort]" "call_failed e"
    "part_of e stage" "\<forall>y \<in> set h. \<not> fatal y" by (auto simp: dies_def)
  moreover from assms(1) obtain h' where "g = h0 @ h'" "\<forall>e \<in> set h'. \<not> fatal e" by (auto simp: clean_def)
  ultimately show ?thesis unfolding dies_def by (intro exI [of _ "h' @ h"] exI [of _ e]) auto
qed

definition at :: "history \<Rightarrow> u32 \<Rightarrow> fw \<Rightarrow> bool" where
  "at h0 n s \<longleftrightarrow> s_stage s = n \<and> clean h0 (hist s)"

lemma at_mark [simp]: "at h0 n (s\<lparr>s_stage := m\<rparr>) \<longleftrightarrow> m = n \<and> clean h0 (hist s)"
  by (auto simp: at_def)

lemma at_frame [simp]:
  "at h0 n (s\<lparr>bridge := b\<rparr>) = at h0 n s" "at h0 n (s\<lparr>g_rollback_timer := r\<rparr>) = at h0 n s"
  by (simp_all add: at_def)

lemma at_call: "at h0 n s \<Longrightarrow> \<not> fatal e \<Longrightarrow> at h0 n (s\<lparr>hist := hist s @ [e]\<rparr>)"
  by (simp add: at_def clean_append)

lemma at_emits: "emits {e. \<not> fatal e} m \<Longrightarrow> run_state m s = (r, t) \<Longrightarrow> at h0 n s \<Longrightarrow> at h0 n t"
  by (erule (1) emitsE) (auto simp: at_def intro!: clean_append)

text \<open>An outcome together with the trace it leaves. \<open>Q\<close> describes a function that returned.\<close>

definition ends :: "history \<Rightarrow> ('a \<Rightarrow> fw \<Rightarrow> bool) \<Rightarrow> 'a outcome \<Rightarrow> fw \<Rightarrow> bool" where
  "ends h0 Q r t \<longleftrightarrow>
     (case r of Returned x \<Rightarrow> Q x t | Aborted \<Rightarrow> dies h0 (hist t) (s_stage t) | Restarted \<Rightarrow> False)"

lemma ends_simps [simp]:
  "ends h0 Q (Returned x) t = Q x t" "ends h0 Q Aborted t = dies h0 (hist t) (s_stage t)"
  "\<not> ends h0 Q Restarted t"
  by (simp_all add: ends_def)

lemma wp_and_then:
  assumes "wp m (ends h0 P) s" and "\<And>x t. P x t \<Longrightarrow> wp (k x) (ends h0 Q) t"
  shows "wp (and_then m k) (ends h0 Q) s"
  unfolding and_then_def wp_bind using assms(1)
proof (rule wp_mono)
  fix r t
  assume "ends h0 P r t"
  with assms(2) show
    "wp (case r of Returned x \<Rightarrow> k x | Restarted \<Rightarrow> ret Restarted | Aborted \<Rightarrow> ret Aborted) (ends h0 Q) t"
    by (cases r) simp_all
qed

lemma wp_check_call:
  assumes "at h0 n s" and "\<And>e. part_of (ev e) n" and "\<And>e. call_failed (ev e) \<longleftrightarrow> e \<noteq> ESP_OK"
    and "\<And>t. at h0 n t \<Longrightarrow> wp k (ends h0 Q) t"
  shows "wp (ESP_ERROR_CHECK (call f ev) k) (ends h0 Q) s"
proof (cases "f (hist s) = ESP_OK")
  case True
  have "at h0 n (s\<lparr>hist := hist s @ [ev (f (hist s))]\<rparr>)"
    using True assms(1,3) by (intro at_call) (simp_all add: fatal_def)
  with True assms(4) show ?thesis by (simp add: ESP_ERROR_CHECK_def)
next
  case False
  have "dies h0 (hist s @ [ev (f (hist s)), Rtos System_abort]) n"
    using False assms(1-3) by (intro dies_append) (simp_all add: at_def)
  with False assms(1) show ?thesis by (simp add: ESP_ERROR_CHECK_def system_abort_def at_def)
qed

lemma wp_unchecked_call:
  assumes "at h0 n s" and "\<And>r. \<not> fatal (ev r)" and "\<And>r t. at h0 n t \<Longrightarrow> wp (k r) (ends h0 Q) t"
  shows "wp (call f ev \<bind> k) (ends h0 Q) s"
  using assms by (simp add: at_call)

lemma wp_returned: "Q x s \<Longrightarrow> wp (ret (Returned x)) (ends h0 Q) s"
  by simp

lemma wp_outcome_let: "wp (f x) (ends h0 Q) s \<Longrightarrow> wp (Let x f) (ends h0 Q) s"
  by simp

lemma wp_mark: "wp k (ends h0 Q) (s\<lparr>s_stage := n\<rparr>) \<Longrightarrow> wp (boottrace_mark n \<bind> (\<lambda>_. k)) (ends h0 Q) s"
  by (simp add: boottrace_mark_def)

lemmas boot_rules = wp_check_call wp_unchecked_call wp_returned wp_outcome_let

lemmas boot_end = at_def fatal_def ESP_ERROR_CHECK_def system_abort_def

lemma bt_init_ends: "at h0 5 s \<Longrightarrow> wp (bt_init E) (ends h0 (\<lambda>_. at h0 4)) s"
  unfolding bt_init_def net_call_def boottrace_mark_def esp_read_mac_def
  by (auto simp: boot_end split: prod.splits intro!: dies_append clean_append)

lemma bridge_start_ends: "at h0 6 s \<Longrightarrow> wp (bridge_start E) (ends h0 (\<lambda>_. at h0 6)) s"
  by (auto simp: bridge_start_def glue_sb_create_def glue_sem_create_def glue_task_create_def glue_abort_def
      xTaskCreate_def boot_end intro!: dies_append clean_append)

lemma ota_init_ends: "at h0 7 s \<Longrightarrow> wp (ota_init E) (ends h0 (\<lambda>_. at h0 7)) s"
  unfolding ota_init_def httpd_start_def httpd_register_uri_handler_def
proof (rule wp_and_then [where P = "\<lambda>_. at h0 7"])
  assume "at h0 7 s"
  then show "wp (do {
      p \<leftarrow> pending_verify E;
      if p then ESP_ERROR_CHECK (do { e \<leftarrow> esp_timer_create E;
          modify (\<lambda>s. s\<lparr>g_rollback_timer := e = ESP_OK\<rparr>); ret e })
        (ESP_ERROR_CHECK (esp_timer_start_once E ROLLBACK_GRACE_US) (ret (Returned ())))
      else ret (Returned ()) }) (ends h0 (\<lambda>_. at h0 7)) s"
    by (auto simp: pending_verify_def esp_ota_get_state_partition_def esp_timer_create_def
        esp_timer_start_once_def boot_end split: prod.splits intro!: dies_append clean_append)
qed (assumption | rule boot_rules | simp add: fatal_def)+

lemma emits_load_creds_clean: "emits {e. \<not> fatal e} (load_creds E c a b)"
  unfolding load_creds_def platform_calls
  by (intro frame_intros) (simp_all add: fatal_def split: prod.splits)

lemma net_start_wired_ends: "at h0 5 s \<Longrightarrow> wp (net_start_wired E c) (ends h0 (\<lambda>_. at h0 5)) s"
  unfolding net_start_wired_def net_start_eth_def make_phy_def net_call_def
  by (rule wp_and_then [where P = "\<lambda>_. at h0 5"]) (assumption | rule boot_rules | simp add: fatal_def)+

lemma wifi_connect_ends: "at h0 5 s \<Longrightarrow> wp (wifi_connect E c ssid pass) (ends h0 (\<lambda>_. at h0 5)) s"
  unfolding wifi_connect_def net_call_def by (assumption | rule boot_rules | simp add: fatal_def)+

lemma start_portal_ends: "at h0 5 s \<Longrightarrow> wp (start_portal E) (ends h0 (\<lambda>_. at h0 5)) s"
  unfolding start_portal_def net_call_def httpd_start_def httpd_register_uri_handler_def
  by (assumption | rule boot_rules | simp add: fatal_def)+

lemma net_start_wifi_ends:
  assumes "at h0 5 s"
  shows "wp (net_start_wifi E c) (ends h0 (\<lambda>_. at h0 5)) s"
  unfolding net_start_wifi_def wp_bind
proof (rule wpI)
  fix creds t
  assume "run_state (load_creds E c 33 65) s = (creds, t)"
  with emits_load_creds_clean have "at h0 5 t" using assms by (rule at_emits)
  then show "wp (case creds of None \<Rightarrow> and_then (start_portal E) (\<lambda>_. ret (Returned False))
      | Some (ssid, pass) \<Rightarrow> and_then (wifi_connect E c ssid pass) (\<lambda>_. ret (Returned True)))
      (ends h0 (\<lambda>_. at h0 5)) t"
    by (cases creds) (auto intro!: wp_and_then [where P = "\<lambda>_. at h0 5"] start_portal_ends wifi_connect_ends)
qed

lemma net_start_ends: "at h0 5 s \<Longrightarrow> wp (net_start E c) (ends h0 (\<lambda>_. at h0 5)) s"
  by (simp add: net_start_def net_start_wifi_ends net_start_wired_ends)

lemma app_services_ends:
  assumes "clean h0 (hist s)"
  shows "wp (app_services E c) (ends h0 (\<lambda>_ t. at h0 5 t \<or> at h0 8 t)) s"
  unfolding app_services_def xTaskCreate_def
  using assms
  by (auto intro!: wp_mark wp_and_then [OF net_start_ends] wp_and_then [OF bt_init_ends]
      wp_and_then [OF bridge_start_ends] wp_and_then [OF ota_init_ends] at_call
      simp: boottrace_mark_def at_def fatal_def clean_append)

lemma nvs_start_ends: "at h0 1 s \<Longrightarrow> wp (nvs_start E) (ends h0 (\<lambda>_. at h0 1)) s"
  unfolding nvs_start_def nvs_flash_init_def nvs_flash_erase_def
  by (auto simp: and_then_def boot_end intro!: dies_append clean_append)

lemma effects_auth_init: "effects trace_kept {e. \<not> fatal e} (auth_init E)"
  unfolding auth_init_def platform_calls
  by (intro frame_intros) (simp_all add: trace_kept_def fatal_def split: prod.splits)

lemma wp_auth_init:
  assumes "clean h0 (hist s)" and "\<And>x t. clean h0 (hist t) \<Longrightarrow> wp (k x) (ends h0 Q) t"
  shows "wp (auth_init E \<bind> k) (ends h0 Q) s"
  unfolding wp_bind
proof (rule wpI)
  fix x t
  assume "run_state (auth_init E) s = (x, t)"
  with effects_auth_init obtain new where "hist t = hist s @ new" "set new \<subseteq> {e. \<not> fatal e}" by (rule effectsE)
  with assms(1) have "clean h0 (hist t)" by (auto intro: clean_append)
  then show "wp (k x) (ends h0 Q) t" by (rule assms(2))
qed

lemma app_main_ends: "wp (app_main E c) (ends (hist s) (\<lambda>_ t. at (hist s) 5 t \<or> at (hist s) 8 t)) s"
proof -
  let ?h0 = "hist s"
  let ?s1 = "snd (run_state (do { boottrace_init E; boottrace_mark 1 }) s)"
  have s1: "at ?h0 1 ?s1"
    by (auto simp: boottrace_defs esp_reset_reason_def at_def fatal_def intro!: clean_append clean_refl)
  have "wp (and_then (nvs_start E) (\<lambda>_. ESP_ERROR_CHECK (net_call E Netif_init)
      (ESP_ERROR_CHECK (net_call E Event_loop_create)
      (do { boottrace_mark 2; claimed \<leftarrow> auth_init E; boottrace_mark 3; app_services E c }))))
      (ends ?h0 (\<lambda>_ t. at ?h0 5 t \<or> at ?h0 8 t)) ?s1"
    unfolding net_call_def
    by (rule wp_and_then [OF nvs_start_ends [OF s1]], (rule wp_check_call, assumption, simp, simp)+,
        rule wp_mark, rule wp_auth_init, simp add: at_def, rule wp_mark, rule app_services_ends) simp
  then show ?thesis by (simp add: app_main_def boottrace_defs esp_reset_reason_def)
qed

section \<open>The trace and the key across a boot\<close>

lemma trace_auth_init: "effects trace_kept UNIV (auth_init E)"
  using effects_auth_init by (rule effects_mono) simp_all

lemma trace_nvs_start: "effects trace_kept UNIV (nvs_start E)"
  unfolding nvs_start_def platform_calls by (intro frame_intros UNIV_I)

text \<open>Everything after the first call of \<open>app_main\<close>.\<close>

definition app_rest :: "sdk \<Rightarrow> kconfig \<Rightarrow> unit outcome fwm" where
  "app_rest E c = do {
     boottrace_mark 1;
     and_then (nvs_start E) (\<lambda>_.
       ESP_ERROR_CHECK (net_call E Netif_init)
       (ESP_ERROR_CHECK (net_call E Event_loop_create)
       (do {
          boottrace_mark 2;
          claimed \<leftarrow> auth_init E;
          boottrace_mark 3;
          app_services E c
        })))
   }"

lemma app_main_rest: "app_main E c = do { boottrace_init E; app_rest E c }"
  by (simp add: app_main_def app_rest_def)

lemma trace_rest: "effects trace_kept UNIV (app_rest E c)"
  unfolding app_rest_def boottrace_mark_def net_call_def
  by (intro frame_intros UNIV_I trace_nvs_start trace_auth_init trace_services) (simp_all add: trace_kept_def)

lemma app_main_trace:
  "s_magic (snd (run_state (app_main E c) s)) = MAGIC"
  "s_prev_stage (snd (run_state (app_main E c) s)) = (if s_magic s = MAGIC then s_stage s else 0xffffffff)"
proof -
  obtain r t where r: "run_state (app_rest E c) (snd (run_state (boottrace_init E) s)) = (r, t)" by fastforce
  have "trace_kept (snd (run_state (boottrace_init E) s)) t" using trace_rest r by (rule effectsE)
  moreover have "run_state (app_main E c) s = (r, t)"
    using r by (simp add: app_main_rest boottrace_init_def platform_calls)
  ultimately show "s_magic (snd (run_state (app_main E c) s)) = MAGIC"
    "s_prev_stage (snd (run_state (app_main E c) s)) = (if s_magic s = MAGIC then s_stage s else 0xffffffff)"
    by (simp_all add: trace_kept_def boottrace_init_def platform_calls)
qed

text \<open>A boot that returned has read the key after at most one erasure of the storage, and kept it.\<close>

lemma app_main_returned:
  assumes "run_state (app_main E c) s = (Returned (), t)"
  obtains u cl w h where "run_state (auth_init E) u = (cl, w)" and "key_kept s u" and "key_kept w t"
    and "hist t = hist w @ h" and "set h \<subseteq> calm"
    and "hist u = hist s @ [Sys (Reset_reason (reset_reason_r (sys E) (hist s)))] @
      (let e = nvs_flash_init_r (nvs E) (hist s @ [Sys (Reset_reason (reset_reason_r (sys E) (hist s)))]) in
       if e = ESP_OK then [Nvs (Nvs_flash_init ESP_OK)]
       else [Nvs (Nvs_flash_init e), Nvs (Nvs_flash_erase ESP_OK), Nvs (Nvs_flash_init ESP_OK)]) @
      [Net Netif_init ESP_OK, Net Event_loop_create ESP_OK]"
proof -
  let ?h = "hist s @ [Sys (Reset_reason (reset_reason_r (sys E) (hist s)))]"
  let ?e = "nvs_flash_init_r (nvs E) ?h"
  define k where "k = do { claimed \<leftarrow> auth_init E; boottrace_mark 3; app_services E c }"
  have run: "run_state (do { boottrace_init E; boottrace_mark 1;
      and_then (nvs_start E) (\<lambda>_. ESP_ERROR_CHECK (net_call E Netif_init)
        (ESP_ERROR_CHECK (net_call E Event_loop_create) (do { boottrace_mark 2; k }))) }) s = (Returned (), t)"
    using assms by (simp only: app_main_def k_def)
  have "\<exists>u. run_state k u = (Returned (), t) \<and> key_kept s u \<and> hist u = ?h @
      (if ?e = ESP_OK then [Nvs (Nvs_flash_init ESP_OK)]
       else [Nvs (Nvs_flash_init ?e), Nvs (Nvs_flash_erase ESP_OK), Nvs (Nvs_flash_init ESP_OK)]) @
      [Net Netif_init ESP_OK, Net Event_loop_create ESP_OK]"
  proof (cases "?e = ESP_OK")
    case True
    with run show ?thesis
      by (simp add: nvs_start_def and_then_def ESP_ERROR_CHECK_def platform_calls boottrace_defs cong: if_cong split: if_splits)
        (rule exI, erule conjI, simp add: key_kept_def)+
  next
    case False
    with run show ?thesis
      by (simp add: nvs_start_def and_then_def ESP_ERROR_CHECK_def platform_calls boottrace_defs cong: if_cong split: if_splits)
        (rule exI, erule conjI, simp add: key_kept_def)+
  qed
  then obtain u where u: "run_state k u = (Returned (), t)" and k: "key_kept s u" and h: "hist u = ?h @
      (if ?e = ESP_OK then [Nvs (Nvs_flash_init ESP_OK)]
       else [Nvs (Nvs_flash_init ?e), Nvs (Nvs_flash_erase ESP_OK), Nvs (Nvs_flash_init ESP_OK)]) @
      [Net Netif_init ESP_OK, Net Event_loop_create ESP_OK]" by blast
  obtain cl w where w: "run_state (auth_init E) u = (cl, w)" by fastforce
  have sv: "run_state (app_services E c) (w\<lparr>s_stage := 3\<rparr>) = (Returned (), t)"
    using u w by (simp add: k_def boottrace_mark_def)
  obtain more where "key_kept (w\<lparr>s_stage := 3\<rparr>) t" "hist t = hist (w\<lparr>s_stage := 3\<rparr>) @ more" "set more \<subseteq> calm"
    using key_services sv by (rule effectsE)
  then show thesis using w k h by (intro that [of u cl w more]) (simp_all add: key_kept_def Let_def)
qed

section \<open>Properties\<close>

text \<open>
  C27. A boot leaves a trace of how far it got. It ends in the setup portal (stage 5) or with everything
  started (stage 8), and then no call whose result it checks has failed; or it aborts at the first such call
  that fails, as the last thing it does, and then the stage names the part of the boot which that call belongs to. The
  next boot finds the stage and keeps it for the status page. (The handlers that run once \<open>app_main\<close> has
  returned go on to mark 9 and 10.)
\<close>

theorem boot_leaves_trace:
  assumes "run_state (app_main E c) s = (r, t)"
  shows "\<exists>new. hist t = hist s @ new \<and>
    (case r of
       Returned _ \<Rightarrow> (s_stage t = 5 \<or> s_stage t = 8) \<and> (\<forall>e \<in> set new. \<not> (checked e \<and> call_failed e))
     | Aborted \<Rightarrow> (\<exists>h e. new = h @ [e, Rtos System_abort] \<and> call_failed e \<and> part_of e (s_stage t) \<and>
         (\<forall>e' \<in> set h. \<not> (checked e' \<and> call_failed e')))
     | Restarted \<Rightarrow> False) \<and>
    s_prev_stage (snd (run_state (app_main E' c') (restart t))) = s_stage t"
proof -
  have "s_magic t = MAGIC" using app_main_trace(1) [of E c s] assms by simp
  then have "s_prev_stage (snd (run_state (app_main E' c') (restart t))) = s_stage t"
    by (simp add: app_main_trace(2) restart_def)
  moreover have "ends (hist s) (\<lambda>_ t. at (hist s) 5 t \<or> at (hist s) 8 t) r t" using app_main_ends assms by (rule wpD)
  ultimately show ?thesis
    unfolding ends_def at_def clean_def dies_def fatal_def by (auto split: outcome.splits)
qed

text \<open>
  C26. The key across a restart. A board whose storage holds a key has it again once \<open>app_main\<close> returns,
  unless the storage had to be erased: then the board is unclaimed, and anybody can claim it.
\<close>

theorem boot_restores_key:
  assumes "run_state (app_main E c) (restart s) = (Returned (), t)" and "nvs_law E"
    and "nvs_settled (hist s) ''psk'' = Holds v" and "length v = 32"
  shows "if nvs_flash_init_r (nvs E) (hist s @ [Sys (Reset_reason (reset_reason_r (sys E) (hist s)))]) = ESP_OK
    then g_claimed t \<and> g_psk t = v
    else \<not> g_claimed t \<and> Nvs (Nvs_flash_erase ESP_OK) \<in> set (hist t)"
proof -
  let ?h = "hist s @ [Sys (Reset_reason (reset_reason_r (sys E) (hist s)))]"
  obtain u cl w more where u: "run_state (auth_init E) u = (cl, w)" "key_kept (restart s) u" "key_kept w t" "hist t = hist w @ more"
    and h: "hist u = hist s @ [Sys (Reset_reason (reset_reason_r (sys E) (hist s)))] @
      (let e = nvs_flash_init_r (nvs E) ?h in
       if e = ESP_OK then [Nvs (Nvs_flash_init ESP_OK)]
       else [Nvs (Nvs_flash_init e), Nvs (Nvs_flash_erase ESP_OK), Nvs (Nvs_flash_init ESP_OK)]) @
      [Net Netif_init ESP_OK, Net Event_loop_create ESP_OK]"
    using assms(1) by (rule app_main_returned) simp
  have k: "length (g_psk u) = 32" "\<not> g_claimed u" using u(2) by (simp_all add: key_kept_def)
  show ?thesis
  proof (cases "nvs_flash_init_r (nvs E) ?h = ESP_OK")
    case True
    then have "nvs_settled (hist u) ''psk'' = Holds v" using h assms(3) by (simp add: nvs_settled_silent)
    from auth_init_holds [OF assms(2) this assms(4) k(1)] u(1,3) True show ?thesis by (simp add: key_kept_def)
  next
    case False
    then have "nvs_settled (hist u) ''psk'' = Absent" using h by (simp add: nvs_settled_def settled_in_def nvs_store_append nvs_feed_def)
    moreover have "Nvs (Nvs_flash_erase ESP_OK) \<in> set (hist u)" using False h by simp
    moreover have "\<exists>new. hist w = hist u @ new" using trace_auth_init u(1) by (rule effectsE) blast
    ultimately show ?thesis
      using auth_init_absent [OF assms(2) _ k(2)] u(1,3,4) False by (auto simp: key_kept_def)
  qed
qed

text \<open>A board whose storage holds a key, on the concrete platform.\<close>

definition keyed_fw :: fw where
  "keyed_fw = boot_fw\<lparr>hist := [Nvs (Nvs_set_blob ''psk'' (replicate 32 7) ESP_OK), Nvs (Nvs_commit ESP_OK)]\<rparr>"

lemmas boot_run = app_main_def app_services_def nvs_start_def bt_init_def bridge_start_def ota_init_def
  net_start_def net_start_wired_def net_start_eth_def make_phy_def pending_verify_def glue_sb_create_def
  glue_sem_create_def glue_task_create_def and_then_def ESP_ERROR_CHECK_def boottrace_defs platform_calls
  toy_sdk_def toy_nvs_def toy_sys_def toy_rtos_def toy_ota_def toy_http_def demo_conf_def boot_fw_def restart_def

lemma boot_demo: "\<exists>t. run_state (app_main claim_sdk demo_conf) (restart s) = (Returned (), t) \<and> s_stage t = 8"
  by (simp add: boot_run claim_sdk_def split: prod.splits)

text \<open>A board whose Bluetooth controller does not come up.\<close>

definition no_radio_sdk :: sdk where
  "no_radio_sdk = claim_sdk\<lparr>net_r := (\<lambda>a h. if a = Bt_controller_enable then ESP_FAIL else ESP_OK)\<rparr>"

lemma no_radio_boot:
  "\<exists>t h. run_state (app_main no_radio_sdk demo_conf) (restart s) = (Aborted, t) \<and> s_stage t = 5 \<and>
     hist t = h @ [Net Bt_controller_enable ESP_FAIL, Rtos System_abort]"
  by (simp add: boot_run no_radio_sdk_def claim_sdk_def split: prod.splits)

theorem boot_leaves_trace_witness:
  "(\<exists>t. run_state (app_main claim_sdk demo_conf) (restart keyed_fw) = (Returned (), t) \<and> s_stage t = 8 \<and>
     s_prev_stage (snd (run_state (app_main claim_sdk demo_conf) (restart t))) = 8) \<and>
   (\<exists>t h e. run_state (app_main no_radio_sdk demo_conf) (restart keyed_fw) = (Aborted, t) \<and>
     hist t = h @ [e, Rtos System_abort] \<and> e = Net Bt_controller_enable ESP_FAIL \<and> call_failed e \<and> part_of e 5 \<and>
     s_prev_stage (snd (run_state (app_main claim_sdk demo_conf) (restart t))) = 5)"
proof
  obtain t where t: "run_state (app_main claim_sdk demo_conf) (restart keyed_fw) = (Returned (), t)" "s_stage t = 8"
    using boot_demo by blast
  then show "\<exists>t. run_state (app_main claim_sdk demo_conf) (restart keyed_fw) = (Returned (), t) \<and> s_stage t = 8 \<and>
      s_prev_stage (snd (run_state (app_main claim_sdk demo_conf) (restart t))) = 8"
    using boot_leaves_trace [OF t(1), of claim_sdk demo_conf] by auto
next
  obtain t h where t: "run_state (app_main no_radio_sdk demo_conf) (restart keyed_fw) = (Aborted, t)" "s_stage t = 5"
    "hist t = h @ [Net Bt_controller_enable ESP_FAIL, Rtos System_abort]"
    using no_radio_boot by blast
  from boot_leaves_trace [OF t(1), of claim_sdk demo_conf] obtain g e where
    g: "hist t = g @ [e, Rtos System_abort]" "call_failed e" "part_of e 5"
      "s_prev_stage (snd (run_state (app_main claim_sdk demo_conf) (restart t))) = 5"
    using t(2) by auto
  with t(3) have "e = Net Bt_controller_enable ESP_FAIL" by simp
  with t(1) g show "\<exists>t h e. run_state (app_main no_radio_sdk demo_conf) (restart keyed_fw) = (Aborted, t) \<and>
     hist t = h @ [e, Rtos System_abort] \<and> e = Net Bt_controller_enable ESP_FAIL \<and> call_failed e \<and> part_of e 5 \<and>
     s_prev_stage (snd (run_state (app_main claim_sdk demo_conf) (restart t))) = 5" by blast
qed

theorem boot_restores_key_witness:
  "\<exists>t. run_state (app_main claim_sdk demo_conf) (restart keyed_fw) = (Returned (), t) \<and>
     g_claimed t \<and> g_psk t = replicate 32 7"
proof -
  obtain t where t: "run_state (app_main claim_sdk demo_conf) (restart keyed_fw) = (Returned (), t)"
    using boot_demo by blast
  have "nvs_settled (hist keyed_fw) ''psk'' = Holds (replicate 32 7)"
    by (simp add: keyed_fw_def nvs_settled_def settled_in_def nvs_store_of_def nvs_feed_def nvs_write_def)
  then show ?thesis
    using boot_restores_key [OF t claim_laws(1)] t by (simp add: claim_sdk_def toy_sdk_def toy_nvs_def)
qed

end
