(* ===== verification/Board.thy ===== *)
theory Board
  imports App
begin

text \<open>
  The whole board as a state machine: it boots, then serves requests, connections, network events and
  timers in any order, restarts when an operation says so, and may lose power at any time. The
  invariant ties the key in memory to what the flash storage holds.
\<close>

section \<open>The steps of a board\<close>

text \<open>
  A board that stands still, one in the setup portal, and one that serves. An operation runs to its end
  before the next one begins.
\<close>

datatype board = Halted fw | Portal fw | Serving fw

fun fw_of :: "board \<Rightarrow> fw" where
  "fw_of (Halted s) = s"
| "fw_of (Portal s) = s"
| "fw_of (Serving s) = s"

text \<open>An operation that does not return stops the board.\<close>

definition settle :: "(fw \<Rightarrow> board) \<Rightarrow> 'a outcome fwm \<Rightarrow> fw \<Rightarrow> board" where
  "settle up m s =
     (case run_state m s of (Returned x, t) \<Rightarrow> up t | (Restarted, t) \<Rightarrow> Halted t | (Aborted, t) \<Rightarrow> Halted t)"

definition served :: "'a fwm \<Rightarrow> fw \<Rightarrow> board" where
  "served m s = Serving (snd (run_state m s))"

text \<open>In the portal the marks stop at stage 5, see \<open>app_main\<close>.\<close>

definition booted :: "fw \<Rightarrow> board" where
  "booted t = (if s_stage t = 5 then Portal t else Serving t)"

inductive board_step :: "sdk \<Rightarrow> kconfig \<Rightarrow> board \<Rightarrow> board \<Rightarrow> bool" for E c where
  power_on: "board_step E c (Halted s) (settle booted (app_main E c) (restart s))"
| power_loss: "board_step E c b (Halted (fw_of b))"
| save_credentials: "board_step E c (Portal s) (settle Portal (portal_save E) s)"
| show_portal: "board_step E c (Portal s) (Portal (snd (run_state (portal_get E) s)))"
| claim: "board_step E c (Serving s) (settle Serving (claim_post E) s)"
| unclaim: "board_step E c (Serving s) (settle Serving (unclaim_post E) s)"
| update: "board_step E c (Serving s) (settle Serving (ota_post E len) s)"
| reboot: "board_step E c (Serving s) (settle Serving (reboot_post E) s)"
| rollback: "board_step E c (Serving s) (settle Serving (rollback_timeout E) s)"
| status: "board_step E c (Serving s) (served (status_get E c) s)"
| connect: "board_step E c (Serving s) (served (auth_handshake E fd) s)"
| got_ip: "board_step E c (Serving s) (served (on_got_ip E a) s)"
| lost_ip: "board_step E c (Serving s) (served on_lost_ip s)"
| wifi: "board_step E c (Serving s) (served (wifi_event E ev) s)"
| discovery: "board_step E c (Serving s) (served (discovery_iter E c fd d) s)"
| packet: "board_step E c (Serving s) (served (bridge_on_controller_packet E data) s)"
| ready: "board_step E c (Serving s) (served bridge_on_controller_send_available s)"

section \<open>Operations that keep the key\<close>

lemma event_sets_calm: "md_events \<subseteq> calm" "ask_events \<subseteq> calm" "guard_events \<subseteq> calm"
  by (auto simp: md_events_def ask_events_def guard_events_def calm_def)

lemmas calm_guards = event_sets_calm [THEN emits_mono [rotated]]

lemma calm_proofs:
  "emits calm (get_proofs E n)" "emits calm (auth_check_http E m p sha h)"
  "emits calm (auth_check_http_pre E m p len h)" "emits calm (empty_body_proved E p)"
  by (rule calm_guards, rule frame_intros)+

lemma keeps_ota_loop: "emits calm (ota_loop E remaining timeouts)"
proof (induction E remaining timeouts rule: ota_loop.induct)
  case (1 E remaining timeouts)
  show ?case
    by (subst ota_loop.simps, unfold upload_failed_def platform_calls, intro frame_intros "1.IH")
      (simp_all add: calm_def)
qed

lemma keeps_ota_post: "effects key_kept calm (ota_post E len)"
  unfolding ota_post_def ota_upload_def ota_finish_def reply_err_def auth_nonce_bump_def platform_calls
  by (intro frame_intros key_frame.of_emits keeps_ota_loop calm_proofs)
    (simp_all add: calm_def key_kept_def split: prod.splits)

lemma keeps_reboot: "effects key_kept calm (reboot_post E)"
  unfolding reboot_post_def reply_err_def auth_nonce_bump_def platform_calls
  by (intro frame_intros key_frame.of_emits calm_proofs) (simp_all add: calm_def key_kept_def)

lemma keeps_rollback: "effects key_kept calm (rollback_timeout E)"
  unfolding rollback_timeout_def pending_verify_def platform_calls
  by (intro frame_intros) (simp_all add: calm_def split: prod.splits)

lemma keeps_status: "effects key_kept calm (status_get E c)"
  unfolding status_get_def bridge_stats_json_def auth_nonce_hex_def auth_claimed_def boottrace_defs platform_calls
  by (intro frame_intros) (simp_all add: calm_def key_kept_def split: prod.splits)

lemma keeps_recv_loop: "emits calm (recv_loop E fd n dl buf)"
proof (induction E fd n dl buf rule: recv_loop.induct)
  case (1 E fd n dl buf)
  show ?case
    by (subst recv_loop.simps, unfold platform_calls, intro frame_intros "1.IH" [OF _ refl]) (simp_all add: calm_def)
qed

lemma keeps_handshake: "emits calm (auth_handshake E fd)"
  unfolding auth_handshake_def handshake_inner_def handshake_challenge_def handshake_verify_def recv_exact_def
    platform_calls
  by (intro frame_intros keeps_recv_loop calm_guards(1) [OF emits_hmac_parts]) (simp_all add: calm_def)

lemma keeps_ip_events: "effects key_kept calm (on_got_ip E a)" "effects key_kept calm on_lost_ip"
  unfolding on_got_ip_def on_lost_ip_def ota_confirm_def pending_verify_def boottrace_defs platform_calls
  by (intro frame_intros; simp add: calm_def key_kept_def split: prod.splits)+

lemma keeps_wifi_event: "emits calm (wifi_event E ev)"
  unfolding wifi_event_def platform_calls
  by (cases ev) (simp_all only: wifi_ev.case, (intro frame_intros; simp add: calm_def)+)

lemma keeps_discovery: "emits calm (discovery_iter E c fd d)"
  unfolding discovery_iter_def discovery_announce_def discovery_reply_def send_announce_def glue_millis_def
    net_ip_str_def sock_sendto_def sock_recvfrom_def platform_calls
  by (intro frame_intros calm_guards(1) [OF emits_announce_sig])
    (auto simp: calm_def split: prod.splits sig_out.splits intro!: frame_intros)

lemma keeps_bridge:
  "effects key_kept calm (bridge_on_controller_packet E data)"
  "effects key_kept calm bridge_on_controller_send_available"
  unfolding bridge_on_controller_packet_def enqueue_packet_def bridge_on_controller_send_available_def glue_sb_space_def glue_sb_send_def
    glue_sem_give_def
  by (intro frame_intros; simp add: calm_def key_kept_def)+

section \<open>What the storage may hold\<close>

text \<open>Only keys of 32 bytes are ever written under the name of the key.\<close>

fun key_event :: "event \<Rightarrow> bool" where
  "key_event (Nvs (Nvs_set_blob k v r)) = (k = ''psk'' \<longrightarrow> length v = 32)"
| "key_event (Nvs (Nvs_set_str k v r)) = (k \<noteq> ''psk'')"
| "key_event _ = True"

definition key_events :: "event set" where
  "key_events = {e. key_event e}"

lemma calm_key_events: "calm \<subseteq> key_events"
proof
  fix e
  assume "e \<in> calm"
  then show "e \<in> key_events" unfolding calm_def key_events_def by (cases e rule: key_event.cases) simp_all
qed

definition key_slot :: "nvs_slot \<Rightarrow> bool" where
  "key_slot sl = (case sl of Holds v \<Rightarrow> length v = 32 | Holds_str v \<Rightarrow> False | _ \<Rightarrow> True)"

lemma key_slot_store: "set h \<subseteq> key_events \<Longrightarrow> key_slot (fst (nvs_store_of h) ''psk'')"
proof (induction h rule: rev_induct)
  case (snoc e h)
  then have "key_slot (fst (nvs_store_of h) ''psk'')" and "key_event e" by (simp_all add: key_events_def)
  then show ?case
    by (cases e rule: key_event.cases)
      (auto simp: nvs_store_append nvs_feed_def nvs_write_def key_slot_def split: nvs_ev.splits)
qed (simp add: nvs_store_of_def key_slot_def)

lemma key_slot_settled: "set h \<subseteq> key_events \<Longrightarrow> key_slot (nvs_settled h ''psk'')"
  using key_slot_store [of h] by (simp add: nvs_settled_def settled_in_def key_slot_def)

text \<open>
  Memory agrees with the storage: where the storage is known to hold a key, the board is claimed with
  that key; where it is known to hold none, the board is unclaimed.
\<close>

definition consistent :: "fw \<Rightarrow> bool" where
  "consistent s \<longleftrightarrow> length (g_psk s) = 32 \<and> length (g_http_rand s) = 16 \<and>
     (case nvs_settled (hist s) ''psk'' of
        Holds v \<Rightarrow> g_claimed s \<and> g_psk s = v
      | Absent \<Rightarrow> \<not> g_claimed s
      | _ \<Rightarrow> True)"

definition psk_pending :: "fw \<Rightarrow> bool" where
  "psk_pending s \<longleftrightarrow> snd (nvs_store_of (hist s)) ''psk''"

fun board_inv :: "board \<Rightarrow> bool" where
  "board_inv (Halted s) = (set (hist s) \<subseteq> key_events)"
| "board_inv (Portal s) = (set (hist s) \<subseteq> key_events \<and> consistent s \<and> \<not> psk_pending s)"
| "board_inv (Serving s) = (set (hist s) \<subseteq> key_events \<and> consistent s)"

lemma consistent_kept:
  assumes "consistent s" and "key_kept s t" and "hist t = hist s @ new" and "set new \<subseteq> calm"
  shows "consistent t"
proof -
  have "nvs_settled (hist t) ''psk'' = nvs_settled (hist s) ''psk''"
    unfolding assms(3) using assms(4) calm_silent by (intro nvs_settled_silent) blast
  with assms(1,2) show ?thesis by (auto simp: consistent_def key_kept_def split: nvs_slot.splits)
qed

lemma serving_kept:
  assumes "effects key_kept calm m" and "run_state m s = (r, t)" and "board_inv (Serving s)"
  shows "board_inv (Serving t)"
proof -
  obtain new where "key_kept s t" "hist t = hist s @ new" "set new \<subseteq> calm" using assms(1,2) by (rule effectsE)
  with assms(3) calm_key_events consistent_kept show ?thesis by auto
qed

lemma served_inv: "effects key_kept calm m \<Longrightarrow> board_inv (Serving s) \<Longrightarrow> board_inv (served m s)"
  unfolding served_def by (metis prod.collapse serving_kept)

lemma settle_inv:
  assumes "\<And>r t. run_state m s = (r, t) \<Longrightarrow> board_inv (Serving t)"
  shows "board_inv (settle Serving m s)"
  using assms by (auto simp: settle_def split: prod.splits outcome.splits)

section \<open>Claiming and giving up\<close>

lemma settled_pending:
  assumes "r \<noteq> ESP_OK"
  shows "nvs_settled (h @ [Nvs (Nvs_open True ESP_OK), Nvs (Nvs_set_blob k v r), Nvs Nvs_close]) k = Unknown"
    and "nvs_settled (h @ [Nvs (Nvs_open True ESP_OK), Nvs (Nvs_set_blob k v x), Nvs (Nvs_commit r), Nvs Nvs_close]) k =
      Unknown"
    and "nvs_settled (h @ [Nvs (Nvs_open True ESP_OK), Nvs (Nvs_erase_key k x), Nvs (Nvs_commit r), Nvs Nvs_close]) k =
      Unknown"
    and "nvs_settled (h @ [Nvs (Nvs_open True ESP_OK), Nvs (Nvs_erase_key k x), Nvs Nvs_close]) k = Unknown"
  using assms by (simp_all add: nvs_settled_def settled_in_def nvs_store_append nvs_feed_def nvs_write_def)

lemma auth_claim_failed:
  assumes "run_state (auth_claim E peer) s = ((err, ours), t)" and "err \<noteq> 0" and "\<not> g_claimed s"
  obtains u tail e pub where "run_state (claim_exchange E peer) s = ((e, pub), u)"
    and "t = u\<lparr>hist := hist u @ [Crypto Ecp_free] @ tail\<rparr>"
    and "tail = [] \<or> (\<exists>r. tail = [Nvs (Nvs_open True r)]) \<or>
      (\<exists>r. r \<noteq> ESP_OK \<and> tail = [Nvs (Nvs_open True ESP_OK), Nvs (Nvs_set_blob ''psk'' (take 32 (g_psk u)) r), Nvs Nvs_close]) \<or>
      (\<exists>r. r \<noteq> ESP_OK \<and> tail = [Nvs (Nvs_open True ESP_OK), Nvs (Nvs_set_blob ''psk'' (take 32 (g_psk u)) ESP_OK),
        Nvs (Nvs_commit r), Nvs Nvs_close])"
proof -
  obtain e pub u where x: "run_state (claim_exchange E peer) s = ((e, pub), u)" by (metis prod.collapse)
  let ?h = "hist u @ [Crypto Ecp_free]"
  let ?o = "nvs_open_r (nvs E) True ?h"
  let ?v = "take 32 (g_psk u)"
  let ?b = "nvs_set_blob_r (nvs E) ''psk'' ?v (?h @ [Nvs (Nvs_open True ESP_OK)])"
  note run = assms(1) [unfolded auth_claim_def platform_calls] assms(2,3) x
  consider "e \<noteq> ESP_OK" | "e = ESP_OK" "?o \<noteq> ESP_OK" | "e = ESP_OK" "?o = ESP_OK" "?b \<noteq> ESP_OK"
    | "e = ESP_OK" "?o = ESP_OK" "?b = ESP_OK" by blast
  then show thesis
  proof cases
    case 1
    with run show thesis by (intro that [OF x, of "[]"]) simp_all
  next
    case 2
    with run show thesis by (intro that [OF x, of "[Nvs (Nvs_open True ?o)]"]) simp_all
  next
    case 3
    with run show thesis
      by (intro that [OF x, of "[Nvs (Nvs_open True ESP_OK), Nvs (Nvs_set_blob ''psk'' ?v ?b), Nvs Nvs_close]"]) auto
  next
    case 4
    let ?c = "nvs_commit_r (nvs E) (?h @ [Nvs (Nvs_open True ESP_OK), Nvs (Nvs_set_blob ''psk'' ?v ESP_OK)])"
    have "?c \<noteq> ESP_OK" using 4 run by (auto split: if_splits)
    with 4 run show thesis
      by (intro that [OF x, of "[Nvs (Nvs_open True ESP_OK), Nvs (Nvs_set_blob ''psk'' ?v ESP_OK),
          Nvs (Nvs_commit ?c), Nvs Nvs_close]"]) auto
  qed
qed

lemma psk_only_rand: "psk_only s t \<Longrightarrow> g_http_rand t = g_http_rand s"
  by (cases s; cases t) (simp add: psk_only_def)

lemma claim_consistent:
  assumes "consistent s" and "run_state (auth_claim E peer) s = ((err, ours), t)"
  shows "consistent t \<and> (\<exists>new. hist t = hist s @ new \<and> set new \<subseteq> key_events)"
proof (cases "g_claimed s")
  case True
  with assms have "t = s" by (simp add: auth_claim_def)
  with assms(1) show ?thesis by (auto intro: exI [of _ "[]"])
next
  case False
  obtain e pub u where x: "run_state (claim_exchange E peer) s = ((e, pub), u)" by (metis prod.collapse)
  have len: "length (g_psk u) = 32"
    using assms(1) by (intro claim_exchange_length [OF x]) (simp add: consistent_def)
  obtain cr where u: "psk_only s u" "hist u = hist s @ cr" "set cr \<subseteq> range Crypto"
    using effects_claim_exchange x by (rule effectsE)
  have cr: "\<forall>e \<in> set cr. nvs_silent e" "set cr \<subseteq> key_events" using u(3) by (auto simp: key_events_def)
  have uf: "g_http_rand u = g_http_rand s" "g_claimed u = g_claimed s"
    using u(1) by (rule psk_only_rand, rule psk_only_claimed)
  show ?thesis
  proof (cases "err = 0")
    case True
    then obtain u' where "run_state (claim_exchange E peer) s = ((ESP_OK, ours), u')"
      and "t = u'\<lparr>hist := hist u' @ [Crypto Ecp_free, Nvs (Nvs_open True ESP_OK),
        Nvs (Nvs_set_blob ''psk'' (take 32 (g_psk u')) ESP_OK), Nvs (Nvs_commit ESP_OK), Nvs Nvs_close],
        g_claimed := True\<rparr>"
      using auth_claim_ok assms(2) by blast
    moreover from this have "u' = u" using x by simp
    ultimately have t: "t = u\<lparr>hist := hist u @ [Crypto Ecp_free, Nvs (Nvs_open True ESP_OK),
        Nvs (Nvs_set_blob ''psk'' (g_psk u) ESP_OK), Nvs (Nvs_commit ESP_OK), Nvs Nvs_close],
        g_claimed := True\<rparr>" using len by simp
    have "nvs_settled (hist t) ''psk'' = Holds (g_psk u)"
      using settled_after_commit(1) [of "[]" "hist u @ [Crypto Ecp_free]" "''psk''" "g_psk u"] by (simp add: t)
    then show ?thesis using t len uf assms(1) u(2) cr(2) by (auto simp: consistent_def key_events_def)
  next
    case err: False
    obtain u' tail e' pub' where "run_state (claim_exchange E peer) s = ((e', pub'), u')"
      and "t = u'\<lparr>hist := hist u' @ [Crypto Ecp_free] @ tail\<rparr>"
      and "tail = [] \<or> (\<exists>r. tail = [Nvs (Nvs_open True r)]) \<or>
        (\<exists>r. r \<noteq> ESP_OK \<and> tail = [Nvs (Nvs_open True ESP_OK), Nvs (Nvs_set_blob ''psk'' (take 32 (g_psk u')) r), Nvs Nvs_close]) \<or>
        (\<exists>r. r \<noteq> ESP_OK \<and> tail = [Nvs (Nvs_open True ESP_OK), Nvs (Nvs_set_blob ''psk'' (take 32 (g_psk u')) ESP_OK),
          Nvs (Nvs_commit r), Nvs Nvs_close])"
      using assms(2) err False by (rule auth_claim_failed)
    moreover from this have "u' = u" using x by simp
    ultimately have t: "t = u\<lparr>hist := (hist u @ [Crypto Ecp_free]) @ tail\<rparr>"
      and tail: "tail = [] \<or> (\<exists>r. tail = [Nvs (Nvs_open True r)]) \<or>
        (\<exists>r. r \<noteq> ESP_OK \<and> tail = [Nvs (Nvs_open True ESP_OK), Nvs (Nvs_set_blob ''psk'' (g_psk u) r), Nvs Nvs_close]) \<or>
        (\<exists>r. r \<noteq> ESP_OK \<and> tail = [Nvs (Nvs_open True ESP_OK), Nvs (Nvs_set_blob ''psk'' (g_psk u) ESP_OK),
          Nvs (Nvs_commit r), Nvs Nvs_close])"
      using len by simp_all
    have "nvs_settled (hist t) ''psk'' = nvs_settled (hist s) ''psk'' \<or> nvs_settled (hist t) ''psk'' = Unknown"
      using tail settled_pending [of _ "hist u @ [Crypto Ecp_free]" "''psk''"] cr(1) u(2)
        nvs_settled_silent [of "cr @ [Crypto Ecp_free] @ tail" "hist s" "''psk''"] by (auto simp: t)
    moreover have "set tail \<subseteq> key_events" using tail len by (auto simp: key_events_def)
    ultimately show ?thesis
      using assms(1) False len uf cr(2) u(2) t by (auto simp: consistent_def key_events_def split: nvs_slot.splits)
  qed
qed

lemma unclaim_consistent:
  assumes "consistent s" and "run_state (auth_unclaim E) s = (err, t)"
  shows "consistent t \<and> (\<exists>new. hist t = hist s @ new \<and> set new \<subseteq> key_events)"
proof (cases "err = 0")
  case True
  with assms(2) have "run_state (auth_unclaim E) s = (0, t)" by simp
  then obtain r where r: "r = ESP_OK \<or> r = ESP_ERR_NVS_NOT_FOUND"
    and t: "t = s\<lparr>hist := hist s @
      [Nvs (Nvs_open True ESP_OK), Nvs (Nvs_erase_key ''psk'' r), Nvs (Nvs_commit ESP_OK),
       Nvs Nvs_close], g_psk := replicate 32 0, g_claimed := False\<rparr>"
    by (rule auth_unclaim_ok)
  have "nvs_settled (hist t) ''psk'' = Absent"
    using settled_after_commit(2) [OF _ r, of "[]" "hist s" "''psk''"] by (simp add: t)
  then show ?thesis using assms(1) by (simp add: consistent_def t key_events_def)
next
  case False
  then obtain tail where t: "t = s\<lparr>hist := hist s @ tail\<rparr>"
    and tail: "(\<exists>r. tail = [Nvs (Nvs_open True r)]) \<or>
      (\<exists>r. r \<noteq> ESP_OK \<and> r \<noteq> ESP_ERR_NVS_NOT_FOUND \<and> tail = [Nvs (Nvs_open True ESP_OK), Nvs (Nvs_erase_key ''psk'' r), Nvs Nvs_close]) \<or>
      (\<exists>x r. r \<noteq> ESP_OK \<and> tail = [Nvs (Nvs_open True ESP_OK), Nvs (Nvs_erase_key ''psk'' x), Nvs (Nvs_commit r), Nvs Nvs_close])"
    using assms(2) by (auto simp: auth_unclaim_def platform_calls Let_def split: if_splits)
  have "nvs_settled (hist t) ''psk'' = nvs_settled (hist s) ''psk'' \<or> nvs_settled (hist t) ''psk'' = Unknown"
    using tail settled_pending(3,4) [of _ "hist s" "''psk''"] nvs_settled_silent [of tail "hist s" "''psk''"]
    by (auto simp: t)
  moreover have "set tail \<subseteq> key_events" using tail by (auto simp: key_events_def)
  ultimately show ?thesis using assms(1) by (auto simp: consistent_def t split: nvs_slot.splits)
qed

lemma consistent_more: "consistent s \<Longrightarrow> set new \<subseteq> calm \<Longrightarrow> consistent (s\<lparr>hist := hist s @ new\<rparr>)"
  by (rule consistent_kept [of s]) (simp_all add: key_kept_def)

lemma claim_post_cases:
  assumes "run_state (claim_post E) s = (r, t)"
  obtains (refused) new where "t = s\<lparr>hist := hist s @ new\<rparr>" and "set new \<subseteq> calm"
  | (tried) rx peer err ours v e where
      "run_state (auth_claim E peer) (s\<lparr>hist := hist s @ [Http (Req_recv 79 rx)]\<rparr>) = ((err, ours), v)"
      and "t = v\<lparr>hist := hist v @ [e]\<rparr>" and "e \<in> calm"
proof -
  let ?rx = "req_recv_r (http E) 79 (hist s)"
  let ?u = "s\<lparr>hist := hist s @ [Http (Req_recv 79 ?rx)]\<rparr>"
  note run = assms [unfolded claim_post_def auth_claimed_def reply_err_def platform_calls]
  consider "g_claimed s" | "\<not> g_claimed s" "rx_n ?rx < 64"
    | "\<not> g_claimed s" "\<not> rx_n ?rx < 64" "parse_peer (take 64 (rx_data ?rx)) [0..<32] = None"
    | peer where "\<not> g_claimed s" "\<not> rx_n ?rx < 64" "parse_peer (take 64 (rx_data ?rx)) [0..<32] = Some peer"
    by blast
  then show thesis
  proof cases
    case 1
    then have "t = s\<lparr>hist := hist s @ [Http (Resp_err 403 (str ''already claimed; factory-reset to re-key''))]\<rparr>"
      using run by simp
    then show thesis by (rule refused) (simp add: calm_def)
  next
    case 2
    then have "t = s\<lparr>hist := hist s @ [Http (Req_recv 79 ?rx), Http (Resp_err 400 (str ''expected 64 hex chars''))]\<rparr>"
      using run by simp
    then show thesis by (rule refused) (simp add: calm_def)
  next
    case 3
    then have "t = s\<lparr>hist := hist s @ [Http (Req_recv 79 ?rx), Http (Resp_err 400 (str ''bad hex''))]\<rparr>"
      using run by simp
    then show thesis by (rule refused) (simp add: calm_def)
  next
    case 4
    obtain err ours v where v: "run_state (auth_claim E peer) ?u = ((err, ours), v)" by (metis prod.collapse)
    have "\<exists>e. t = v\<lparr>hist := hist v @ [Http e]\<rparr>"
      using run 4 v by (auto split: option.splits if_splits)
    then show thesis using tried [OF v] by (auto simp: calm_def)
  qed
qed

lemma claim_post_inv:
  assumes "board_inv (Serving s)" and "run_state (claim_post E) s = (r, t)"
  shows "board_inv (Serving t)"
  using assms(2)
proof (cases rule: claim_post_cases)
  case (refused new)
  with assms(1) calm_key_events consistent_more show ?thesis by auto
next
  case (tried rx peer err ours v e)
  let ?u = "s\<lparr>hist := hist s @ [Http (Req_recv 79 rx)]\<rparr>"
  have "consistent ?u" using assms(1) by (intro consistent_more) (simp_all add: calm_def)
  from claim_consistent [OF this tried(1)] obtain new where
    v: "consistent v" "hist v = hist ?u @ new" "set new \<subseteq> key_events" by blast
  have "consistent t" unfolding tried(2) using v(1) tried(3) by (intro consistent_more) simp_all
  moreover have "e \<in> key_events" using tried(3) calm_key_events by blast
  ultimately show ?thesis using v(2,3) tried(2) assms(1) by (simp add: key_events_def)
qed

lemma unclaim_post_cases:
  assumes "run_state (unclaim_post E) s = (r, t)"
  obtains (refused) new where "run_state (empty_body_proved E (str ''/unclaim'')) s = (False, s\<lparr>hist := hist s @ new\<rparr>)"
      and "t = s\<lparr>hist := hist s @ new @ [Http (Resp_err 403 (str ''bad or missing X-Bridge-Auth / X-Bridge-Pre''))]\<rparr>"
      and "set new \<subseteq> calm"
  | (proved) new err v more where "run_state (empty_body_proved E (str ''/unclaim'')) s = (True, s\<lparr>hist := hist s @ new\<rparr>)"
      and "set new \<subseteq> calm" and "run_state (auth_unclaim E) (s\<lparr>hist := hist s @ new\<rparr>) = (err, v)"
      and "t = v\<lparr>hist := hist v @ more\<rparr>" and "set more \<subseteq> calm"
proof -
  obtain ok u where u: "run_state (empty_body_proved E (str ''/unclaim'')) s = (ok, u)" by fastforce
  obtain new where new: "u = s\<lparr>hist := hist s @ new\<rparr>" "set new \<subseteq> calm"
    using calm_proofs(4) u by (rule emitsE)
  note run = assms [unfolded unclaim_post_def reply_err_def platform_calls]
  show thesis
  proof (cases ok)
    case False
    with run u new show thesis by (intro refused [of new]) auto
  next
    case True
    obtain err v where v: "run_state (auth_unclaim E) u = (err, v)" by fastforce
    have "\<exists>more. t = v\<lparr>hist := hist v @ more\<rparr> \<and> set more \<subseteq> calm"
      using run u True v by (auto simp: calm_def split: if_splits)
    with u new True v show thesis using proved [of new err v] by auto
  qed
qed

lemma unclaim_post_inv:
  assumes "board_inv (Serving s)" and "run_state (unclaim_post E) s = (r, t)"
  shows "board_inv (Serving t)"
  using assms(2)
proof (cases rule: unclaim_post_cases)
  case (refused new)
  then have "t = s\<lparr>hist := hist s @ (new @ [Http (Resp_err 403 (str ''bad or missing X-Bridge-Auth / X-Bridge-Pre''))])\<rparr>"
    by simp
  with refused(3) assms(1) calm_key_events consistent_more [of s] show ?thesis by (auto simp: calm_def key_events_def)
next
  case (proved new err v more)
  let ?u = "s\<lparr>hist := hist s @ new\<rparr>"
  have "consistent ?u" using assms(1) proved(2) by (intro consistent_more) simp_all
  from unclaim_consistent [OF this proved(3)] obtain z where
    v: "consistent v" "hist v = hist ?u @ z" "set z \<subseteq> key_events" by blast
  have "consistent t" unfolding proved(4) using v(1) proved(5) by (intro consistent_more) simp_all
  then show ?thesis using v(2,3) proved assms(1) calm_key_events by auto
qed

section \<open>The portal\<close>

text \<open>Writes under other names and commits leave a settled key alone.\<close>

fun portal_event :: "event \<Rightarrow> bool" where
  "portal_event (Nvs (Nvs_set_str k v r)) = (k \<noteq> ''psk'')"
| "portal_event (Nvs (Nvs_commit r)) = True"
| "portal_event e = (\<not> writes_nvs e)"

lemma calm_portal: "e \<in> calm \<Longrightarrow> portal_event e"
  unfolding calm_def by (cases e rule: portal_event.cases) simp_all

lemma portal_events:
  assumes "\<forall>e \<in> set new. portal_event e" and "\<not> snd (nvs_store_of h) ''psk''"
  shows "\<not> snd (nvs_store_of (h @ new)) ''psk'' \<and> fst (nvs_store_of (h @ new)) ''psk'' = fst (nvs_store_of h) ''psk''"
  using assms(1)
proof (induction new rule: rev_induct)
  case (snoc e new)
  then have "portal_event e" "\<not> snd (nvs_store_of (h @ new)) ''psk''"
    "fst (nvs_store_of (h @ new)) ''psk'' = fst (nvs_store_of h) ''psk''" by simp_all
  then show ?case
    unfolding append_assoc [symmetric] nvs_store_append [of "h @ new" "[e]"]
    by (cases e rule: portal_event.cases) (simp_all add: nvs_feed_def nvs_write_def)
qed (use assms(2) in simp)

lemma portal_inv:
  assumes "emits {e. portal_event e} m" and "board_inv (Portal s)" and "run_state m s = (r, t)"
  shows "board_inv (Portal t)"
proof -
  obtain new where t: "t = s\<lparr>hist := hist s @ new\<rparr>" and new: "set new \<subseteq> {e. portal_event e}"
    using assms(1,3) by (rule emitsE)
  have "key_event e" if "portal_event e" for e using that by (cases e rule: portal_event.cases) simp_all
  then have "set new \<subseteq> key_events" using new by (auto simp: key_events_def)
  moreover have "\<not> psk_pending t \<and> nvs_settled (hist t) ''psk'' = nvs_settled (hist s) ''psk''"
    using portal_events [of new "hist s"] new assms(2) by (auto simp: t psk_pending_def nvs_settled_def settled_in_def)
  ultimately show ?thesis using assms(2) by (auto simp: t consistent_def split: nvs_slot.splits)
qed

lemma portal_saves: "emits {e. portal_event e} (portal_save E)"
  unfolding portal_save_def reply_err_def platform_calls
  by (intro frame_intros) simp_all

lemma portal_gets: "emits {e. portal_event e} (portal_get E)"
  unfolding portal_get_def platform_calls by (intro frame_intros) simp_all

section \<open>Booting\<close>

text \<open>A boot writes nothing but perhaps an erasure of everything.\<close>

interpretation any_frame: field_frame "\<lambda>_ _. True"
  by unfold_locales simp_all

lemma auth_init_calm: "effects (\<lambda>_ _. True) calm (auth_init E)"
  unfolding auth_init_def platform_calls by (intro frame_intros TrueI) (simp_all add: calm_def split: prod.splits)

lemma auth_init_lengths:
  "run_state (auth_init E) u = (cl, w) \<Longrightarrow> length (g_psk w) = length (g_psk u) \<and> length (g_http_rand w) = 16"
  by (auto simp: auth_init_def platform_calls split: prod.splits if_splits)

lemma app_main_events: "effects (\<lambda>_ _. True) key_events (app_main E c)"
proof -
  have k: "effects (\<lambda>_ _. True) key_events m" if "effects R calm m" for R and m :: "'a fwm"
    using that calm_key_events by (rule effects_mono) simp
  show ?thesis
    unfolding app_main_def nvs_start_def boottrace_defs platform_calls
    by (intro frame_intros k [OF auth_init_calm] k [OF key_services] TrueI) (simp_all add: key_events_def)
qed

lemma auth_init_agrees:
  assumes "nvs_law E" and "run_state (auth_init E) u = (cl, w)" and "set (hist u) \<subseteq> key_events"
    and "length (g_psk u) = 32" and "\<not> g_claimed u"
  shows "consistent w"
proof -
  obtain new where new: "hist w = hist u @ new" "set new \<subseteq> calm" using auth_init_calm assms(2) by (rule effectsE)
  have "nvs_settled (hist w) ''psk'' = nvs_settled (hist u) ''psk''"
    unfolding new(1) using new(2) calm_silent by (intro nvs_settled_silent) blast
  moreover have "key_slot (nvs_settled (hist u) ''psk'')" using assms(3) by (rule key_slot_settled)
  moreover have "g_claimed w \<and> g_psk w = v" if "nvs_settled (hist u) ''psk'' = Holds v" "length v = 32" for v
    using auth_init_holds [OF assms(1) that assms(4)] assms(2) by auto
  moreover have "\<not> g_claimed w" if "nvs_settled (hist u) ''psk'' = Absent"
    using auth_init_absent [OF assms(1) that assms(5)] assms(2) by auto
  ultimately show ?thesis
    using auth_init_lengths [OF assms(2)] assms(4) by (auto simp: consistent_def key_slot_def split: nvs_slot.splits)
qed

lemma boot_inv:
  assumes "nvs_law E" and "board_inv (Halted s)"
  shows "board_inv (settle booted (app_main E c) (restart s))"
proof -
  obtain r t where run: "run_state (app_main E c) (restart s) = (r, t)" by fastforce
  obtain new where "hist t = hist (restart s) @ new" "set new \<subseteq> key_events" using app_main_events run by (rule effectsE)
  then have key: "set (hist t) \<subseteq> key_events" using assms(2) by simp
  show ?thesis
  proof (cases r)
    case (Returned x)
    with run have "run_state (app_main E c) (restart s) = (Returned (), t)" by simp
    then obtain u cl w h where u: "run_state (auth_init E) u = (cl, w)" "key_kept (restart s) u" "key_kept w t"
        "hist t = hist w @ h" "set h \<subseteq> calm"
      and hu: "hist u = hist (restart s) @ [Sys (Reset_reason (reset_reason_r (sys E) (hist (restart s))))] @
        (let e = nvs_flash_init_r (nvs E) (hist (restart s) @ [Sys (Reset_reason (reset_reason_r (sys E) (hist (restart s))))]) in
         if e = ESP_OK then [Nvs (Nvs_flash_init ESP_OK)]
         else [Nvs (Nvs_flash_init e), Nvs (Nvs_flash_erase ESP_OK), Nvs (Nvs_flash_init ESP_OK)]) @
        [Net Netif_init ESP_OK, Net Event_loop_create ESP_OK]"
      by (rule app_main_returned)
    obtain a where a: "hist w = hist u @ a" "set a \<subseteq> calm" using auth_init_calm u(1) by (rule effectsE)
    have "set (hist u) \<subseteq> key_events" using key u(4) a(1) by auto
    then have "consistent w" using u(2) by (intro auth_init_agrees [OF assms(1) u(1)]) (simp_all add: key_kept_def)
    then have "consistent t" using u(3,4,5) by (rule consistent_kept)
    have "\<not> psk_pending u"
      by (simp add: psk_pending_def hu Let_def nvs_store_append nvs_feed_def)
    moreover have "\<forall>e \<in> set (a @ h). portal_event e" using a(2) u(5) calm_portal by auto
    ultimately have "\<not> psk_pending t"
      using portal_events [of "a @ h" "hist u"] a(1) u(4) by (simp add: psk_pending_def)
    then show ?thesis using run Returned key \<open>consistent t\<close> by (simp add: settle_def booted_def)
  qed (use run key in \<open>simp_all add: settle_def\<close>)
qed

section \<open>The invariant\<close>

lemmas keeps = keeps_ota_post keeps_reboot keeps_rollback keeps_status key_frame.of_emits [OF keeps_handshake]
  keeps_ip_events key_frame.of_emits [OF keeps_wifi_event] key_frame.of_emits [OF keeps_discovery] keeps_bridge

lemma board_step_inv:
  assumes "nvs_law E" and "board_inv b" and "board_step E c b b'"
  shows "board_inv b'"
  using assms(3,2)
proof (cases rule: board_step.cases)
  case (power_on s)
  with assms(1,2) show ?thesis using boot_inv by simp
next
  case power_loss
  with assms(2) show ?thesis by (cases b) simp_all
next
  case (save_credentials s)
  have "board_inv (Portal t)" if "run_state (portal_save E) s = (r, t)" for r t
    using portal_saves assms(2)  that unfolding save_credentials(1) by (rule portal_inv)
  then show ?thesis unfolding save_credentials(2) by (auto simp: settle_def split: prod.splits outcome.splits)
next
  case (show_portal s)
  then show ?thesis using portal_inv [OF portal_gets] assms(2) by (metis prod.collapse)
qed (use assms(2) in \<open>auto intro!: settle_inv served_inv keeps elim: serving_kept [OF keeps_ota_post]
    serving_kept [OF keeps_reboot] serving_kept [OF keeps_rollback] claim_post_inv unclaim_post_inv simp del: board_inv.simps\<close>)

definition board_start :: "board \<Rightarrow> bool" where
  "board_start b \<longleftrightarrow> (\<exists>s. b = Halted s \<and> hist s = [])"

interpretation board: inductive_invariant board_start "\<lambda>b b'. nvs_law E \<and> board_step E c b b'" board_inv for E c
  by unfold_locales (auto simp: board_start_def intro: board_step_inv)

lemma reach_board_inv:
  assumes "nvs_law E" and "reach board_start (board_step E c) b"
  shows "board_inv b"
proof -
  have "(\<lambda>b b'. nvs_law E \<and> board_step E c b b') = board_step E c" using assms(1) by simp
  with board.reach_inv [of E c b] assms(2) show ?thesis by simp
qed

section \<open>Who changes the key\<close>

lemma fw_of_settle [simp]: "fw_of (settle Serving m s) = snd (run_state m s)"
  by (simp add: settle_def split: prod.splits outcome.splits)

lemma fw_of_served [simp]: "fw_of (served m s) = snd (run_state m s)"
  by (simp add: served_def)

text \<open>The abstract board: free, or owned with a key. \<open>P\<close> stands for a proof of the key.\<close>

datatype owner = Free | Owned bytes

inductive owner_step :: "bool \<Rightarrow> owner \<Rightarrow> owner \<Rightarrow> bool" for P where
  keep: "owner_step P x x"
| take: "length k = 32 \<Longrightarrow> owner_step P Free (Owned k)"
| release: "P \<Longrightarrow> owner_step P (Owned k) Free"

definition owner :: "fw \<Rightarrow> owner" where
  "owner s = (if g_claimed s then Owned (g_psk s) else Free)"

lemma effects_owner: "effects key_kept calm m \<Longrightarrow> owner (snd (run_state m s)) = owner s"
  by (simp add: effects_def key_kept_def owner_def)

lemma unclaim_post_releases:
  assumes "run_state (unclaim_post E) s = (r, t)"
  shows "owner t = owner s \<or> \<not> g_claimed t"
  using assms
proof (cases rule: unclaim_post_cases)
  case (proved new err v more)
  show ?thesis
  proof (cases "err = 0")
    case True
    with proved(3) have "run_state (auth_unclaim E) (s\<lparr>hist := hist s @ new\<rparr>) = (0, v)" by simp
    then have "\<not> g_claimed v" by (rule auth_unclaim_ok) simp
    with proved(4) show ?thesis by simp
  next
    case False
    have v: "v = (s\<lparr>hist := hist s @ new\<rparr>)\<lparr>hist := hist v\<rparr>" using proved(3) False by (rule auth_unclaim_error)
    have "g_psk v = g_psk s" "g_claimed v = g_claimed s" by (subst v, simp)+
    with proved(4) show ?thesis by (simp add: owner_def)
  qed
qed (simp add: owner_def)

lemma claimed_claim_post: "g_claimed s \<Longrightarrow> g_psk (snd (run_state (claim_post E) s)) = g_psk s \<and> g_claimed (snd (run_state (claim_post E) s))"
  by (simp add: claim_post_def auth_claimed_def reply_err_def platform_calls)

lemma unclaim_post_proved:
  assumes "hmac_law E hm" and "sha_law E sha" and "run_state (unclaim_post E) s = (r, t)"
    and "g_psk t \<noteq> g_psk s \<or> g_claimed t \<noteq> g_claimed s"
  shows "\<exists>new. hist t = hist s @ new \<and> proved_empty E hm sha (str ''/unclaim'') s new"
  using assms(3)
proof (cases rule: unclaim_post_cases)
  case (refused new)
  with assms(4) show ?thesis by simp
next
  case (proved new err v more)
  obtain new' where "s\<lparr>hist := hist s @ new\<rparr> = s\<lparr>hist := hist s @ new'\<rparr>" "proved_empty E hm sha (str ''/unclaim'') s new'"
    using proved(1) assms(1,2) by (rule empty_body_proved_sound)
  then have new: "proved_empty E hm sha (str ''/unclaim'') s new" by simp
  obtain z where "hist v = hist s @ new @ z"
    using proved(3) by (auto simp: auth_unclaim_def platform_calls Let_def split: if_splits)
  with proved(4) proved_empty_append [OF new, of "z @ more"] show ?thesis by simp
qed

section \<open>Properties\<close>

text \<open>
  C4. Memory and flash agree, always. From a fresh board, after any sequence of boots, power losses,
  requests, connections, events and failed writes: whenever the storage is known to hold a key, the
  serving board is claimed with exactly that key, whenever it is known to hold none, the board is
  unclaimed, and the key and the random part of the nonce keep their sizes. So a key the owner was told
  is gone is not used, and one the owner was told is stored is not lost.
\<close>

theorem memory_agrees_with_flash:
  assumes "nvs_law E" and "reach board_start (board_step E c) (Serving s)"
  shows "length (g_psk s) = 32 \<and> length (g_http_rand s) = 16 \<and>
    (\<forall>v. nvs_settled (hist s) ''psk'' = Holds v \<longrightarrow> g_claimed s \<and> g_psk s = v) \<and>
    (nvs_settled (hist s) ''psk'' = Absent \<longrightarrow> \<not> g_claimed s)"
proof -
  have "board_inv (Serving s)" using assms by (rule reach_board_inv)
  then show ?thesis by (auto simp: consistent_def)
qed

text \<open>A fresh board that is switched on and then claimed.\<close>

lemma claimer_boot:
  "\<exists>t. run_state (app_main claimer_sdk demo_conf) (restart boot_fw) = (Returned (), t) \<and> s_stage t = 8 \<and>
     \<not> g_claimed t \<and> body_of (hist t) = []"
  by (simp add: boot_run claimer_sdk_def auth_init_def toy_crypto_def nvs_store_of_def nvs_feed_def body_of_def
      split: prod.splits)

lemma claimer_claimed:
  assumes "\<not> g_claimed s" and "body_of (hist s) = []"
  obtains t where "settle Serving (claim_post claimer_sdk) s = Serving t" and "g_claimed t"
    and "nvs_settled (hist t) ''psk'' = Holds (take 32 (g_psk t))"
proof -
  from claimer_claims [OF assms(1)] obtain u where u: "run_state (auth_claim claimer_sdk host_pub)
      (s\<lparr>hist := hist s @ [Http (Req_recv 79 (Rx (hexlify host_pub 32)))]\<rparr>) =
    ((0, Some (le_bytes 32 (toy_smul 3 9))), u)" by blast
  from claim_post_run [OF assms(1) claimer_body [OF assms(2)] _ claimer_digits _ u] obtain x e where
    run: "run_state (claim_post claimer_sdk) s = (Returned e, u\<lparr>hist := hist u @ [Http x]\<rparr>)"
    by (auto simp: unhex_hexlify httpd_resp_send_def)
  from u obtain v where v: "u = v\<lparr>hist := hist v @ [Crypto Ecp_free, Nvs (Nvs_open True ESP_OK),
      Nvs (Nvs_set_blob ''psk'' (take 32 (g_psk v)) ESP_OK), Nvs (Nvs_commit ESP_OK), Nvs Nvs_close],
      g_claimed := True\<rparr>"
    by (rule auth_claim_ok)
  have "nvs_settled (hist u @ [Http x]) ''psk'' = Holds (take 32 (g_psk u))"
    using settled_after_commit(1) [of "[Http x]" "hist v @ [Crypto Ecp_free]" "''psk''" "take 32 (g_psk v)"]
    by (simp add: v)
  with run v show thesis by (intro that [of "u\<lparr>hist := hist u @ [Http x]\<rparr>"]) (simp_all add: settle_def)
qed

lemma claimer_run:
  obtains s t where "reach board_start (board_step claimer_sdk demo_conf) (Serving s)" and "\<not> g_claimed s"
    and "board_step claimer_sdk demo_conf (Serving s) (Serving t)" and "g_claimed t"
    and "nvs_settled (hist t) ''psk'' = Holds (take 32 (g_psk t))"
proof -
  obtain s where s: "run_state (app_main claimer_sdk demo_conf) (restart boot_fw) = (Returned (), s)"
    "s_stage s = 8" "\<not> g_claimed s" "body_of (hist s) = []" using claimer_boot by blast
  have "reach board_start (board_step claimer_sdk demo_conf) (Halted boot_fw)"
    by (rule reach_start) (simp add: board_start_def boot_fw_def)
  then have "reach board_start (board_step claimer_sdk demo_conf)
      (settle booted (app_main claimer_sdk demo_conf) (restart boot_fw))"
    using power_on by (rule reach_step)
  with s have reach: "reach board_start (board_step claimer_sdk demo_conf) (Serving s)"
    by (simp add: settle_def booted_def)
  obtain t where t: "settle Serving (claim_post claimer_sdk) s = Serving t" "g_claimed t"
    "nvs_settled (hist t) ''psk'' = Holds (take 32 (g_psk t))" using s(3,4) by (rule claimer_claimed)
  have "board_step claimer_sdk demo_conf (Serving s) (Serving t)"
    using board_step.claim [of claimer_sdk demo_conf s] by (simp only: t(1))
  with reach s(3) t(2,3) show thesis by (intro that)
qed

lemma claimer_laws: "nvs_law claimer_sdk" "hmac_law claimer_sdk toy_mac" "sha_law claimer_sdk toy_sha"
  by (simp_all add: claimer_sdk_def toy_laws)

theorem memory_agrees_with_flash_witness:
  "\<exists>t v. reach board_start (board_step claimer_sdk demo_conf) (Serving t) \<and>
     nvs_settled (hist t) ''psk'' = Holds v \<and> g_claimed t \<and> g_psk t = v \<and> length v = 32"
proof -
  obtain s t where st: "reach board_start (board_step claimer_sdk demo_conf) (Serving s)"
    "board_step claimer_sdk demo_conf (Serving s) (Serving t)"
    and holds: "nvs_settled (hist t) ''psk'' = Holds (take 32 (g_psk t))" by (rule claimer_run)
  from st have t: "reach board_start (board_step claimer_sdk demo_conf) (Serving t)" by (rule reach_step)
  from memory_agrees_with_flash [OF claimer_laws(1) t] holds t show ?thesis by auto
qed

text \<open>
  C5. The board as its owner sees it. Abstractly a board is free or owned with a key; it can be taken
  when it is free, and an owned one can only be released, with a proof of the key. Every step of a
  reachable serving board is one of these or changes nothing: whatever arrives over the network, the
  owner is never replaced by another, and never loses the board without a request that proved the key
  for giving it up, with the current nonce.
\<close>

theorem board_refines_ownership:
  assumes "nvs_law E" and "hmac_law E hm" and "sha_law E sha"
    and "reach board_start (board_step E c) (Serving s)" and "board_step E c (Serving s) b"
  shows "owner_step (\<exists>new. hist (fw_of b) = hist s @ new \<and> proved_empty E hm sha (str ''/unclaim'') s new)
    (owner s) (owner (fw_of b))"
  using assms(5)
proof (cases rule: board_step.cases)
  case unclaim
  obtain r t where t: "run_state (unclaim_post E) s = (r, t)" by fastforce
  with unclaim have b: "fw_of b = t" by simp
  show ?thesis
  proof (cases "g_claimed s \<and> owner t \<noteq> owner s")
    case True
    then have "g_psk t \<noteq> g_psk s \<or> g_claimed t \<noteq> g_claimed s" by (auto simp: owner_def)
    from unclaim_post_proved [OF assms(2,3) t this] True b unclaim_post_releases [OF t] show ?thesis
      by (auto simp: owner_def intro: owner_step.intros)
  next
    case False
    with b unclaim_post_releases [OF t] show ?thesis by (auto simp: owner_def intro: owner_step.intros)
  qed
next
  case claim
  obtain r t where t: "run_state (claim_post E) s = (r, t)" by fastforce
  with claim have b: "fw_of b = t" by simp
  have "board_inv (Serving t)" using reach_board_inv [OF assms(1,4)] t by (rule claim_post_inv)
  with t b claimed_claim_post [of s E] show ?thesis
    by (auto simp: owner_def consistent_def intro: owner_step.intros)
qed (use keeps [THEN effects_owner] in \<open>auto intro: owner_step.intros\<close>)

theorem board_refines_ownership_witness:
  "\<exists>s t k. reach board_start (board_step claimer_sdk demo_conf) (Serving s) \<and>
     board_step claimer_sdk demo_conf (Serving s) (Serving t) \<and> owner s = Free \<and> owner t = Owned k \<and>
     owner_step (\<exists>new. hist t = hist s @ new \<and> proved_empty claimer_sdk toy_mac toy_sha (str ''/unclaim'') s new)
       (owner s) (owner t)"
proof -
  obtain s t where st: "reach board_start (board_step claimer_sdk demo_conf) (Serving s)" "\<not> g_claimed s"
    "board_step claimer_sdk demo_conf (Serving s) (Serving t)" "g_claimed t" by (rule claimer_run)
  from board_refines_ownership [OF claimer_laws st(1,3)] st show ?thesis by (auto simp: owner_def)
qed

end
