(* ===== verification/H4.thy ===== *)
theory H4
  imports Prelude
begin

text \<open>
  \<open>common/h4.zig\<close>: the reassembly of whole HCI packets from a byte stream, and its specification, which
  looks at the stream byte by byte and knows nothing of how it was cut.
\<close>

section \<open>Definitions\<close>

datatype PacketType = Command | Acl | Sco | Event | Iso

definition fromByte :: "byte \<Rightarrow> PacketType option" where
  "fromByte b =
     (if b = 0x01 then Some Command else if b = 0x02 then Some Acl else if b = 0x03 then Some Sco
      else if b = 0x04 then Some Event else if b = 0x05 then Some Iso else None)"

fun headerLen :: "PacketType \<Rightarrow> nat" where
  "headerLen Command = 3"
| "headerLen Acl = 4"
| "headerLen Sco = 3"
| "headerLen Event = 2"
| "headerLen Iso = 4"

definition readInt_u16 :: "byte \<Rightarrow> byte \<Rightarrow> nat" where
  "readInt_u16 lo hi = unat lo + 256 * unat hi"

fun payloadLen :: "PacketType \<Rightarrow> bytes \<Rightarrow> nat" where
  "payloadLen Command header = unat (header ! 2)"
| "payloadLen Event header = unat (header ! 1)"
| "payloadLen Sco header = unat (header ! 2)"
| "payloadLen Acl header = readInt_u16 (header ! 2) (header ! 3)"
| "payloadLen Iso header = readInt_u16 (header ! 2) (header ! 3) mod 2 ^ 14"

datatype H4_error = UnknownPacketType | PacketTooLarge

text \<open>The storage has \<open>cap\<close> bytes, of which \<open>held\<close> are in use.\<close>

record reassembler =
  cap :: nat
  held :: bytes

text \<open>\<open>init\<close> asserts that a type byte and the longest header fit; \<open>None\<close> is the panic.\<close>

definition h4_init :: "nat \<Rightarrow> reassembler option" where
  "h4_init n = (if n < 1 + 4 then None else Some \<lparr>cap = n, held = []\<rparr>)"

definition h4_reset :: "reassembler \<Rightarrow> reassembler" where
  "h4_reset re = re\<lparr>held := []\<rparr>"

definition totalLen :: "reassembler \<Rightarrow> H4_error + nat option" where
  "totalLen re =
     (if held re = [] then Inr None
      else case fromByte (held re ! 0) of
          None \<Rightarrow> Inl UnknownPacketType
        | Some t \<Rightarrow>
            let hdr = headerLen t in
            if length (held re) < 1 + hdr then Inr None
            else let tot = 1 + hdr + payloadLen t (take hdr (drop 1 (held re))) in
              if cap re < tot then Inl PacketTooLarge else Inr (Some tot))"

text \<open>
  The loop of \<open>feed\<close> over the bytes not consumed yet. \<open>None\<close> stands for a loop that never ends, and for
  the subtraction that would go below zero; neither happens from a state the reassembler gets into.
\<close>

definition h4_want :: "reassembler \<Rightarrow> nat option \<Rightarrow> H4_error + nat" where
  "h4_want re total_opt =
     (case total_opt of
        Some tot \<Rightarrow> Inr (tot - length (held re))
      | None \<Rightarrow>
          if held re = [] then Inr 1
          else (case fromByte (held re ! 0) of
                  None \<Rightarrow> Inl UnknownPacketType
                | Some t \<Rightarrow> Inr (1 + headerLen t - length (held re))))"

partial_function (option) feed_loop ::
  "reassembler \<Rightarrow> bytes \<Rightarrow> nat \<Rightarrow> (reassembler \<times> (H4_error + nat \<times> bytes option)) option" where
  "feed_loop re rest consumed =
     (if rest = [] then Some (re, Inr (consumed, None))
      else case totalLen re of
          Inl e \<Rightarrow> Some (re, Inl e)
        | Inr total_opt \<Rightarrow>
            (case h4_want re total_opt of
               Inl e \<Rightarrow> Some (re, Inl e)
             | Inr want \<Rightarrow>
                 if (case total_opt of Some tot \<Rightarrow> tot < length (held re) | None \<Rightarrow> False) then None
                 else
                   let n = min want (length rest);
                       re' = re\<lparr>held := held re @ take n rest\<rparr>
                   in case totalLen re' of
                        Inl e \<Rightarrow> Some (re', Inl e)
                      | Inr (Some tot) \<Rightarrow>
                          if length (held re') = tot
                          then Some (re', Inr (consumed + n, Some (take tot (held re'))))
                          else feed_loop re' (drop n rest) (consumed + n)
                      | Inr None \<Rightarrow> feed_loop re' (drop n rest) (consumed + n)))"

text \<open>A packet returned before is still in the storage and makes room first.\<close>

definition feed :: "reassembler \<Rightarrow> bytes \<Rightarrow> (reassembler \<times> (H4_error + nat \<times> bytes option)) option" where
  "feed re inp =
     (case totalLen re of
        Inl e \<Rightarrow> Some (re, Inl e)
      | Inr (Some tot) \<Rightarrow> feed_loop (if length (held re) = tot then re\<lparr>held := []\<rparr> else re) inp 0
      | Inr None \<Rightarrow> feed_loop re inp 0)"

text \<open>\<open>feedAll\<close> with a handler that collects the packets; the error is returned with what came before it.\<close>

partial_function (option) feedAll ::
  "reassembler \<Rightarrow> bytes \<Rightarrow> (reassembler \<times> bytes list \<times> H4_error option) option" where
  "feedAll re inp =
     (if inp = [] then Some (re, [], None)
      else case feed re inp of
          None \<Rightarrow> None
        | Some (re', Inl e) \<Rightarrow> Some (re', [], Some e)
        | Some (re', Inr (consumed, pkt)) \<Rightarrow>
            Option.bind (feedAll re' (drop consumed inp)) (\<lambda>(re'', ps, err).
              Some (re'', (case pkt of None \<Rightarrow> ps | Some p \<Rightarrow> p # ps), err)))"

declare feed_loop.simps [code] feedAll.simps [code]

section \<open>Specification\<close>

text \<open>The packets of a stream, read byte by byte, and the rest of it or the error that ends it.\<close>

fun scan :: "nat \<Rightarrow> bytes \<Rightarrow> bytes \<Rightarrow> bytes list \<times> (H4_error + bytes)" where
  "scan n h [] = ([], Inr h)"
| "scan n h (b # bs) =
     (case totalLen \<lparr>cap = n, held = h @ [b]\<rparr> of
        Inl e \<Rightarrow> ([], Inl e)
      | Inr total_opt \<Rightarrow>
          if total_opt = Some (length (h @ [b]))
          then (case scan n [] bs of (ps, r) \<Rightarrow> ((h @ [b]) # ps, r))
          else scan n (h @ [b]) bs)"

text \<open>A whole packet that fits the storage: type, header, and as many bytes as the header announces.\<close>

fun is_packet :: "nat \<Rightarrow> bytes \<Rightarrow> bool" where
  "is_packet n [] = False"
| "is_packet n (b # p) =
     (case fromByte b of
        None \<Rightarrow> False
      | Some t \<Rightarrow>
          headerLen t \<le> length p \<and> length p = headerLen t + payloadLen t (take (headerLen t) p) \<and> 1 + length p \<le> n)"

text \<open>A connection delivers its bytes in pieces, one \<open>feedAll\<close> each, until an error ends it.\<close>

fun feed_chunks :: "reassembler \<Rightarrow> bytes list \<Rightarrow> (reassembler \<times> bytes list \<times> H4_error option) option" where
  "feed_chunks re [] = Some (re, [], None)"
| "feed_chunks re (c # cs) =
     (case feedAll re c of
        None \<Rightarrow> None
      | Some (re', ps, Some e) \<Rightarrow> Some (re', ps, Some e)
      | Some (re', ps, None) \<Rightarrow> map_option (\<lambda>(re'', qs, err). (re'', ps @ qs, err)) (feed_chunks re' cs))"

lemma is_packet_totalLen: "is_packet n p \<longleftrightarrow> p \<noteq> [] \<and> totalLen \<lparr>cap = n, held = p\<rparr> = Inr (Some (length p))"
  by (cases p) (auto simp: totalLen_def Let_def split: option.splits)

section \<open>Prefixes of a packet\<close>

text \<open>A state in which bytes of an unfinished packet, or none, are held.\<close>

definition open_at :: "nat \<Rightarrow> bytes \<Rightarrow> bool" where
  "open_at n h \<longleftrightarrow>
     (case totalLen \<lparr>cap = n, held = h\<rparr> of
        Inl e \<Rightarrow> False
      | Inr None \<Rightarrow> True
      | Inr (Some tot) \<Rightarrow> length h < tot)"

lemma open_Nil [simp]: "open_at n []"
  by (simp add: open_at_def totalLen_def)

lemma headerLen_pos: "2 \<le> headerLen t" "headerLen t \<le> 4"
  by (cases t; simp)+

text \<open>Once the header is complete, more bytes do not change the length it announces.\<close>

lemma totalLen_append:
  assumes "totalLen \<lparr>cap = n, held = h\<rparr> = Inr (Some tot)"
  shows "totalLen \<lparr>cap = n, held = h @ x\<rparr> = Inr (Some tot)"
  using assms by (auto simp: totalLen_def Let_def nth_append split: if_splits option.splits)

text \<open>The number of bytes asked for never goes past the next decision.\<close>

lemma open_next:
  assumes "open_at n h"
  obtains w tot_opt where "totalLen \<lparr>cap = n, held = h\<rparr> = Inr tot_opt"
    and "h4_want \<lparr>cap = n, held = h\<rparr> tot_opt = Inr w" and "0 < w"
    and "\<forall>tot. tot_opt = Some tot \<longrightarrow> length h < tot"
    and "\<forall>x. x \<noteq> [] \<longrightarrow> length x < w \<longrightarrow> h \<noteq> [] \<longrightarrow> totalLen \<lparr>cap = n, held = h @ x\<rparr> = Inr tot_opt"
    and "h = [] \<longrightarrow> w = 1"
    and "\<forall>x tot. length x \<le> w \<longrightarrow> totalLen \<lparr>cap = n, held = h @ x\<rparr> = Inr (Some tot) \<longrightarrow> length (h @ x) \<le> tot"
proof (cases "totalLen \<lparr>cap = n, held = h\<rparr>")
  case (Inl e)
  with assms show thesis by (simp add: open_at_def)
next
  case (Inr tot_opt)
  show thesis
  proof (cases tot_opt)
    case (Some tot)
    with assms Inr have "length h < tot" by (simp add: open_at_def)
    moreover have "h \<noteq> []" using Inr Some by (auto simp: totalLen_def)
    ultimately show thesis
      using Inr Some totalLen_append [of n h tot]
      by (intro that [of tot_opt "tot - length h"]) (auto simp: h4_want_def)
  next
    case None
    show thesis
    proof (cases "h = []")
      case True
      have "length x \<le> tot" if "length x \<le> 1" "totalLen \<lparr>cap = n, held = x\<rparr> = Inr (Some tot)" for x tot
        using that by (auto simp: totalLen_def Let_def split: if_splits option.splits)
      with True Inr None show thesis by (intro that [of tot_opt 1]) (auto simp: h4_want_def)
    next
      case False
      with Inr None obtain t where t: "fromByte (h ! 0) = Some t" "length h < 1 + headerLen t"
        by (auto simp: totalLen_def Let_def split: if_splits option.splits)
      with False have "totalLen \<lparr>cap = n, held = h @ x\<rparr> = Inr None" if "length x < 1 + headerLen t - length h" for x
        using that by (simp add: totalLen_def nth_append Let_def)
      moreover have "length (h @ x) \<le> tot"
        if "length x \<le> 1 + headerLen t - length h" "totalLen \<lparr>cap = n, held = h @ x\<rparr> = Inr (Some tot)" for x tot
        using that t False by (auto simp: totalLen_def nth_append Let_def split: if_splits)
      ultimately show thesis
        using False t Inr None by (intro that [of tot_opt "1 + headerLen t - length h"]) (auto simp: h4_want_def)
    qed
  qed
qed

text \<open>Bytes that lead to no decision are passed over by the specification.\<close>

lemma scan_skip:
  assumes "\<And>k. 0 < k \<Longrightarrow> k \<le> length x \<Longrightarrow> open_at n (h @ take k x)"
  shows "scan n h (x @ y) = scan n (h @ x) y"
  using assms
proof (induction x arbitrary: h)
  case (Cons b x)
  have "open_at n (h @ [b])" using Cons.prems [of 1] by simp
  then have "scan n h ((b # x) @ y) = scan n (h @ [b]) (x @ y)"
    by (auto simp: open_at_def split: sum.splits option.splits)
  also have "\<dots> = scan n ((h @ [b]) @ x) y"
  proof (rule Cons.IH)
    fix k
    assume "0 < k" "k \<le> length x"
    with Cons.prems [of "Suc k"] show "open_at n ((h @ [b]) @ take k x)" by simp
  qed
  finally show ?case by simp
qed simp

section \<open>The reassembler does what the specification says\<close>

lemma open_between:
  assumes "open_at n h" and "totalLen \<lparr>cap = n, held = h\<rparr> = Inr tot_opt"
    and "h4_want \<lparr>cap = n, held = h\<rparr> tot_opt = Inr w" and "0 < k" and "k < w" and "k \<le> length x"
  shows "open_at n (h @ take k x)"
proof -
  obtain w' tot_opt' where o: "totalLen \<lparr>cap = n, held = h\<rparr> = Inr tot_opt'"
    "h4_want \<lparr>cap = n, held = h\<rparr> tot_opt' = Inr w'"
    "\<forall>x. x \<noteq> [] \<longrightarrow> length x < w' \<longrightarrow> h \<noteq> [] \<longrightarrow> totalLen \<lparr>cap = n, held = h @ x\<rparr> = Inr tot_opt'"
    "h = [] \<longrightarrow> w' = 1"
    using assms(1) by (rule open_next) (rule that)
  with assms have w: "w' = w" "tot_opt' = tot_opt" by simp_all
  with o(4) assms(4,5) have "h \<noteq> []" by auto
  with o(3) [rule_format, of "take k x"] w assms(4-6) have "totalLen \<lparr>cap = n, held = h @ take k x\<rparr> = Inr tot_opt" by force
  with assms(3,5,6) show ?thesis by (auto simp: open_at_def h4_want_def split: option.splits)
qed

text \<open>How the loop ends, next to what the specification says of the same bytes.\<close>

definition feed_ok :: "nat \<Rightarrow> bytes \<Rightarrow> bytes \<Rightarrow> nat \<Rightarrow> reassembler \<Rightarrow> H4_error + nat \<times> bytes option \<Rightarrow> bool" where
  "feed_ok n h rest c re' r \<longleftrightarrow> cap re' = n \<and>
     (case r of
        Inl e \<Rightarrow> scan n h rest = ([], Inl e)
      | Inr (k, None) \<Rightarrow> k = c + length rest \<and> held re' = h @ rest \<and> open_at n (h @ rest) \<and>
          scan n h rest = ([], Inr (h @ rest))
      | Inr (k, Some p) \<Rightarrow>
          (\<exists>j. k = c + j \<and> 0 < j \<and> j \<le> length rest \<and> p = h @ take j rest \<and> held re' = p \<and> is_packet n p \<and>
             scan n h rest = (p # fst (scan n [] (drop j rest)), snd (scan n [] (drop j rest)))))"

lemma feed_loop_step:
  assumes "rest \<noteq> []" and "totalLen re = Inr tot_opt" and "h4_want re tot_opt = Inr w"
    and "\<And>tot. tot_opt = Some tot \<Longrightarrow> length (held re) < tot"
  shows "feed_loop re rest c =
    (let m = min w (length rest); re' = re\<lparr>held := held re @ take m rest\<rparr> in
     case totalLen re' of
       Inl e \<Rightarrow> Some (re', Inl e)
     | Inr (Some tot) \<Rightarrow>
         if length (held re') = tot then Some (re', Inr (c + m, Some (take tot (held re'))))
         else feed_loop re' (drop m rest) (c + m)
     | Inr None \<Rightarrow> feed_loop re' (drop m rest) (c + m))"
proof -
  have "\<not> (case tot_opt of Some tot \<Rightarrow> tot < length (held re) | None \<Rightarrow> False)"
    using assms(4) by (cases tot_opt) fastforce+
  then show ?thesis
    by (subst feed_loop.simps) (simp only: assms(1-3) if_False sum.case)
qed

lemma feed_ok_shift:
  assumes "feed_ok n (h @ take m rest) (drop m rest) (c + m) re' r" and "m \<le> length rest"
    and "scan n h rest = scan n (h @ take m rest) (drop m rest)"
  shows "feed_ok n h rest c re' r"
proof (cases r)
  case (Inr kp)
  show ?thesis
  proof (cases "snd kp")
    case None
    then show ?thesis using assms Inr by (cases kp) (auto simp: feed_ok_def)
  next
    case (Some p)
    with assms(1) Inr obtain j where "fst kp = c + m + j" "0 < j" "j \<le> length (drop m rest)"
      "p = (h @ take m rest) @ take j (drop m rest)" "held re' = p" "is_packet n p" "cap re' = n"
      "scan n (h @ take m rest) (drop m rest) =
        (p # fst (scan n [] (drop j (drop m rest))), snd (scan n [] (drop j (drop m rest))))"
      by (cases kp) (auto simp: feed_ok_def)
    moreover from this have "p = h @ take (m + j) rest" by (simp add: take_add)
    ultimately show ?thesis using assms(2,3) Inr Some
      by (cases kp) (auto simp: feed_ok_def add_ac intro!: exI [of _ "m + j"])
  qed
qed (use assms in \<open>simp add: feed_ok_def\<close>)

lemma take_last:
  assumes "0 < m" and "m \<le> length xs"
  shows "\<exists>b. take m xs = take (m - 1) xs @ [b]"
proof -
  have "take (Suc (m - 1)) xs = take (m - 1) xs @ [xs ! (m - 1)]"
    using assms by (intro take_Suc_conv_app_nth) simp
  with assms(1) show ?thesis by auto
qed

lemma feed_loop_scan:
  "open_at n h \<Longrightarrow> \<exists>re' r. feed_loop \<lparr>cap = n, held = h\<rparr> rest c = Some (re', r) \<and> feed_ok n h rest c re' r"
proof (induction "length rest" arbitrary: h rest c rule: less_induct)
  case less
  show ?case
  proof (cases "rest = []")
    case True
    with less.prems show ?thesis by (simp add: feed_loop.simps feed_ok_def)
  next
    case False
    obtain w tot_opt where o: "totalLen \<lparr>cap = n, held = h\<rparr> = Inr tot_opt"
      "h4_want \<lparr>cap = n, held = h\<rparr> tot_opt = Inr w" "0 < w" "\<forall>tot. tot_opt = Some tot \<longrightarrow> length h < tot"
      "\<forall>x tot. length x \<le> w \<longrightarrow> totalLen \<lparr>cap = n, held = h @ x\<rparr> = Inr (Some tot) \<longrightarrow> length (h @ x) \<le> tot"
      using less.prems by (rule open_next) (rule that)
    let ?m = "min w (length rest)"
    let ?x = "take ?m rest" and ?y = "drop ?m rest"
    have m: "0 < ?m" "?m \<le> length rest" "?m \<le> w" using o(3) False by auto
    obtain b where xb: "?x = take (?m - 1) rest @ [b]"
      using take_last [OF m(1,2)] by blast
    have "scan n h (take (?m - 1) rest @ b # ?y) = scan n (h @ take (?m - 1) rest) (b # ?y)"
      using open_between [OF less.prems o(1,2)] m by (intro scan_skip) auto
    moreover have "take (?m - 1) rest @ b # ?y = rest" 
      using xb append_take_drop_id [of ?m rest] by simp
    ultimately have sc: "scan n h rest = scan n (h @ take (?m - 1) rest) (b # ?y)" by simp
    let ?r = "\<lparr>cap = n, held = h @ ?x\<rparr>"
    have loop: "feed_loop \<lparr>cap = n, held = h\<rparr> rest c =
        (case totalLen ?r of
           Inl e \<Rightarrow> Some (?r, Inl e)
         | Inr (Some tot) \<Rightarrow>
             if length (h @ ?x) = tot then Some (?r, Inr (c + ?m, Some (take tot (h @ ?x))))
             else feed_loop ?r ?y (c + ?m)
         | Inr None \<Rightarrow> feed_loop ?r ?y (c + ?m))"
      using feed_loop_step [OF False o(1,2), of c] o(4) by (simp add: Let_def cong: sum.case_cong option.case_cong if_cong)
    have sc': "scan n h rest =
        (case totalLen ?r of
           Inl e \<Rightarrow> ([], Inl e)
         | Inr total_opt \<Rightarrow>
             if total_opt = Some (length (h @ ?x))
             then (case scan n [] ?y of (ps, r) \<Rightarrow> ((h @ ?x) # ps, r))
             else scan n (h @ ?x) ?y)"
      unfolding sc xb by (simp only: scan.simps append_assoc)
    show ?thesis
    proof (cases "totalLen ?r")
      case (Inl e)
      with loop sc' show ?thesis by (simp add: feed_ok_def)
    next
      case (Inr tot')
      show ?thesis
      proof (cases "tot' = Some (length (h @ ?x))")
        case True
        have "is_packet n (h @ ?x)" using Inr True m by (auto simp: is_packet_totalLen)
        moreover have ends: "feed_loop \<lparr>cap = n, held = h\<rparr> rest c = Some (?r, Inr (c + ?m, Some (h @ ?x)))"
          using loop Inr True by simp
        moreover have "scan n h rest = ((h @ ?x) # fst (scan n [] ?y), snd (scan n [] ?y))"
          using sc' Inr True by (simp add: split_beta)
        ultimately have "feed_ok n h rest c ?r (Inr (c + ?m, Some (h @ ?x)))"
          unfolding feed_ok_def using m by (auto intro!: exI [of _ ?m])
        with ends show ?thesis by blast
      next
        case False
        have "feed_loop \<lparr>cap = n, held = h\<rparr> rest c = feed_loop ?r ?y (c + ?m)"
          using loop Inr False by (auto split: option.splits)
        moreover have "scan n h rest = scan n (h @ ?x) ?y" using sc' Inr False by simp
        moreover have "open_at n (h @ ?x)"
          using Inr False o(5) [rule_format, of ?x] by (auto simp: open_at_def nat_less_le split: option.splits)
        moreover have "length ?y < length rest" using m by simp
        ultimately show ?thesis using less.hyps [of ?y "h @ ?x" "c + ?m"] feed_ok_shift m(2) by metis
      qed
    qed
  qed
qed


text \<open>Between two calls the storage holds an unfinished packet, or the one returned last.\<close>

definition h4_between :: "nat \<Rightarrow> bytes \<Rightarrow> bool" where
  "h4_between n h \<longleftrightarrow> open_at n h \<or> is_packet n h"

text \<open>What of the storage still matters: nothing, when it holds a packet returned before.\<close>

definition pending_of :: "nat \<Rightarrow> bytes \<Rightarrow> bytes" where
  "pending_of n h = (if is_packet n h then [] else h)"

lemma open_pending: "h4_between n h \<Longrightarrow> open_at n (pending_of n h)"
  by (auto simp: h4_between_def pending_of_def)

lemma open_not_packet: "open_at n h \<Longrightarrow> \<not> is_packet n h"
  by (auto simp: open_at_def is_packet_totalLen)

lemma feed_is_loop:
  assumes "h4_between n h"
  shows "feed \<lparr>cap = n, held = h\<rparr> inp = feed_loop \<lparr>cap = n, held = pending_of n h\<rparr> inp 0"
  using assms
  by (cases "h = []")
    (auto simp: h4_between_def pending_of_def is_packet_totalLen open_at_def feed_def totalLen_def [of "\<lparr>cap = n, held = []\<rparr>"]
      split: sum.splits option.splits)

lemma feed_scan:
  assumes "h4_between n h"
  obtains re' r where "feed \<lparr>cap = n, held = h\<rparr> inp = Some (re', r)" and "feed_ok n (pending_of n h) inp 0 re' r"
  using feed_loop_scan [OF open_pending [OF assms], of inp 0] feed_is_loop [OF assms] that by metis

text \<open>How \<open>feedAll\<close> ends: with the packets of the specification, and its rest in the storage.\<close>

definition feedAll_ok :: "nat \<Rightarrow> bytes \<Rightarrow> bytes \<Rightarrow> reassembler \<Rightarrow> bytes list \<Rightarrow> H4_error option \<Rightarrow> bool" where
  "feedAll_ok n h inp re' ps err \<longleftrightarrow> cap re' = n \<and> ps = fst (scan n h inp) \<and>
     (case err of
        Some e \<Rightarrow> snd (scan n h inp) = Inl e
      | None \<Rightarrow> h4_between n (held re') \<and> snd (scan n h inp) = Inr (pending_of n (held re')))"

lemma feedAll_scan:
  "h4_between n h \<Longrightarrow>
   \<exists>re' ps err. feedAll \<lparr>cap = n, held = h\<rparr> inp = Some (re', ps, err) \<and> feedAll_ok n (pending_of n h) inp re' ps err"
proof (induction "length inp" arbitrary: h inp rule: less_induct)
  case less
  show ?case
  proof (cases "inp = []")
    case True
    with less.prems show ?thesis by (simp add: feedAll.simps feedAll_ok_def)
  next
    case False
    obtain re' r where f: "feed \<lparr>cap = n, held = h\<rparr> inp = Some (re', r)" and ok: "feed_ok n (pending_of n h) inp 0 re' r"
      using less.prems by (rule feed_scan)
    obtain h' where re': "re' = \<lparr>cap = n, held = h'\<rparr>" using ok by (cases re') (simp add: feed_ok_def)
    show ?thesis
    proof (cases r)
      case (Inl e)
      with f ok False show ?thesis
        by (simp add: feedAll.simps [of "\<lparr>cap = n, held = h\<rparr>"] feed_ok_def feedAll_ok_def)
    next
      case (Inr kp)
      obtain k pkt where kp: "kp = (k, pkt)" by fastforce
      let ?y = "drop k inp"
      have fa: "feedAll \<lparr>cap = n, held = h\<rparr> inp =
          Option.bind (feedAll \<lparr>cap = n, held = h'\<rparr> ?y) (\<lambda>(re'', ps, err).
            Some (re'', (case pkt of None \<Rightarrow> ps | Some p \<Rightarrow> p # ps), err))"
        using False f Inr kp re' by (simp add: feedAll.simps [of "\<lparr>cap = n, held = h\<rparr>"])
      have b: "h4_between n h'" "0 < k" "fst (scan n (pending_of n h) inp) =
          (case pkt of None \<Rightarrow> fst (scan n (pending_of n h') ?y) | Some p \<Rightarrow> p # fst (scan n (pending_of n h') ?y))"
        "snd (scan n (pending_of n h) inp) = snd (scan n (pending_of n h') ?y)"
        using ok Inr kp re' False open_not_packet [of n h']
        by (auto simp: feed_ok_def h4_between_def pending_of_def split: option.splits)
      from b(2) False have "length ?y < length inp" by simp
      from less.hyps [OF this b(1)] obtain re'' ps err where "feedAll \<lparr>cap = n, held = h'\<rparr> ?y = Some (re'', ps, err)"
        "feedAll_ok n (pending_of n h') ?y re'' ps err" by blast
      with fa b(3,4) show ?thesis by (cases pkt) (auto simp: feedAll_ok_def split: option.splits)
    qed
  qed
qed


section \<open>Streams cut into pieces\<close>

lemma scan_append:
  "scan n h (x @ y) =
     (case scan n h x of
        (ps, Inl e) \<Rightarrow> (ps, Inl e)
      | (ps, Inr h') \<Rightarrow> (ps @ fst (scan n h' y), snd (scan n h' y)))"
  by (induction n h x rule: scan.induct) (auto split: sum.splits prod.splits)

lemma feed_chunks_scan:
  "h4_between n h \<Longrightarrow>
   \<exists>re' err. feed_chunks \<lparr>cap = n, held = h\<rparr> cs = Some (re', fst (scan n (pending_of n h) (concat cs)), err) \<and>
     (case snd (scan n (pending_of n h) (concat cs)) of Inl e \<Rightarrow> err = Some e | Inr h' \<Rightarrow> err = None)"
proof (induction cs arbitrary: h)
  case Nil
  then show ?case by simp
next
  case (Cons c cs)
  from feedAll_scan [OF Cons.prems, of c] obtain re' ps err where
    fa: "feedAll \<lparr>cap = n, held = h\<rparr> c = Some (re', ps, err)" and ok: "feedAll_ok n (pending_of n h) c re' ps err"
    by blast
  obtain h' where re': "re' = \<lparr>cap = n, held = h'\<rparr>" using ok by (cases re') (simp add: feedAll_ok_def)
  show ?case
  proof (cases err)
    case (Some e)
    with fa ok show ?thesis by (cases "scan n (pending_of n h) c") (simp add: feedAll_ok_def scan_append)
  next
    case None
    with ok re' have "h4_between n h'" "scan n (pending_of n h) c = (ps, Inr (pending_of n h'))"
      by (simp_all add: feedAll_ok_def prod_eq_iff)
    with Cons.IH [of h'] fa re' None show ?thesis by (auto simp: scan_append)
  qed
qed

text \<open>The specification finds the packets a stream was made of.\<close>

lemma packet_prefix_open:
  assumes "is_packet n p" and "k < length p"
  shows "open_at n (take k p)"
proof -
  obtain b q where bq: "p = b # q" using assms(1) by (cases p) simp_all
  obtain t where t: "fromByte b = Some t" using assms(1) bq by (cases "fromByte b") simp_all
  have "headerLen t \<le> length q \<and> length q = headerLen t + payloadLen t (take (headerLen t) q) \<and> 1 + length q \<le> n"
    using assms(1) unfolding bq is_packet.simps t option.case .
  then have len: "headerLen t \<le> length q" "length q = headerLen t + payloadLen t (take (headerLen t) q)" "1 + length q \<le> n"
    by blast+
  show ?thesis
  proof (cases k)
    case (Suc j)
    show ?thesis
    proof (cases "headerLen t \<le> j")
      case True
      then have "take (headerLen t) (take j q) = take (headerLen t) q" by (simp add: min_absorb1)
      moreover have "j < length q" using assms(2) Suc bq by simp
      ultimately show ?thesis using True Suc bq t len by (simp add: open_at_def totalLen_def Let_def)
    next
      case False
      with Suc bq t show ?thesis by (simp add: open_at_def totalLen_def Let_def min_less_iff_disj)
    qed
  qed simp
qed

lemma scan_packet:
  assumes "is_packet n p"
  shows "scan n [] (p @ y) = (p # fst (scan n [] y), snd (scan n [] y))"
proof -
  obtain q b where p: "p = q @ [b]" using assms by (cases p rule: rev_cases) simp_all
  have "scan n [] (q @ b # y) = scan n ([] @ q) (b # y)"
  proof (rule scan_skip)
    fix k
    assume "k \<le> length q"
    with packet_prefix_open [OF assms, of k] show "open_at n ([] @ take k q)" by (simp add: p)
  qed
  with assms show ?thesis by (simp add: is_packet_totalLen p split_beta)
qed

lemma scan_completes:
  assumes "is_packet n (h @ x)" and "x \<noteq> []"
  shows "scan n h x = ([h @ x], Inr [])"
proof -
  have "scan n [] (h @ x) = scan n ([] @ h) x"
  proof (rule scan_skip)
    fix k
    assume "k \<le> length h"
    with assms(2) have "k < length (h @ x)" by (cases x) simp_all
    from packet_prefix_open [OF assms(1) this] \<open>k \<le> length h\<close> show "open_at n ([] @ take k h)" by simp
  qed
  with scan_packet [OF assms(1), of "[]"] show ?thesis by simp
qed

lemma scan_packets: "\<forall>p \<in> set ps. is_packet n p \<Longrightarrow> scan n [] (concat ps) = (ps, Inr [])"
  by (induction ps) (simp_all add: scan_packet)


lemma h4_init_run: "h4_init n = Some re \<Longrightarrow> re = \<lparr>cap = n, held = []\<rparr> \<and> 5 \<le> n"
  by (simp add: h4_init_def split: if_splits)

lemma pending_Nil [simp]: "pending_of n [] = []" "h4_between n []"
  by (simp_all add: pending_of_def h4_between_def)

text \<open>
  C17. The reassembler finds the packets of the stream, however the network cut it: fed piece by piece, it
  always ends, and returns exactly the packets that a reader of the whole stream sees one byte at a time,
  with the same error when the stream has one.
\<close>

theorem reassembly_ignores_chunks:
  assumes "h4_init n = Some re"
  shows "\<exists>re' err. feed_chunks re cs = Some (re', fst (scan n [] (concat cs)), err) \<and>
    (case snd (scan n [] (concat cs)) of Inl e \<Rightarrow> err = Some e | Inr h \<Rightarrow> err = None)"
  using feed_chunks_scan [of n "[]" cs] h4_init_run [OF assms] by simp

theorem reassembly_ignores_chunks_witness:
  "\<exists>re' err. feed_chunks \<lparr>cap = 64, held = []\<rparr> [[1, 3], [12], [0, 4, 0x10], [0, 9]] =
      Some (re', [[1, 3, 12, 0], [4, 0x10, 0]], err) \<and> err = Some UnknownPacketType"
proof -
  have "h4_init 64 = Some \<lparr>cap = 64, held = []\<rparr>" by (simp add: h4_init_def)
  from reassembly_ignores_chunks [OF this, of "[[1, 3], [12], [0, 4, 0x10], [0, 9]]"]
  show ?thesis by (simp add: totalLen_def fromByte_def)
qed

text \<open>
  C18. Packets survive the transport: whole packets of any type that fit the storage, sent one after the other
  and cut anywhere, come out as they went in, in order, with no error, for any payload.
\<close>

theorem packets_reassembled:
  assumes "h4_init n = Some re" and "\<forall>p \<in> set ps. is_packet n p" and "concat cs = concat ps"
  shows "\<exists>re'. feed_chunks re cs = Some (re', ps, None)"
  using feed_chunks_scan [of n "[]" cs] h4_init_run [OF assms(1)] scan_packets [OF assms(2)] assms(3) by auto

theorem packets_reassembled_witness:
  "\<exists>re'. feed_chunks \<lparr>cap = 64, held = []\<rparr> [[2, 0x40, 0x20], [1], [0, 0xaa, 1, 3, 12], [0]] =
    Some (re', [[2, 0x40, 0x20, 1, 0, 0xaa], [1, 3, 12, 0]], None)"
proof -
  have "h4_init 64 = Some \<lparr>cap = 64, held = []\<rparr>" by (simp add: h4_init_def)
  then show ?thesis
    by (rule packets_reassembled) (simp_all add: fromByte_def readInt_u16_def)
qed

section \<open>The storage suffices\<close>

definition fits :: "reassembler \<Rightarrow> bool" where
  "fits re \<longleftrightarrow> 5 \<le> cap re \<and> length (held re) \<le> cap re"

lemma totalLen_le: "totalLen re = Inr (Some tot) \<Longrightarrow> tot \<le> cap re"
  by (auto simp: totalLen_def Let_def split: if_splits option.splits)

text \<open>Every copy ends inside the storage.\<close>

lemma fits_want:
  assumes "fits re" and "totalLen re = Inr tot_opt" and "h4_want re tot_opt = Inr w"
    and "\<not> (case tot_opt of Some tot \<Rightarrow> tot < length (held re) | None \<Rightarrow> False)"
  shows "length (held re) + w \<le> cap re"
proof (cases tot_opt)
  case (Some tot)
  with assms totalLen_le [of re tot] show ?thesis by (simp add: h4_want_def)
next
  case None
  have "1 + headerLen t \<le> cap re" for t using assms(1) headerLen_pos [of t] by (simp add: fits_def)
  with assms None show ?thesis
    by (force simp: fits_def h4_want_def totalLen_def Let_def split: option.splits if_splits)
qed

lemma fits_append:
  "fits re \<Longrightarrow> length (held re) + w \<le> cap re \<Longrightarrow> m \<le> w \<Longrightarrow> fits (re\<lparr>held := held re @ take m rest\<rparr>)"
  by (simp add: fits_def)

lemma want_defined: "totalLen re = Inr tot_opt \<Longrightarrow> \<exists>w. h4_want re tot_opt = Inr w"
  by (auto simp: h4_want_def totalLen_def Let_def split: option.splits if_splits)

text \<open>What holds of every way \<open>feed\<close> can end: the storage is not overrun, and an error is there to stay.\<close>

definition feed_safe :: "reassembler \<Rightarrow> reassembler \<times> (H4_error + nat \<times> bytes option) \<Rightarrow> bool" where
  "feed_safe re x \<longleftrightarrow>
     fits (fst x) \<and> cap (fst x) = cap re \<and> (\<forall>e. snd x = Inl e \<longrightarrow> totalLen (fst x) = Inl e)"

lemma feed_loop_safe:
  assumes "feed_loop re rest c = Some x" and "fits re"
  shows "feed_safe re x"
proof -
  have "fits re \<longrightarrow> feed_safe re x"
  proof (rule feed_loop.raw_induct [where P = "\<lambda>re rest c x. fits re \<longrightarrow> feed_safe re x", OF _ assms(1)], rule impI,
      goal_cases)
    case (1 f re rest c x)
    note IH = 1(1) and eq = 1(2) and fit = 1(3)
    show ?case
    proof (cases "rest = [] \<or> (\<exists>e. totalLen re = Inl e)")
      case True
      with eq fit show ?thesis by (auto simp: feed_safe_def split: if_splits)
    next
      case False
      then obtain tot_opt where tot: "totalLen re = Inr tot_opt" by (cases "totalLen re") auto
      from want_defined [OF this] obtain w where w: "h4_want re tot_opt = Inr w" by blast
      have ok: "\<not> (case tot_opt of Some tot \<Rightarrow> tot < length (held re) | None \<Rightarrow> False)"
        using eq False tot w by (simp split: if_splits)
      let ?m = "min w (length rest)"
      let ?re = "re\<lparr>held := held re @ take ?m rest\<rparr>"
      have fit': "fits ?re" by (rule fits_append [OF fit fits_want [OF fit tot w ok]]) simp
      have "rest \<noteq> []" using False by simp
      have eq': "(case totalLen ?re of
            Inl e \<Rightarrow> Some (?re, Inl e)
          | Inr (Some tot) \<Rightarrow>
              if length (held ?re) = tot then Some (?re, Inr (c + ?m, Some (take tot (held ?re))))
              else f ?re (drop ?m rest) (c + ?m)
          | Inr None \<Rightarrow> f ?re (drop ?m rest) (c + ?m)) = Some x"
        using eq unfolding tot sum.case w if_not_P [OF ok] if_not_P [OF \<open>rest \<noteq> []\<close>] Let_def .
      consider (err) e where "totalLen ?re = Inl e" "x = (?re, Inl e)"
        | (pkt) k p where "x = (?re, Inr (k, Some p))"
        | (more) "f ?re (drop ?m rest) (c + ?m) = Some x"
        using eq'
      proof (cases "totalLen ?re")
        case (Inr tot')
        with eq' pkt more show ?thesis by (cases tot') (auto split: if_splits)
      qed simp
      then show ?thesis
      proof cases
        case more
        from IH [OF this] fit' show ?thesis by (simp add: feed_safe_def)
      qed (use fit' in \<open>simp_all add: feed_safe_def\<close>)
    qed
  qed
  with assms(2) show ?thesis by simp
qed

text \<open>The states of a reassembler: filling up, holding the packet returned last, or stuck with an error.\<close>

definition h4_ok :: "reassembler \<Rightarrow> bool" where
  "h4_ok re \<longleftrightarrow> fits re \<and>
     (case totalLen re of Inr (Some tot) \<Rightarrow> length (held re) \<le> tot | _ \<Rightarrow> True)"

lemma h4_ok_cases:
  assumes "h4_ok re"
  shows "(\<exists>e. totalLen re = Inl e) \<or> h4_between (cap re) (held re)"
  using assms
  by (cases re) (auto simp: h4_ok_def h4_between_def open_at_def is_packet_totalLen totalLen_def [of "\<lparr>cap = _, held = []\<rparr>"]
    split: sum.splits option.splits)

lemma between_ok:
  assumes "h4_between (cap re) (held re)" and "fits re"
  shows "h4_ok re"
  using assms
  by (cases re) (auto simp: h4_ok_def h4_between_def open_at_def is_packet_totalLen split: sum.splits option.splits)

lemma re_eta: "\<lparr>cap = cap re, held = held re\<rparr> = re"
  by (cases re) simp

lemma feed_safe_run:
  assumes "feed re inp = Some x" and "fits re"
  shows "feed_safe re x"
  using assms feed_loop_safe [of re inp 0 x] feed_loop_safe [of "re\<lparr>held := []\<rparr>" inp 0 x]
  by (auto simp: feed_def feed_safe_def fits_def split: sum.splits option.splits if_splits)

text \<open>
  C19. The reassembler never leaves its storage: from every state it can be in, \<open>feed\<close> ends, has copied
  nothing past the end of the storage, consumes everything or stops behind a whole packet, which it returns,
  and leaves a state of the same kind. An error repeats on every further call, until \<open>reset\<close>, which makes the
  reassembler as good as new.
\<close>

theorem reassembler_within_storage:
  assumes "h4_ok re"
  shows "h4_ok (h4_reset re) \<and> h4_init (cap re) = Some (h4_reset re) \<and>
    (\<exists>re' r. feed re inp = Some (re', r) \<and> h4_ok re' \<and> cap re' = cap re \<and>
      (case r of
         Inl e \<Rightarrow> \<forall>more. feed re' more = Some (re', Inl e)
       | Inr (k, None) \<Rightarrow> k = length inp
       | Inr (k, Some p) \<Rightarrow> 0 < k \<and> k \<le> length inp \<and> held re' = p \<and> is_packet (cap re) p))"
proof (intro conjI)
  have fit: "fits re" using assms by (simp add: h4_ok_def)
  then show "h4_ok (h4_reset re)" "h4_init (cap re) = Some (h4_reset re)"
    by (simp_all add: h4_ok_def h4_reset_def fits_def totalLen_def h4_init_def)
  from h4_ok_cases [OF assms] show "\<exists>re' r. feed re inp = Some (re', r) \<and> h4_ok re' \<and> cap re' = cap re \<and>
      (case r of
         Inl e \<Rightarrow> \<forall>more. feed re' more = Some (re', Inl e)
       | Inr (k, None) \<Rightarrow> k = length inp
       | Inr (k, Some p) \<Rightarrow> 0 < k \<and> k \<le> length inp \<and> held re' = p \<and> is_packet (cap re) p)"
  proof
    assume "\<exists>e. totalLen re = Inl e"
    with assms show ?thesis by (auto simp: feed_def)
  next
    assume "h4_between (cap re) (held re)"
    then obtain re' r where f: "feed re inp = Some (re', r)"
      and ok: "feed_ok (cap re) (pending_of (cap re) (held re)) inp 0 re' r"
      by (rule feed_scan [where inp = inp]) (simp add: that re_eta)
    from feed_safe_run [OF f fit] have safe: "fits re'" "cap re' = cap re" "\<forall>e. r = Inl e \<longrightarrow> totalLen re' = Inl e"
      by (simp_all add: feed_safe_def)
    show ?thesis
    proof (cases r)
      case (Inl e)
      with f safe show ?thesis by (auto simp: feed_def h4_ok_def)
    next
      case (Inr kp)
      then have "h4_between (cap re') (held re')"
        using ok safe(2) by (auto simp: feed_ok_def h4_between_def split: prod.splits option.splits)
      with between_ok safe have "h4_ok re'" by simp
      with f safe ok Inr show ?thesis by (fastforce simp: feed_ok_def split: prod.splits option.splits)
    qed
  qed
qed

theorem reassembler_within_storage_witness:
  "h4_ok (h4_reset \<lparr>cap = 16, held = [2, 0x40, 0x20, 12]\<rparr>) \<and>
   (\<exists>re' r. feed \<lparr>cap = 16, held = [2, 0x40, 0x20, 12]\<rparr> [0, 1, 2] = Some (re', r) \<and> h4_ok re')"
proof -
  have "h4_ok \<lparr>cap = 16, held = [2, 0x40, 0x20, 12]\<rparr>"
    by (simp add: h4_ok_def fits_def totalLen_def fromByte_def)
  from reassembler_within_storage [OF this, of "[0, 1, 2]"] show ?thesis by blast
qed

end
