(* ===== verification/Tasks.thy ===== *)
theory Tasks
  imports Bridge H4 "HOL-Library.Sublist"
begin

text \<open>
  \<open>firmware/main/bridge.zig\<close>: the two tasks that move the bytes, as a system of concurrent steps. A step of
  a task is one access to a variable it shares with another task, or one call of \<open>glue.c\<close>, with the local work
  around it; the steps of \<open>rxTask\<close>, \<open>txTask\<close>, the controller's task and all others interleave in any
  order. \<open>glue_send\<close>, \<open>glue_auth_handshake\<close> and the queueing of one packet count as one call each.
\<close>

section \<open>Definitions\<close>

definition rx_packet_len :: nat where
  "rx_packet_len = 1 + 4 + 1021"

definition rx_chunk_len :: nat where
  "rx_chunk_len = 1024"

definition tx_chunk_len :: nat where
  "tx_chunk_len = 1024"

definition send_wait_ms :: u32 where
  "send_wait_ms = 5000"

definition stats_interval_ms :: u32 where
  "stats_interval_ms = 60000"

abbreviation upd_bridge :: "(bridge_state \<Rightarrow> bridge_state) \<Rightarrow> unit fwm" where
  "upd_bridge f \<equiv> modify (\<lambda>s. s\<lparr>bridge := f (bridge s)\<rparr>)"

subsection \<open>The task that reads from the host\<close>

text \<open>Where \<open>acceptClient\<close>, \<open>dropClient\<close> and \<open>sendToController\<close> stand, with their local variables.\<close>

datatype accept_pc =
    Acc_accept
  | Acc_auth int
  | Acc_swap int
  | Acc_shutdown int int
  | Acc_idle int int
  | Acc_pause int int
  | Acc_wait int int
  | Acc_close int int
  | Acc_failed int
  | Acc_drain int
  | Acc_store int
  | Acc_unpause

datatype drop_pc = Drop_swap | Drop_close int

datatype send_pc = Send_start | Send_try nat u32

text \<open>A round of \<open>drainStreamBuffer\<close>; the result says whether there is another one.\<close>

definition drainStreamBuffer_step :: "sdk \<Rightarrow> bool fwm" where
  "drainStreamBuffer_step E = do {
     b \<leftarrow> gets (\<lambda>s. sb (bridge s));
     (case b of
        None \<Rightarrow> ret False
      | Some b \<Rightarrow> do { d \<leftarrow> glue_sb_recv E b tx_chunk_len 0; ret (0 < length d) })
   }"

text \<open>The result of a step is \<open>None\<close> when the function returns.\<close>

definition acceptClient_step :: "sdk \<Rightarrow> reassembler \<Rightarrow> accept_pc \<Rightarrow> (reassembler \<times> accept_pc option) fwm" where
  "acceptClient_step E re pc =
     (case pc of
        Acc_accept \<Rightarrow> do {
          lfd \<leftarrow> gets (\<lambda>s. listen_fd (bridge s));
          new_fd \<leftarrow> glue_accept E lfd;
          ret (re, if new_fd < 0 then None else Some (Acc_auth new_fd))
        }
      | Acc_auth new_fd \<Rightarrow> do {
          ok \<leftarrow> glue_auth_handshake E new_fd;
          if \<not> ok then do { glue_close new_fd; ret (re, None) }
          else ret (re, Some (Acc_swap new_fd))
        }
      | Acc_swap new_fd \<Rightarrow> do {
          old \<leftarrow> gets (\<lambda>s. client_fd (bridge s));
          upd_bridge (\<lambda>b. b\<lparr>client_fd := - 1\<rparr>);
          ret (re, Some (Acc_shutdown old new_fd))
        }
      | Acc_shutdown old new_fd \<Rightarrow> do {
          (if 0 \<le> old then glue_shutdown old else ret ());
          ret (h4_reset re, Some (Acc_idle old new_fd))
        }
      | Acc_idle old new_fd \<Rightarrow> do {
          upd_bridge (\<lambda>b. b\<lparr>tx_idle := False\<rparr>);
          ret (re, Some (Acc_pause old new_fd))
        }
      | Acc_pause old new_fd \<Rightarrow> do {
          upd_bridge (\<lambda>b. b\<lparr>tx_pause := True\<rparr>);
          ret (re, Some (Acc_wait old new_fd))
        }
      | Acc_wait old new_fd \<Rightarrow> do {
          idle \<leftarrow> gets (\<lambda>s. tx_idle (bridge s));
          if idle then ret (re, Some (Acc_close old new_fd))
          else do { glue_delay_ms 1; ret (re, Some (Acc_wait old new_fd)) }
        }
      | Acc_close old new_fd \<Rightarrow> do {
          (if 0 \<le> old then glue_close old else ret ());
          ret (re, Some (Acc_failed new_fd))
        }
      | Acc_failed new_fd \<Rightarrow> do {
          upd_bridge (\<lambda>b. b\<lparr>tx_failed := False\<rparr>);
          ret (re, Some (Acc_drain new_fd))
        }
      | Acc_drain new_fd \<Rightarrow> do {
          more \<leftarrow> drainStreamBuffer_step E;
          ret (re, Some (if more then Acc_drain new_fd else Acc_store new_fd))
        }
      | Acc_store new_fd \<Rightarrow> do {
          upd_bridge (\<lambda>b. b\<lparr>client_fd := new_fd\<rparr>);
          ret (re, Some Acc_unpause)
        }
      | Acc_unpause \<Rightarrow> do {
          upd_bridge (\<lambda>b. b\<lparr>tx_pause := False\<rparr>);
          modify (upd_stats (\<lambda>st. st\<lparr>connections := connections st + 1\<rparr>));
          ret (re, None)
        })"

definition dropClient_step :: "drop_pc \<Rightarrow> drop_pc option fwm" where
  "dropClient_step pc =
     (case pc of
        Drop_swap \<Rightarrow> do {
          old \<leftarrow> gets (\<lambda>s. client_fd (bridge s));
          upd_bridge (\<lambda>b. b\<lparr>client_fd := - 1\<rparr>);
          ret (if old < 0 then None else Some (Drop_close old))
        }
      | Drop_close old \<Rightarrow> do { glue_close old; ret None })"

text \<open>A round of waiting for the controller; the clock and the deadline wrap around.\<close>

definition sendToController_step :: "sdk \<Rightarrow> bytes \<Rightarrow> send_pc \<Rightarrow> send_pc option fwm" where
  "sendToController_step E pkt pc =
     (case pc of
        Send_start \<Rightarrow> do {
          sem \<leftarrow> gets (\<lambda>s. send_sem (bridge s));
          (case sem of
             None \<Rightarrow> ret None
           | Some sem \<Rightarrow> do { now \<leftarrow> glue_millis E; ret (Some (Send_try sem (now + send_wait_ms))) })
        }
      | Send_try sem deadline \<Rightarrow> do {
          avail \<leftarrow> glue_bt_send_available E;
          if \<not> avail then do {
            _ \<leftarrow> glue_sem_take E sem 20;
            now \<leftarrow> glue_millis E;
            if now - deadline < 0x80000000 then do {
              modify (upd_stats (\<lambda>st. st\<lparr>dropped_controller_busy := dropped_controller_busy st + 1\<rparr>));
              ret None
            } else ret (Some (Send_try sem deadline))
          } else do {
            glue_bt_send pkt;
            modify (upd_stats (\<lambda>st. st\<lparr>to_controller := to_controller st + 1\<rparr>));
            ret None
          }
        })"

text \<open>The three places that call \<open>dropClient\<close>.\<close>

datatype drop_from = Drop_failed int int | Drop_closed | Drop_protocol

text \<open>
  Where \<open>rxTask\<close> stands: \<open>Rx_drop\<close> holds the place \<open>dropClient\<close> was called from, \<open>Rx_feed\<close> the bytes of
  the chunk not consumed yet, \<open>Rx_send\<close> the packet and those bytes.
\<close>

datatype rx_pc =
    Rx_start
  | Rx_poll
  | Rx_accept int int accept_pc
  | Rx_failed int int
  | Rx_drop drop_pc drop_from
  | Rx_recv int int
  | Rx_feed bytes
  | Rx_send bytes send_pc bytes
  | Rx_stats
  | Rx_panic

fun after_drop :: "drop_from \<Rightarrow> rx_pc" where
  "after_drop (Drop_failed client ready) = Rx_recv client ready"
| "after_drop Drop_closed = Rx_poll"
| "after_drop Drop_protocol = Rx_stats"

definition rxTask_step ::
  "sdk \<Rightarrow> kconfig \<Rightarrow> reassembler \<Rightarrow> u32 \<Rightarrow> rx_pc \<Rightarrow> (reassembler \<times> u32 \<times> rx_pc) fwm" where
  "rxTask_step E c re ls pc =
     (case pc of
        Rx_start \<Rightarrow> do {
          glue_wdt_add;
          lfd \<leftarrow> glue_listen E (glue_tcp_port c);
          upd_bridge (\<lambda>b. b\<lparr>listen_fd := lfd\<rparr>);
          if lfd < 0 then do { system_abort; ret (re, ls, Rx_panic) }
          else do { now \<leftarrow> glue_millis E; ret (re, now, Rx_poll) }
        }
      | Rx_poll \<Rightarrow> do {
          glue_wdt_feed;
          client \<leftarrow> gets (\<lambda>s. client_fd (bridge s));
          lfd \<leftarrow> gets (\<lambda>s. listen_fd (bridge s));
          ready \<leftarrow> glue_poll2 E lfd client 1000;
          if ready < 0 then do { glue_delay_ms 100; ret (re, ls, Rx_poll) }
          else ret (re, ls, if ready AND 1 \<noteq> 0 then Rx_accept client ready Acc_accept else Rx_failed client ready)
        }
      | Rx_accept client ready a \<Rightarrow> do {
          (re', a') \<leftarrow> acceptClient_step E re a;
          ret (re', ls, case a' of None \<Rightarrow> Rx_failed client ready | Some a' \<Rightarrow> Rx_accept client ready a')
        }
      | Rx_failed client ready \<Rightarrow> do {
          failed \<leftarrow> gets (\<lambda>s. tx_failed (bridge s));
          upd_bridge (\<lambda>b. b\<lparr>tx_failed := False\<rparr>);
          ret (re, ls, if failed then Rx_drop Drop_swap (Drop_failed client ready) else Rx_recv client ready)
        }
      | Rx_drop d k \<Rightarrow> do {
          d' \<leftarrow> dropClient_step d;
          ret (re, ls, case d' of None \<Rightarrow> after_drop k | Some d' \<Rightarrow> Rx_drop d' k)
        }
      | Rx_recv client ready \<Rightarrow> do {
          current \<leftarrow> gets (\<lambda>s. client_fd (bridge s));
          if ready AND 2 \<noteq> 0 \<and> 0 \<le> client \<and> current = client then do {
            r \<leftarrow> glue_recv E client rx_chunk_len;
            ret (re, ls, if rx_n r \<le> 0 then Rx_drop Drop_swap Drop_closed else Rx_feed (rx_data r))
          } else ret (re, ls, Rx_stats)
        }
      | Rx_feed chunk \<Rightarrow>
          if chunk = [] then ret (re, ls, Rx_stats)
          else (case feed re chunk of
                  None \<Rightarrow> ret (re, ls, Rx_feed chunk)
                | Some (re', Inl e) \<Rightarrow> ret (h4_reset re', ls, Rx_drop Drop_swap Drop_protocol)
                | Some (re', Inr (consumed, pkt)) \<Rightarrow>
                    ret (re', ls,
                      case pkt of
                        None \<Rightarrow> Rx_feed (drop consumed chunk)
                      | Some p \<Rightarrow> Rx_send p Send_start (drop consumed chunk)))
      | Rx_send pkt sp rest \<Rightarrow> do {
          sp' \<leftarrow> sendToController_step E pkt sp;
          ret (re, ls, case sp' of None \<Rightarrow> Rx_feed rest | Some sp' \<Rightarrow> Rx_send pkt sp' rest)
        }
      | Rx_stats \<Rightarrow> do {
          now \<leftarrow> glue_millis E;
          ret (re, if stats_interval_ms \<le> now - ls then now else ls, Rx_poll)
        }
      | Rx_panic \<Rightarrow> ret (re, ls, Rx_panic))"

subsection \<open>The task that writes to the host\<close>

datatype tx_pc =
    Tx_start
  | Tx_top
  | Tx_park
  | Tx_busy
  | Tx_recv
  | Tx_load bytes
  | Tx_send int bytes
  | Tx_fail
  | Tx_panic

definition txTask_step :: "sdk \<Rightarrow> tx_pc \<Rightarrow> tx_pc fwm" where
  "txTask_step E pc =
     (case pc of
        Tx_start \<Rightarrow> do {
          b \<leftarrow> gets (\<lambda>s. sb (bridge s));
          if b = None then do { system_abort; ret Tx_panic } else ret Tx_top
        }
      | Tx_top \<Rightarrow> do {
          pause \<leftarrow> gets (\<lambda>s. tx_pause (bridge s));
          ret (if pause then Tx_park else Tx_busy)
        }
      | Tx_park \<Rightarrow> do {
          upd_bridge (\<lambda>b. b\<lparr>tx_idle := True\<rparr>);
          glue_delay_ms 2;
          ret Tx_top
        }
      | Tx_busy \<Rightarrow> do {
          upd_bridge (\<lambda>b. b\<lparr>tx_idle := False\<rparr>);
          ret Tx_recv
        }
      | Tx_recv \<Rightarrow> do {
          b \<leftarrow> gets (\<lambda>s. sb (bridge s));
          (case b of
             None \<Rightarrow> ret Tx_panic
           | Some b \<Rightarrow> do {
               d \<leftarrow> glue_sb_recv E b tx_chunk_len 100;
               ret (if length d = 0 then Tx_top else Tx_load d)
             })
        }
      | Tx_load d \<Rightarrow> do {
          client \<leftarrow> gets (\<lambda>s. client_fd (bridge s));
          if client < 0 then do {
            modify (upd_stats (\<lambda>st. st\<lparr>dropped_stale := dropped_stale st + 1\<rparr>));
            ret Tx_top
          } else ret (Tx_send client d)
        }
      | Tx_send client d \<Rightarrow> do {
          r \<leftarrow> glue_send E client d;
          (case r of None \<Rightarrow> ret Tx_panic | Some r \<Rightarrow> ret (if r < 0 then Tx_fail else Tx_top))
        }
      | Tx_fail \<Rightarrow> do {
          upd_bridge (\<lambda>b. b\<lparr>tx_failed := True\<rparr>);
          glue_delay_ms 2;
          ret Tx_top
        }
      | Tx_panic \<Rightarrow> ret Tx_panic)"

subsection \<open>All tasks together\<close>

text \<open>
  \<open>mem\<close> is shared. \<open>ctl\<close> is the packet with which the controller's task has passed the check for a host in
  \<open>bridge_on_controller_packet\<close>. \<open>sess\<close> is an auxiliary variable that no step reads: the length of the history
  when the stream buffer was last found empty for a new host.
\<close>

record bridge_tasks =
  mem :: fw
  re :: reassembler
  last_stats :: u32
  rx :: rx_pc
  tx :: tx_pc
  ctl :: "bytes option"
  sess :: nat

definition drained :: "rx_pc \<Rightarrow> rx_pc \<Rightarrow> bool" where
  "drained pc pc' \<longleftrightarrow>
     (case (pc, pc') of
        (Rx_accept _ _ (Acc_drain _), Rx_accept _ _ (Acc_store _)) \<Rightarrow> True
      | _ \<Rightarrow> False)"

definition rx_step :: "sdk \<Rightarrow> kconfig \<Rightarrow> bridge_tasks \<Rightarrow> bridge_tasks" where
  "rx_step E c g =
     (case run_state (rxTask_step E c (re g) (last_stats g) (rx g)) (mem g) of
        ((re', last', pc'), s') \<Rightarrow>
          g\<lparr>mem := s', re := re', last_stats := last', rx := pc',
            sess := (if drained (rx g) pc' then length (hist s') else sess g)\<rparr>)"

definition tx_step :: "sdk \<Rightarrow> bridge_tasks \<Rightarrow> bridge_tasks" where
  "tx_step E g = (case run_state (txTask_step E (tx g)) (mem g) of (pc', s') \<Rightarrow> g\<lparr>mem := s', tx := pc'\<rparr>)"

text \<open>The two halves of \<open>bridge_on_controller_packet\<close>.\<close>

definition ctl_check :: "bytes \<Rightarrow> bridge_tasks \<Rightarrow> bridge_tasks" where
  "ctl_check d g =
     (if client_fd (bridge (mem g)) < 0
      then g\<lparr>mem := upd_stats (\<lambda>st. st\<lparr>dropped_no_host := dropped_no_host st + 1\<rparr>) (mem g)\<rparr>
      else g\<lparr>ctl := Some d\<rparr>)"

definition ctl_queue :: "sdk \<Rightarrow> bytes \<Rightarrow> bridge_tasks \<Rightarrow> bridge_tasks" where
  "ctl_queue E d g = g\<lparr>mem := snd (run_state (enqueue_packet E d) (mem g)), ctl := None\<rparr>"

text \<open>What the rest of the firmware may add to the history: it does not use the bridge's objects.\<close>

fun foreign :: "event \<Rightarrow> bool" where
  "foreign (Rtos (Sb_send _ _ _ _)) = False"
| "foreign (Rtos (Sb_recv _ _ _ _)) = False"
| "foreign (Rtos (Vhci_available _)) = False"
| "foreign (Rtos (Vhci_send _)) = False"
| "foreign (Sock (Sock_send _ _ _)) = False"
| "foreign (Sock (Sock_recv _ _ _)) = False"
| "foreign (Sock (Sock_close _)) = False"
| "foreign _ = True"

datatype actor = By_rx | By_tx | By_ctl | By_other

inductive bridge_step :: "sdk \<Rightarrow> kconfig \<Rightarrow> actor \<Rightarrow> bridge_tasks \<Rightarrow> bridge_tasks \<Rightarrow> bool" for E c where
  step_rx: "bridge_step E c By_rx g (rx_step E c g)"
| step_tx: "bridge_step E c By_tx g (tx_step E g)"
| step_check: "ctl g = None \<Longrightarrow> bridge_step E c By_ctl g (ctl_check d g)"
| step_queue: "ctl g = Some d \<Longrightarrow> bridge_step E c By_ctl g (ctl_queue E d g)"
| step_give: "bridge_step E c By_ctl g (g\<lparr>mem := snd (run_state bridge_on_controller_send_available (mem g))\<rparr>)"
| step_other:
    "bridge s' = bridge (mem g) \<Longrightarrow> hist s' = hist (mem g) @ new \<Longrightarrow> list_all foreign new \<Longrightarrow>
     bridge_step E c By_other g (g\<lparr>mem := s'\<rparr>)"

text \<open>
  The tasks begin when \<open>bridge_start\<close> has made the objects, with the state as it is in the image. A packet
  that the controller delivered before that would have found no host.
\<close>

definition tasks_start :: "sdk \<Rightarrow> bridge_tasks \<Rightarrow> bool" where
  "tasks_start E g \<longleftrightarrow>
     (\<exists>s. bridge s = bridge boot_fw \<and> run_state (bridge_start E) s = (Returned (), mem g)) \<and>
     h4_init rx_packet_len = Some (re g) \<and> rx g = Rx_start \<and> tx g = Tx_start \<and> ctl g = None \<and> sess g = 0"

lemma ctl_halves:
  assumes "ctl g = None"
  shows "mem (case ctl (ctl_check d g) of None \<Rightarrow> ctl_check d g | Some d' \<Rightarrow> ctl_queue E d' (ctl_check d g)) =
    snd (run_state (bridge_on_controller_packet E d) (mem g))"
  using assms by (simp add: ctl_check_def ctl_queue_def bridge_on_controller_packet_def)


section \<open>Frames of the calls\<close>

lemma emits_bridge: "emits A m \<Longrightarrow> bridge (snd (run_state m s)) = bridge s"
  using emits_hist [of A m s] by auto

text \<open>Events that have nothing to do with the socket \<open>fd\<close>, the stream buffers and the controller.\<close>

fun apart :: "int \<Rightarrow> event \<Rightarrow> bool" where
  "apart fd (Sock (Sock_send fd' _ _)) = (fd' \<noteq> fd)"
| "apart fd (Sock (Sock_recv fd' _ _)) = (fd' \<noteq> fd)"
| "apart fd (Sock (Sock_close fd')) = (fd' \<noteq> fd)"
| "apart fd e = foreign e"

lemma foreign_apart: "foreign e \<Longrightarrow> apart fd e"
  by (cases "(fd, e)" rule: apart.cases) simp_all

definition apart_events :: "int \<Rightarrow> event set" where
  "apart_events fd = {e. apart fd e}"

lemma emits_apart_run:
  assumes "emits (apart_events fd) m"
  obtains new where "snd (run_state m s) = s\<lparr>hist := hist s @ new\<rparr>" and "list_all (apart fd) new"
  using assms unfolding emits_def apart_events_def list_all_iff by blast

lemma emits_poll2: "emits (apart_events fd) (glue_poll2 E a b ms)"
  unfolding glue_poll2_def glue_delay_ms_def sock_select_def platform_calls
  by (auto simp: apart_events_def Let_def split: prod.splits intro!: frame_intros)

lemma emits_accept: "emits (apart_events fd) (glue_accept E lfd)"
  unfolding glue_accept_def socket_calls
  by (auto simp: apart_events_def intro!: frame_intros)

lemma emits_listen: "emits {e. \<exists>x. e = Sock x} (glue_listen E port)"
  unfolding glue_listen_def socket_calls by (auto intro!: frame_intros)

text \<open>Events that use no socket but \<open>fd\<close>, and do not close it.\<close>

definition socket_events :: "int \<Rightarrow> event set" where
  "socket_events fd =
     {e. foreign e \<or> (\<exists>d r. e = Sock (Sock_send fd d r)) \<or> (\<exists>n r. e = Sock (Sock_recv fd n r))}"

lemma socket_apart: "e \<in> socket_events fd' \<Longrightarrow> fd' \<noteq> fd \<Longrightarrow> apart fd e"
  by (auto simp: socket_events_def foreign_apart)

lemma emits_socket_run:
  assumes "emits (socket_events fd') m"
  obtains new where "snd (run_state m s) = s\<lparr>hist := hist s @ new\<rparr>" and "set new \<subseteq> socket_events fd'"
    and "\<forall>fd. fd \<noteq> fd' \<longrightarrow> list_all (apart fd) new"
proof -
  from assms obtain new where "snd (run_state m s) = s\<lparr>hist := hist s @ new\<rparr>" "set new \<subseteq> socket_events fd'"
    unfolding emits_def by blast
  moreover from this(2) have "\<forall>fd. fd \<noteq> fd' \<longrightarrow> list_all (apart fd) new"
    using socket_apart [of _ fd'] by (auto simp: list_all_iff)
  ultimately show thesis by (rule that)
qed

lemma emits_recv_loop: "emits (socket_events fd) (recv_loop E fd n dl buf)"
proof (induction E fd n dl buf rule: recv_loop.induct)
  case (1 E fd n dl buf)
  show ?case
    by (subst recv_loop.simps, unfold platform_calls, intro frame_intros "1.IH" [OF _ refl])
      (simp_all add: socket_events_def)
qed

lemma emits_handshake: "emits (socket_events fd) (glue_auth_handshake E fd)"
  unfolding glue_auth_handshake_def auth_handshake_def handshake_inner_def handshake_challenge_def
    handshake_verify_def recv_exact_def platform_calls
  by (intro frame_intros emits_recv_loop emits_mono [OF emits_hmac_parts])
    (auto simp: socket_events_def md_events_def)

lemma emits_send: "emits (socket_events fd) (send_loop E fd left len)"
proof (induction E fd left len rule: send_loop.induct)
  case (1 E fd left len)
  show ?case
    by (subst send_loop.simps, unfold platform_calls, intro frame_intros "1.IH")
      (simp_all add: socket_events_def)
qed

lemma emits_glue_send: "emits (socket_events fd) (glue_send E fd d)"
  unfolding glue_send_def by (rule emits_send)

text \<open>The variables of the bridge across the calls.\<close>

lemma bridge_kept [simp]:
  "bridge (snd (run_state (glue_poll2 E a b ms) s)) = bridge s"
  "bridge (snd (run_state (glue_accept E lfd) s)) = bridge s"
  "bridge (snd (run_state (glue_listen E port) s)) = bridge s"
  "bridge (snd (run_state (glue_auth_handshake E fd) s)) = bridge s"
  "bridge (snd (run_state (glue_send E fd d) s)) = bridge s"
  by (rule emits_bridge, rule emits_poll2 emits_accept emits_listen emits_handshake emits_glue_send)+

lemmas task_calls = glue_close_def glue_shutdown_def sock_close_def sock_shutdown_def glue_delay_ms_def
  glue_sb_recv_def glue_sb_send_def glue_sb_space_def glue_wdt_add_def glue_wdt_feed_def glue_recv_def
  glue_millis_def glue_bt_send_available_def glue_bt_send_def glue_sem_take_def sock_recv_def
  esp_timer_get_time_def vTaskDelay_ms_def system_abort_def

lemmas task_steps = rx_step_def tx_step_def rxTask_step_def txTask_step_def acceptClient_step_def drainStreamBuffer_step_def
  dropClient_step_def sendToController_step_def split_beta

section \<open>The pause of the writing task\<close>

text \<open>
  The writing task sees a pause at the top of its loop and nowhere else, and reports it after it has seen it.
  \<open>prompt\<close> says of a scheduler that the report of one pause is not delayed until the next connection is
  being taken over, seconds later.
\<close>

definition parked :: "tx_pc \<Rightarrow> bool" where
  "parked pc \<longleftrightarrow> pc = Tx_top \<or> pc = Tx_park"

definition prompt :: "bridge_tasks \<Rightarrow> bool" where
  "prompt g \<longleftrightarrow> (case rx g of Rx_accept _ _ (Acc_idle _ _) \<Rightarrow> tx g \<noteq> Tx_park | _ \<Rightarrow> True)"

text \<open>A step of the bridge in any schedule, and in one that is prompt.\<close>

definition any_step :: "sdk \<Rightarrow> kconfig \<Rightarrow> bridge_tasks \<Rightarrow> bridge_tasks \<Rightarrow> bool" where
  "any_step E c g g' \<longleftrightarrow> (\<exists>a. bridge_step E c a g g')"

definition prompt_step :: "sdk \<Rightarrow> kconfig \<Rightarrow> bridge_tasks \<Rightarrow> bridge_tasks \<Rightarrow> bool" where
  "prompt_step E c g g' \<longleftrightarrow> (\<exists>a. bridge_step E c a g g' \<and> (a = By_rx \<longrightarrow> prompt g))"

fun pause_at :: "accept_pc \<Rightarrow> tx_pc \<Rightarrow> bridge_state \<Rightarrow> bool" where
  "pause_at (Acc_pause _ _) pc b \<longleftrightarrow> \<not> tx_pause b \<and> \<not> tx_idle b \<and> pc \<noteq> Tx_park"
| "pause_at (Acc_wait _ _) pc b \<longleftrightarrow> tx_pause b \<and> (tx_idle b \<longrightarrow> parked pc)"
| "pause_at (Acc_close _ _) pc b \<longleftrightarrow> tx_pause b \<and> parked pc"
| "pause_at (Acc_failed _) pc b \<longleftrightarrow> tx_pause b \<and> parked pc"
| "pause_at (Acc_drain _) pc b \<longleftrightarrow> tx_pause b \<and> parked pc"
| "pause_at (Acc_store _) pc b \<longleftrightarrow> tx_pause b \<and> parked pc"
| "pause_at Acc_unpause pc b \<longleftrightarrow> tx_pause b \<and> parked pc"
| "pause_at _ pc b \<longleftrightarrow> \<not> tx_pause b"

definition pause_inv :: "bridge_tasks \<Rightarrow> bool" where
  "pause_inv g \<longleftrightarrow>
     (case rx g of
        Rx_accept _ _ a \<Rightarrow> pause_at a (tx g) (bridge (mem g))
      | _ \<Rightarrow> \<not> tx_pause (bridge (mem g)))"

lemma pause_inv_rx:
  assumes "pause_inv g" and "prompt g"
  shows "pause_inv (rx_step E c g)"
proof (cases "rx g")
  case (Rx_accept x y a)
  with assms show ?thesis
    by (cases a) (simp_all add: pause_inv_def prompt_def task_steps task_calls split: option.splits)
next
  case (Rx_drop d k)
  with assms show ?thesis
    by (cases d; cases k) (simp_all add: pause_inv_def task_steps task_calls)
next
  case (Rx_send p sp rest)
  with assms show ?thesis
    by (cases sp) (simp_all add: pause_inv_def task_steps task_calls split: option.splits)
next
  case (Rx_feed chunk)
  with assms show ?thesis
    by (simp add: pause_inv_def task_steps split: option.splits sum.splits)
qed (use assms in \<open>simp_all add: pause_inv_def task_steps task_calls\<close>)


lemma tx_pause_kept [simp]: "tx_pause (bridge (mem (tx_step E g))) = tx_pause (bridge (mem g))"
  by (cases "tx g") (simp_all add: task_steps task_calls split: option.splits)

lemma tx_step_other [simp]:
  "rx (tx_step E g) = rx g" "re (tx_step E g) = re g" "ctl (tx_step E g) = ctl g" "sess (tx_step E g) = sess g"
  by (simp_all add: tx_step_def split_beta)

lemma pause_at_tx:
  assumes "pause_at a (tx g) (bridge (mem g))"
  shows "pause_at a (tx (tx_step E g)) (bridge (mem (tx_step E g)))"
proof (cases "tx g")
  case (Tx_load d)
  with assms show ?thesis by (cases a) (simp_all add: task_steps parked_def)
next
  case (Tx_send fd d)
  with assms show ?thesis by (cases a) (simp_all add: task_steps parked_def split: option.splits)
qed (use assms in \<open>cases a; simp add: task_steps task_calls parked_def split: option.splits\<close>)+

lemma pause_inv_tx: "pause_inv g \<Longrightarrow> pause_inv (tx_step E g)"
  using pause_at_tx [of _ g E] by (simp add: pause_inv_def split: rx_pc.splits)

text \<open>What the controller's task and all others do to the bridge: at most a packet is queued.\<close>

lemma env_step:
  assumes "bridge_step E c a g g'" and "a = By_ctl \<or> a = By_other"
  obtains new st where "hist (mem g') = hist (mem g) @ new" and "bridge (mem g') = (bridge (mem g))\<lparr>stats := st\<rparr>"
    and "rx g' = rx g" and "re g' = re g" and "tx g' = tx g" and "sess g' = sess g"
    and "list_all foreign new \<or>
      (\<exists>b d sp n. sb (bridge (mem g)) = Some b \<and> sp = sb_space_r (rtos E) b (hist (mem g)) \<and> length d \<le> sp \<and>
        n = sb_send_r (rtos E) b d 0 (hist (mem g) @ [Rtos (Sb_space b sp)]) \<and>
        new = [Rtos (Sb_space b sp), Rtos (Sb_send b d 0 n)])"
  using assms(1)
proof cases
  case (step_check d)
  then show thesis by (intro that [of "[]" "stats (bridge (mem g'))"]) (simp_all add: ctl_check_def)
next
  case (step_queue d)
  show thesis
  proof (cases "sb (bridge (mem g))")
    case None
    with step_queue show thesis by (intro that [of "[]" "stats (bridge (mem g'))"]) (simp_all add: ctl_queue_def enqueue_packet_def)
  next
    case (Some b)
    let ?sp = "sb_space_r (rtos E) b (hist (mem g))"
    show thesis
    proof (cases "?sp < length d")
      case True
      with step_queue Some show thesis
        by (intro that [of "[Rtos (Sb_space b ?sp)]" "stats (bridge (mem g'))"]) (simp_all add: ctl_queue_def enqueue_packet_def task_calls)
    next
      case False
      with step_queue Some show thesis
        by (intro that [of "[Rtos (Sb_space b ?sp),
            Rtos (Sb_send b d 0 (sb_send_r (rtos E) b d 0 (hist (mem g) @ [Rtos (Sb_space b ?sp)])))]"
            "stats (bridge (mem g'))"])
          (simp_all add: ctl_queue_def enqueue_packet_def task_calls)
    qed
  qed
next
  case step_give
  then show thesis
    by (intro that [of "case send_sem (bridge (mem g)) of None \<Rightarrow> [] | Some sem \<Rightarrow> [Rtos (Sem_give sem)]"
        "stats (bridge (mem g'))"])
      (simp_all add: bridge_on_controller_send_available_def glue_sem_give_def split: option.splits)
next
  case (step_other s' new)
  then show thesis by (intro that [of new "stats (bridge (mem g))"]) simp_all
qed (use assms(2) in simp_all)

lemma pause_at_stats [simp]: "pause_at a pc (b\<lparr>stats := st\<rparr>) = pause_at a pc b"
  by (cases a) simp_all

lemma pause_inv_env:
  assumes "pause_inv g" and "bridge_step E c a g g'" and "a = By_ctl \<or> a = By_other"
  shows "pause_inv g'"
  using assms(2,3) by (rule env_step) (use assms(1) in \<open>simp add: pause_inv_def split: rx_pc.splits\<close>)

lemma bridge_start_run:
  assumes "run_state (bridge_start E) s = (Returned (), t)"
  shows "\<exists>b sem. bridge t = (bridge s)\<lparr>sb := Some b, send_sem := Some sem\<rparr>"
  using assms
  by (auto simp: bridge_start_def glue_sb_create_def glue_sem_create_def glue_task_create_def xTaskCreate_def
    glue_abort_def system_abort_def split: if_splits) (intro exI, rule refl)

lemma tasks_start_bridge:
  assumes "tasks_start E g"
  obtains b sem where "bridge (mem g) = (bridge boot_fw)\<lparr>sb := Some b, send_sem := Some sem\<rparr>"
  using assms bridge_start_run unfolding tasks_start_def by metis

lemma actor_cases:
  "bridge_step E c a g g' \<Longrightarrow>
     a = By_rx \<and> g' = rx_step E c g \<or> a = By_tx \<and> g' = tx_step E g \<or> a = By_ctl \<or> a = By_other"
  by (cases a) (auto elim: bridge_step.cases)

lemma any_cases:
  assumes "any_step E c g g'"
  obtains (rx) "g' = rx_step E c g"
    | (tx) "g' = tx_step E g"
    | (env) a where "bridge_step E c a g g'" "a = By_ctl \<or> a = By_other"
  using assms actor_cases unfolding any_step_def by blast

lemma prompt_any: "prompt_step E c g g' \<Longrightarrow> any_step E c g g'"
  by (auto simp: prompt_step_def any_step_def)

lemma reach_any: "reach st (prompt_step E c) g \<Longrightarrow> reach st (any_step E c) g"
  by (induction rule: reach.induct) (auto intro: reach.intros prompt_any)

lemma prompt_cases:
  assumes "prompt_step E c g g'"
  obtains (rx) "g' = rx_step E c g" "prompt g"
    | (tx) "g' = tx_step E g"
    | (env) a where "bridge_step E c a g g'" "a = By_ctl \<or> a = By_other"
  using assms actor_cases unfolding prompt_step_def by blast

interpretation pausing: inductive_invariant "tasks_start E" "prompt_step E c" pause_inv
proof unfold_locales
  fix g g'
  assume "tasks_start E g"
  then show "pause_inv g"
    by (rule tasks_start_bridge) (use \<open>tasks_start E g\<close> in \<open>simp add: pause_inv_def tasks_start_def boot_fw_def\<close>)
next
  fix g g'
  assume inv: "pause_inv g" and step: "prompt_step E c g g'"
  from step show "pause_inv g'"
    by (rule prompt_cases) (use inv pause_inv_rx pause_inv_tx pause_inv_env in blast)+
qed


section \<open>The sockets\<close>

text \<open>The descriptors a history has opened and not closed again.\<close>

fun fd_event :: "event \<Rightarrow> int set \<Rightarrow> int set" where
  "fd_event (Sock (Sock_socket _ r)) fds = insert r fds"
| "fd_event (Sock (Sock_accept _ r)) fds = insert r fds"
| "fd_event (Sock (Sock_close fd)) fds = fds - {fd}"
| "fd_event _ fds = fds"

definition open_fds :: "history \<Rightarrow> int set" where
  "open_fds h = fold fd_event h {}"

lemma open_append: "open_fds (h @ new) = fold fd_event new (open_fds h)"
  by (simp add: open_fds_def)

lemma open_kept:
  assumes "fd \<in> open_fds h" and "Sock (Sock_close fd) \<notin> set new"
  shows "fd \<in> open_fds (h @ new)"
  using assms(2)
proof (induction new rule: rev_induct)
  case (snoc e new)
  then have "fd \<in> open_fds (h @ new)" by simp
  with snoc.prems show ?case by (cases "(e, {fd})" rule: fd_event.cases) (auto simp: open_fds_def)
qed (use assms(1) in simp)

lemma apart_open: "fd \<in> open_fds h \<Longrightarrow> list_all (apart fd) new \<Longrightarrow> fd \<in> open_fds (h @ new)"
  by (rule open_kept) (auto simp: list_all_iff)

text \<open>Documented: a new connection gets a descriptor that is not in use.\<close>

definition accept_law :: "sdk \<Rightarrow> bool" where
  "accept_law E \<longleftrightarrow> (\<forall>lfd h. accept_r (sock E) lfd h \<notin> open_fds h)"

text \<open>A successful handshake on a socket is part of the history.\<close>

definition admitted :: "sdk \<Rightarrow> int \<Rightarrow> history \<Rightarrow> bool" where
  "admitted E fd h \<longleftrightarrow> (\<exists>s t. run_state (glue_auth_handshake E fd) s = (True, t) \<and> prefix (hist t) h)"

lemma admitted_append: "admitted E fd h \<Longrightarrow> admitted E fd (h @ new)"
  unfolding admitted_def using prefix_prefix by blast

fun fds_at :: "sdk \<Rightarrow> accept_pc \<Rightarrow> int \<Rightarrow> history \<Rightarrow> bool" where
  "fds_at E Acc_accept cl h \<longleftrightarrow> True"
| "fds_at E (Acc_auth n) cl h \<longleftrightarrow> 0 \<le> n \<and> n \<in> open_fds h \<and> n \<noteq> cl"
| "fds_at E (Acc_swap n) cl h \<longleftrightarrow> 0 \<le> n \<and> n \<in> open_fds h \<and> n \<noteq> cl \<and> admitted E n h"
| "fds_at E (Acc_shutdown old n) cl h \<longleftrightarrow> cl = - 1 \<and> 0 \<le> n \<and> n \<in> open_fds h \<and> n \<noteq> old \<and> admitted E n h"
| "fds_at E (Acc_idle old n) cl h \<longleftrightarrow> cl = - 1 \<and> 0 \<le> n \<and> n \<in> open_fds h \<and> n \<noteq> old \<and> admitted E n h"
| "fds_at E (Acc_pause old n) cl h \<longleftrightarrow> cl = - 1 \<and> 0 \<le> n \<and> n \<in> open_fds h \<and> n \<noteq> old \<and> admitted E n h"
| "fds_at E (Acc_wait old n) cl h \<longleftrightarrow> cl = - 1 \<and> 0 \<le> n \<and> n \<in> open_fds h \<and> n \<noteq> old \<and> admitted E n h"
| "fds_at E (Acc_close old n) cl h \<longleftrightarrow> cl = - 1 \<and> 0 \<le> n \<and> n \<in> open_fds h \<and> n \<noteq> old \<and> admitted E n h"
| "fds_at E (Acc_failed n) cl h \<longleftrightarrow> cl = - 1 \<and> 0 \<le> n \<and> n \<in> open_fds h \<and> admitted E n h"
| "fds_at E (Acc_drain n) cl h \<longleftrightarrow> cl = - 1 \<and> 0 \<le> n \<and> n \<in> open_fds h \<and> admitted E n h"
| "fds_at E (Acc_store n) cl h \<longleftrightarrow> cl = - 1 \<and> 0 \<le> n \<and> n \<in> open_fds h \<and> admitted E n h"
| "fds_at E Acc_unpause cl h \<longleftrightarrow> True"

fun rx_fds :: "sdk \<Rightarrow> rx_pc \<Rightarrow> int \<Rightarrow> history \<Rightarrow> bool" where
  "rx_fds E (Rx_accept _ _ a) cl h \<longleftrightarrow> fds_at E a cl h"
| "rx_fds E (Rx_drop (Drop_close old) k) cl h \<longleftrightarrow> cl = - 1"
| "rx_fds E (Rx_feed chunk) cl h \<longleftrightarrow> 0 \<le> cl"
| "rx_fds E (Rx_send p sp rest) cl h \<longleftrightarrow> 0 \<le> cl"
| "rx_fds E Rx_start cl h \<longleftrightarrow> cl = - 1"
| "rx_fds E _ cl h \<longleftrightarrow> True"

definition fd_inv :: "sdk \<Rightarrow> bridge_tasks \<Rightarrow> bool" where
  "fd_inv E g \<longleftrightarrow>
     (let cl = client_fd (bridge (mem g)); h = hist (mem g) in
      (0 \<le> cl \<longrightarrow> cl \<in> open_fds h \<and> admitted E cl h) \<and> rx_fds E (rx g) cl h)"

definition no_close :: "history \<Rightarrow> bool" where
  "no_close new \<longleftrightarrow> (\<forall>fd. Sock (Sock_close fd) \<notin> set new)"

lemma no_close_simps [simp]:
  "no_close []" "no_close (e # new) \<longleftrightarrow> (\<forall>fd. e \<noteq> Sock (Sock_close fd)) \<and> no_close new"
  by (auto simp: no_close_def)

lemma foreign_no_close: "list_all foreign new \<Longrightarrow> no_close new"
  by (auto simp: no_close_def list_all_iff)

lemma socket_no_close: "set new \<subseteq> socket_events fd \<Longrightarrow> no_close new"
  by (auto simp: no_close_def socket_events_def)

lemma fds_kept:
  assumes "rx_fds E pc cl h" and "no_close new"
  shows "rx_fds E pc cl (h @ new)"
proof -
  have "fd \<in> open_fds (h @ new)" if "fd \<in> open_fds h" for fd
    using that assms(2) by (intro open_kept) (simp_all add: no_close_def)
  then have "fds_at E a cl h \<Longrightarrow> fds_at E a cl (h @ new)" for a
    by (cases a) (simp_all add: admitted_append)
  with assms(1) show ?thesis by (cases "(E, pc, cl, h)" rule: rx_fds.cases) simp_all
qed

lemma client_kept:
  assumes "0 \<le> cl \<longrightarrow> cl \<in> open_fds h \<and> admitted E cl h" and "Sock (Sock_close cl) \<notin> set new"
  shows "0 \<le> cl \<longrightarrow> cl \<in> open_fds (h @ new) \<and> admitted E cl (h @ new)"
  using assms open_kept admitted_append by blast

lemma fd_inv_quiet:
  assumes "fd_inv E g" and "hist (mem g') = hist (mem g) @ new" and "no_close new"
    and "client_fd (bridge (mem g')) = client_fd (bridge (mem g))" and "rx g' = rx g"
  shows "fd_inv E g'"
proof -
  let ?cl = "client_fd (bridge (mem g))"
  have "0 \<le> ?cl \<longrightarrow> ?cl \<in> open_fds (hist (mem g')) \<and> admitted E ?cl (hist (mem g'))"
    unfolding assms(2) using assms(1,3) by (intro client_kept) (simp_all add: fd_inv_def no_close_def Let_def)
  moreover have "rx_fds E (rx g) ?cl (hist (mem g'))"
    unfolding assms(2) using assms(1,3) by (intro fds_kept) (simp_all add: fd_inv_def Let_def)
  ultimately show ?thesis
    using assms(1,4,5) by (simp add: fd_inv_def Let_def)
qed

lemma fd_inv_env:
  assumes "fd_inv E g" and "bridge_step E c a g g'" and "a = By_ctl \<or> a = By_other"
  shows "fd_inv E g'"
  using assms(2,3)
proof (rule env_step)
  fix new st
  assume "hist (mem g') = hist (mem g) @ new" "bridge (mem g') = (bridge (mem g))\<lparr>stats := st\<rparr>" "rx g' = rx g"
    "tx g' = tx g" and new: "list_all foreign new \<or>
      (\<exists>b d sp n. sb (bridge (mem g)) = Some b \<and> sp = sb_space_r (rtos E) b (hist (mem g)) \<and> length d \<le> sp \<and>
        n = sb_send_r (rtos E) b d 0 (hist (mem g) @ [Rtos (Sb_space b sp)]) \<and>
        new = [Rtos (Sb_space b sp), Rtos (Sb_send b d 0 n)])"
  moreover from new have "no_close new" by (auto simp: foreign_no_close)
  ultimately show ?thesis using fd_inv_quiet [OF assms(1)] by simp
qed

text \<open>The writing task closes nothing.\<close>

lemma tx_step_bridge [simp]:
  "client_fd (bridge (mem (tx_step E g))) = client_fd (bridge (mem g))"
  "sb (bridge (mem (tx_step E g))) = sb (bridge (mem g))"
  by (cases "tx g"; simp add: task_steps task_calls split: option.splits)+

lemma tx_step_hist: "\<exists>new. hist (mem (tx_step E g)) = hist (mem g) @ new \<and> no_close new"
proof (cases "tx g")
  case (Tx_send fd d)
  obtain new where "snd (run_state (glue_send E fd d) (mem g)) = (mem g)\<lparr>hist := hist (mem g) @ new\<rparr>"
    "set new \<subseteq> socket_events fd"
    using emits_socket_run [OF emits_glue_send] by metis
  then show ?thesis by (simp add: task_steps Tx_send socket_no_close split: option.splits)
qed (simp_all add: task_steps task_calls split: option.splits)

lemma fd_inv_tx:
  assumes "fd_inv E g"
  shows "fd_inv E (tx_step E g)"
proof -
  from tx_step_hist [of E g] obtain new where "hist (mem (tx_step E g)) = hist (mem g) @ new" "no_close new" by blast
  then show ?thesis by (intro fd_inv_quiet [OF assms]) simp_all
qed

text \<open>A step of the reading task that leaves the host alone.\<close>

lemma fd_inv_same:
  assumes "fd_inv E g" and "hist (mem g') = hist (mem g) @ new" and "Sock (Sock_close (client_fd (bridge (mem g)))) \<notin> set new"
    and "client_fd (bridge (mem g')) = client_fd (bridge (mem g))"
    and "rx_fds E (rx g') (client_fd (bridge (mem g))) (hist (mem g'))"
  shows "fd_inv E g'"
  using assms client_kept [of "client_fd (bridge (mem g))" "hist (mem g)" E new] by (simp add: fd_inv_def Let_def)

lemma rx_step_other [simp]: "tx (rx_step E c g) = tx g" "ctl (rx_step E c g) = ctl g"
  by (simp_all add: rx_step_def split_beta)

lemma accept_run:
  "run_state (glue_accept E lfd) s =
     (let r = accept_r (sock E) lfd (hist s); s' = s\<lparr>hist := hist s @ [Sock (Sock_accept lfd r)]\<rparr> in
      if r < 0 then (- 1, s')
      else (r, s'\<lparr>hist := hist s' @ [Sock (Setsockopt r TCP_NODELAY 1), Sock (Setsockopt r SO_KEEPALIVE 1),
        Sock (Setsockopt r TCP_KEEPIDLE 5), Sock (Setsockopt r TCP_KEEPINTVL 2), Sock (Setsockopt r TCP_KEEPCNT 3)]\<rparr>))"
  by (simp add: glue_accept_def socket_calls Let_def)

lemma fd_inv_accept:
  assumes inv: "fd_inv E g" and pc: "rx g = Rx_accept x y a" and law: "accept_law E"
  shows "fd_inv E (rx_step E c g)"
proof (cases a)
  case Acc_accept
  let ?lfd = "listen_fd (bridge (mem g))"
  have "accept_r (sock E) ?lfd (hist (mem g)) \<notin> open_fds (hist (mem g))" using law by (simp add: accept_law_def)
  with inv pc Acc_accept show ?thesis
    by (auto simp: fd_inv_def Let_def task_steps accept_run open_append admitted_append)
next
  case (Acc_auth n)
  have n: "0 \<le> n" "n \<in> open_fds (hist (mem g))" "n \<noteq> client_fd (bridge (mem g))"
    using inv pc Acc_auth by (simp_all add: fd_inv_def Let_def)
  obtain ok t where hs: "run_state (glue_auth_handshake E n) (mem g) = (ok, t)" by fastforce
  obtain new where new: "t = (mem g)\<lparr>hist := hist (mem g) @ new\<rparr>" "set new \<subseteq> socket_events n"
    by (rule emits_socket_run [OF emits_handshake [of n E], of "mem g"]) (simp add: hs that)
  have nc: "no_close new" by (rule socket_no_close [OF new(2)])
  show ?thesis
  proof (cases ok)
    case True
    with hs new(1) have "admitted E n (hist (mem g) @ new)" unfolding admitted_def by fastforce
    moreover have "n \<in> open_fds (hist (mem g) @ new)" using n(2) nc by (intro open_kept) (simp_all add: no_close_def)
    ultimately show ?thesis using pc Acc_auth hs new(1) n True nc
      by (intro fd_inv_same [OF inv, of _ new]) (simp_all add: task_steps no_close_def)
  next
    case False
    with pc Acc_auth hs new(1) n nc show ?thesis
      by (intro fd_inv_same [OF inv, of _ "new @ [Sock (Sock_shutdown n), Sock (Sock_close n)]"])
        (simp_all add: task_steps task_calls no_close_def)
  qed
qed (use assms in \<open>auto simp: fd_inv_def Let_def task_steps task_calls open_append admitted_append
   split: option.splits\<close>)


lemma fd_inv_rx:
  assumes inv: "fd_inv E g" and law: "accept_law E"
  shows "fd_inv E (rx_step E c g)"
proof (cases "rx g")
  case (Rx_accept x y a)
  with assms show ?thesis by (intro fd_inv_accept)
next
  case Rx_start
  with inv show ?thesis by (auto simp: fd_inv_def Let_def task_steps task_calls)
next
  case Rx_poll
  let ?cl = "client_fd (bridge (mem g))"
  let ?s = "(mem g)\<lparr>hist := hist (mem g) @ [Rtos Wdt_feed]\<rparr>"
  obtain r t where poll: "run_state (glue_poll2 E (listen_fd (bridge (mem g))) ?cl 1000) ?s = (r, t)" by fastforce
  obtain new where new: "t = ?s\<lparr>hist := hist ?s @ new\<rparr>" "list_all (apart ?cl) new"
    by (rule emits_apart_run [OF emits_poll2 [of ?cl], of E "listen_fd (bridge (mem g))" ?cl 1000 ?s])
      (simp add: poll that)
  then have "Sock (Sock_close ?cl) \<notin> set new" by (auto simp: list_all_iff)
  with poll new(1) Rx_poll show ?thesis
    by (intro fd_inv_same [OF inv, of _ "Rtos Wdt_feed # new @ (if r < 0 then [Sys (Delay_ms 100)] else [])"])
      (simp_all add: task_steps task_calls)
next
  case (Rx_drop d k)
  with inv show ?thesis
    by (cases d; cases k) (auto simp: fd_inv_def Let_def task_steps task_calls)
next
  case (Rx_feed chunk)
  with inv show ?thesis
    by (intro fd_inv_same [OF inv, of _ "[]"]) (auto simp: fd_inv_def Let_def task_steps split: option.splits sum.splits)
next
  case (Rx_send p sp rest)
  with inv show ?thesis
    by (cases sp) (auto simp: fd_inv_def Let_def task_steps task_calls open_append admitted_append
      split: option.splits)
qed (use inv in \<open>auto simp: fd_inv_def Let_def task_steps task_calls open_append admitted_append split: tx_pc.splits\<close>)

end
