(* ===== verification/Streams.thy ===== *)
theory Streams
  imports Tasks
begin

text \<open>
  What the tasks of \<open>bridge.zig\<close> do to the bytes: the stream from the controller to the host, in every interleaving
  with a prompt writing task, and the stream from the host to the controller, in every interleaving.
\<close>

section \<open>The stream to the host\<close>

text \<open>What a history says of the stream buffer \<open>b\<close>: its contents, and the packets put in.\<close>

fun sb_event :: "nat \<Rightarrow> bytes \<Rightarrow> event \<Rightarrow> bytes" where
  "sb_event b q (Rtos (Sb_send b' d _ n)) = (if b' = b then q @ take n d else q)"
| "sb_event b q (Rtos (Sb_recv b' _ _ d)) = (if b' = b then drop (length d) q else q)"
| "sb_event b q _ = q"

definition sb_contents :: "nat \<Rightarrow> history \<Rightarrow> bytes" where
  "sb_contents b h = foldl (sb_event b) [] h"

fun queued_event :: "nat \<Rightarrow> event \<Rightarrow> bytes list" where
  "queued_event b (Rtos (Sb_send b' d _ n)) = (if b' = b then [d] else [])"
| "queued_event b _ = []"

definition queued :: "nat \<Rightarrow> history \<Rightarrow> bytes list" where
  "queued b h = concat (map (queued_event b) h)"

text \<open>
  Documented: a stream buffer is a queue of bytes. A read returns its first bytes, and none only when there are
  none; a write takes everything when there is space for it.
\<close>

definition sb_law :: "sdk \<Rightarrow> bool" where
  "sb_law E \<longleftrightarrow>
     (\<forall>b len ms h. \<exists>k. sb_recv_r (rtos E) b len ms h = take k (sb_contents b h) \<and> (0 < len \<longrightarrow> 0 < k)) \<and>
     (\<forall>b d ms h. length d \<le> sb_space_r (rtos E) b h \<longrightarrow>
        sb_send_r (rtos E) b d ms (h @ [Rtos (Sb_space b (sb_space_r (rtos E) b h))]) = length d)"

definition send_failed :: "int \<Rightarrow> history \<Rightarrow> bool" where
  "send_failed fd h \<longleftrightarrow> (\<exists>d r. Sock (Sock_send fd d r) \<in> set h \<and> r \<le> 0)"

lemma stream_append [simp]:
  "sb_contents b (h @ [e]) = sb_event b (sb_contents b h) e"
  "queued b (h @ h') = queued b h @ queued b h'" "queued b [] = []" "queued b (e # h) = queued_event b e @ queued b h"
  "sent fd (h @ h') = sent fd h @ sent fd h'"
  "send_failed fd (h @ h') \<longleftrightarrow> send_failed fd h \<or> send_failed fd h'"
  "\<not> send_failed fd []" "send_failed fd (e # h) \<longleftrightarrow> (\<exists>d r. e = Sock (Sock_send fd d r) \<and> r \<le> 0) \<or> send_failed fd h"
  by (auto simp: sb_contents_def queued_def sent_def send_failed_def)

text \<open>Events without effect on the stream to the host at \<open>fd\<close>.\<close>

definition quiet_out :: "int \<Rightarrow> event \<Rightarrow> bool" where
  "quiet_out fd e \<longleftrightarrow>
     (\<forall>b q. sb_event b q e = q \<and> queued_event b e = []) \<and> (\<forall>d r. e \<noteq> Sock (Sock_send fd d r))"

lemma foreign_quiet: "foreign e \<Longrightarrow> quiet_out fd e"
  by (cases e rule: foreign.cases) (simp_all add: quiet_out_def)

lemma apart_quiet: "apart fd e \<Longrightarrow> quiet_out fd e"
  by (cases "(fd, e)" rule: apart.cases) (simp_all add: foreign_quiet, simp_all add: quiet_out_def)

lemma quiet_stream:
  assumes "list_all (quiet_out fd) new"
  shows "sb_contents b (h @ new) = sb_contents b h \<and> queued b new = [] \<and> sent fd new = [] \<and> \<not> send_failed fd new"
  using assms
proof (induction new rule: rev_induct)
  case (snoc e new)
  have "sent fd [e] = []" using snoc.prems by (auto simp: quiet_out_def sent_def split: event.splits sock_ev.splits)
  with snoc show ?case
    by (simp flip: append_assoc) (simp add: quiet_out_def)
qed simp

fun tx_held :: "tx_pc \<Rightarrow> bytes" where
  "tx_held (Tx_load d) = d"
| "tx_held (Tx_send fd d) = d"
| "tx_held _ = []"

text \<open>The history of the current host.\<close>

definition session :: "bridge_tasks \<Rightarrow> history" where
  "session g = drop (sess g) (hist (mem g))"

text \<open>
  What was sent to the host, what the writing task holds and what is in the buffer are the packets queued for
  this host, as long as no send failed.
\<close>

definition sess_le :: "bridge_tasks \<Rightarrow> bool" where
  "sess_le g \<longleftrightarrow> sess g \<le> length (hist (mem g))"

text \<open>The writing task sends to the host it saw, as long as there is one.\<close>

definition tx_fd :: "bridge_tasks \<Rightarrow> bool" where
  "tx_fd g \<longleftrightarrow>
     (case tx g of Tx_send fd d \<Rightarrow> 0 \<le> client_fd (bridge (mem g)) \<longrightarrow> fd = client_fd (bridge (mem g)) | _ \<Rightarrow> True)"

definition host_inv :: "bridge_tasks \<Rightarrow> bool" where
  "host_inv g \<longleftrightarrow>
     (let cl = client_fd (bridge (mem g)); h = hist (mem g); n = session g in
      sess g \<le> length h \<and>
      (\<exists>b. sb (bridge (mem g)) = Some b \<and>
        (0 \<le> cl \<and> \<not> send_failed cl n \<longrightarrow> sent cl n @ tx_held (tx g) @ sb_contents b h = concat (queued b n)) \<and>
        (\<forall>x y fd. rx g = Rx_accept x y (Acc_store fd) \<longrightarrow>
           sb_contents b h = concat (queued b n) \<and> sent fd n = [] \<and> \<not> send_failed fd n)))"

lemma session_append:
  assumes "sess g \<le> length (hist (mem g))" and "hist (mem g') = hist (mem g) @ new" and "sess g' = sess g"
  shows "session g' = session g @ new"
  using assms by (simp add: session_def)

lemma host_inv_same:
  assumes inv: "host_inv g" and hist: "hist (mem g') = hist (mem g) @ new"
    and new: "0 \<le> client_fd (bridge (mem g')) \<Longrightarrow> list_all (quiet_out (client_fd (bridge (mem g)))) new"
    and cl: "client_fd (bridge (mem g')) = client_fd (bridge (mem g)) \<or> client_fd (bridge (mem g')) < 0"
    and sb: "sb (bridge (mem g')) = sb (bridge (mem g))" and tx: "tx_held (tx g') = tx_held (tx g)"
    and sess: "sess g' = sess g"
    and rx: "\<And>x y fd. rx g' = Rx_accept x y (Acc_store fd) \<Longrightarrow> rx g = rx g' \<and> list_all (quiet_out fd) new"
  shows "host_inv g'"
proof -
  obtain b where b: "sb (bridge (mem g)) = Some b" and le: "sess g \<le> length (hist (mem g))"
    using inv by (auto simp: host_inv_def Let_def)
  let ?cl = "client_fd (bridge (mem g))"
  have s: "session g' = session g @ new" using le hist sess by (rule session_append)
  have "sent ?cl (session g') @ tx_held (tx g') @ sb_contents b (hist (mem g')) = concat (queued b (session g'))"
    if "0 \<le> client_fd (bridge (mem g'))" "\<not> send_failed ?cl (session g')"
    using that cl inv b tx quiet_stream [OF new [OF that(1)], of b "hist (mem g)"]
    by (simp add: s hist host_inv_def Let_def)
  moreover have "sb_contents b (hist (mem g')) = concat (queued b (session g')) \<and> sent fd (session g') = [] \<and>
      \<not> send_failed fd (session g')" if "rx g' = Rx_accept x y (Acc_store fd)" for x y fd
    using inv b rx [OF that] that quiet_stream [of fd new b "hist (mem g)"] by (simp add: s hist host_inv_def Let_def)
  ultimately show ?thesis using cl sb b le hist sess by (auto simp: host_inv_def Let_def)
qed


lemma host_inv_env:
  assumes inv: "host_inv g" and "bridge_step E c a g g'" and "a = By_ctl \<or> a = By_other" and law: "sb_law E"
  shows "host_inv g'"
  using assms(2,3)
proof (rule env_step)
  fix new st
  assume g': "hist (mem g') = hist (mem g) @ new" "bridge (mem g') = (bridge (mem g))\<lparr>stats := st\<rparr>" "rx g' = rx g"
    "tx g' = tx g" "sess g' = sess g" and new: "list_all foreign new \<or>
      (\<exists>b d sp n. sb (bridge (mem g)) = Some b \<and> sp = sb_space_r (rtos E) b (hist (mem g)) \<and> length d \<le> sp \<and>
        n = sb_send_r (rtos E) b d 0 (hist (mem g) @ [Rtos (Sb_space b sp)]) \<and>
        new = [Rtos (Sb_space b sp), Rtos (Sb_send b d 0 n)])"
  from new show ?thesis
  proof (elim disjE exE conjE)
    assume "list_all foreign new"
    then have "list_all (quiet_out fd) new" for fd by (auto simp: list_all_iff foreign_quiet)
    with g' show ?thesis by (intro host_inv_same [OF inv g'(1)]) simp_all
  next
    fix b d sp n
    assume b: "sb (bridge (mem g)) = Some b" and sp: "sp = sb_space_r (rtos E) b (hist (mem g))" "length d \<le> sp"
      and n: "n = sb_send_r (rtos E) b d 0 (hist (mem g) @ [Rtos (Sb_space b sp)])"
      and new: "new = [Rtos (Sb_space b sp), Rtos (Sb_send b d 0 n)]"
    from law sp n have full: "n = length d" by (simp add: sb_law_def)
    have le: "sess g \<le> length (hist (mem g))" using inv by (simp add: host_inv_def Let_def)
    have s: "session g' = session g @ new" using le g'(1,5) by (rule session_append)
    have "sb_contents b (hist (mem g')) = sb_contents b (hist (mem g)) @ d"
      using stream_append(1) [of b "hist (mem g) @ [Rtos (Sb_space b sp)]" "Rtos (Sb_send b d 0 n)"]
      by (simp add: g'(1) new full)
    with inv b g' show ?thesis by (auto simp: host_inv_def Let_def s new sent_def)
  qed
qed

lemma socket_contents: "set new \<subseteq> socket_events fd \<Longrightarrow> sb_contents b (h @ new) = sb_contents b h \<and> queued b new = []"
proof (induction new rule: rev_induct)
  case (snoc e new)
  then have "e \<in> socket_events fd" by simp
  then have "sb_event b q e = q" "queued_event b e = []" for q
    using foreign_quiet [of e 0] by (auto simp: socket_events_def quiet_out_def)
  with snoc show ?case by (simp flip: append_assoc)
qed simp

lemma glue_send_outcome:
  assumes "send_law E"
  obtains r new where "run_state (glue_send E fd d) s = (Some r, s\<lparr>hist := hist s @ new\<rparr>)"
    and "sent fd new = d \<or> send_failed fd new" and "set new \<subseteq> socket_events fd"
proof -
  from send_loop_spec [OF assms] obtain r new where
    run: "run_state (glue_send E fd d) s = (Some r, s\<lparr>hist := hist s @ new\<rparr>)" and
    "sends fd d (sint (word_of_nat (length d) :: u32)) r new" unfolding glue_send_def by blast
  then have "sent fd new = d \<or> send_failed fd new" by (auto simp: sends_def)
  moreover have "set new \<subseteq> socket_events fd"
    by (rule emits_socket_run [OF emits_glue_send [of fd E d], of s]) (simp add: run)
  ultimately show thesis using run by (intro that)
qed

lemma host_inv_tx:
  assumes inv: "host_inv g" and pause: "pause_inv g" and fds: "tx_fd g" and laws: "sb_law E" "send_law E"
  shows "host_inv (tx_step E g)"
proof -
  obtain b where b: "sb (bridge (mem g)) = Some b" and le: "sess g \<le> length (hist (mem g))"
    using inv by (auto simp: host_inv_def Let_def)
  have parked: "parked (tx g)" if "rx g = Rx_accept x y (Acc_store fd)" for x y fd
    using pause that by (simp add: pause_inv_def)
  note same = inv b le parked
  show ?thesis
  proof (cases "tx g")
    case Tx_recv
    let ?d = "sb_recv_r (rtos E) b tx_chunk_len 100 (hist (mem g))"
    let ?e = "Rtos (Sb_recv b tx_chunk_len 100 ?d)"
    from laws(1) obtain k where d: "?d = take k (sb_contents b (hist (mem g)))" unfolding sb_law_def by blast
    have h: "hist (mem (tx_step E g)) = hist (mem g) @ [?e]" and t: "tx_held (tx (tx_step E g)) = ?d"
      using Tx_recv b by (simp_all add: task_steps task_calls)
    have s: "session (tx_step E g) = session g @ [?e]" using le h by (rule session_append) simp
    have "?d @ sb_contents b (hist (mem (tx_step E g))) = sb_contents b (hist (mem g))"
      unfolding h by (simp add: d min_def)
    with inv b parked Tx_recv show ?thesis
      by (auto simp: host_inv_def Let_def s h t parked_def sent_def)
  next
    case (Tx_send fd d)
    obtain r new where run: "run_state (glue_send E fd d) (mem g) = (Some r, (mem g)\<lparr>hist := hist (mem g) @ new\<rparr>)"
      and sent: "sent fd new = d \<or> send_failed fd new" and new: "set new \<subseteq> socket_events fd"
      using laws(2) by (rule glue_send_outcome)
    have h: "hist (mem (tx_step E g)) = hist (mem g) @ new" and t: "tx_held (tx (tx_step E g)) = []"
      using Tx_send run by (simp_all add: task_steps)
    have s: "session (tx_step E g) = session g @ new" using le h by (rule session_append) simp
    have "fd = client_fd (bridge (mem g))" if "0 \<le> client_fd (bridge (mem g))"
      using fds that Tx_send by (simp add: tx_fd_def)
    with inv b parked Tx_send sent socket_contents [OF new, of b] show ?thesis
      by (auto simp: host_inv_def Let_def s h t parked_def)
  next
    case (Tx_load d)
    with inv b parked show ?thesis
      by (auto simp: host_inv_def Let_def task_steps session_def parked_def)
  qed (intro host_inv_same [OF inv, of _ "drop (length (hist (mem g))) (hist (mem (tx_step E g)))"];
    simp add: task_steps task_calls quiet_out_def b)+
qed


lemma apart_list_quiet: "list_all (apart fd) new \<Longrightarrow> list_all (quiet_out fd) new"
  by (auto simp: list_all_iff apart_quiet)

text \<open>Events without effect on the stream from the host at \<open>fd\<close>.\<close>

definition quiet_in :: "int \<Rightarrow> event \<Rightarrow> bool" where
  "quiet_in fd e \<longleftrightarrow>
     (\<forall>n r. e \<noteq> Sock (Sock_recv fd n r)) \<and> (\<forall>p. e \<noteq> Rtos (Vhci_send p)) \<and> e \<noteq> Rtos (Vhci_available False)"

lemma apart_quiet_in: "apart fd e \<Longrightarrow> quiet_in fd e"
  by (cases "(fd, e)" rule: apart.cases) (auto simp: quiet_in_def)

lemma apart_list_quiet_in: "list_all (apart fd) new \<Longrightarrow> list_all (quiet_in fd) new"
  by (auto simp: list_all_iff apart_quiet_in)

text \<open>The reading task writes nothing to the host, and reads and delivers in two places.\<close>

fun moves_in :: "rx_pc \<Rightarrow> bool" where
  "moves_in (Rx_recv _ _) = True"
| "moves_in (Rx_send _ _ _) = True"
| "moves_in _ = False"

lemma rx_step_quiet:
  assumes "fd_inv E g"
  shows "\<exists>new. hist (mem (rx_step E c g)) = hist (mem g) @ new \<and>
    (0 \<le> client_fd (bridge (mem g)) \<longrightarrow> list_all (quiet_out (client_fd (bridge (mem g)))) new \<and>
      (\<not> moves_in (rx g) \<longrightarrow> list_all (quiet_in (client_fd (bridge (mem g)))) new))"
proof (cases "rx g")
  case Rx_start
  let ?s = "(mem g)\<lparr>hist := hist (mem g) @ [Rtos Wdt_add]\<rparr>"
  have "client_fd (bridge (mem g)) = - 1" using assms Rx_start by (simp add: fd_inv_def Let_def)
  moreover obtain new where "snd (run_state (glue_listen E (glue_tcp_port c)) ?s) = ?s\<lparr>hist := hist ?s @ new\<rparr>"
    using emits_hist [OF emits_listen, of E "glue_tcp_port c" ?s] by blast
  ultimately show ?thesis using Rx_start by (simp add: task_steps task_calls)
next
  case Rx_poll
  let ?cl = "client_fd (bridge (mem g))"
  let ?s = "(mem g)\<lparr>hist := hist (mem g) @ [Rtos Wdt_feed]\<rparr>"
  obtain new where "snd (run_state (glue_poll2 E (listen_fd (bridge (mem g))) ?cl 1000) ?s) = ?s\<lparr>hist := hist ?s @ new\<rparr>"
    "list_all (apart ?cl) new" by (rule emits_apart_run [OF emits_poll2])
  then show ?thesis using Rx_poll by (simp add: task_steps task_calls apart_list_quiet apart_list_quiet_in quiet_out_def quiet_in_def)
next
  case (Rx_accept x y a)
  let ?cl = "client_fd (bridge (mem g))"
  show ?thesis
  proof (cases a)
    case Acc_accept
    obtain new where "snd (run_state (glue_accept E (listen_fd (bridge (mem g)))) (mem g)) =
        (mem g)\<lparr>hist := hist (mem g) @ new\<rparr>" "list_all (apart ?cl) new"
      by (rule emits_apart_run [OF emits_accept])
    then show ?thesis using Rx_accept Acc_accept by (simp add: task_steps apart_list_quiet apart_list_quiet_in)
  next
    case (Acc_auth n)
    obtain new where "snd (run_state (glue_auth_handshake E n) (mem g)) = (mem g)\<lparr>hist := hist (mem g) @ new\<rparr>"
      "set new \<subseteq> socket_events n" "\<forall>fd. fd \<noteq> n \<longrightarrow> list_all (apart fd) new"
      by (rule emits_socket_run [OF emits_handshake])
    moreover have "?cl \<noteq> n" using assms Rx_accept Acc_auth by (simp add: fd_inv_def Let_def)
    ultimately show ?thesis using Rx_accept Acc_auth
      by (simp add: task_steps task_calls apart_list_quiet apart_list_quiet_in quiet_out_def quiet_in_def)
  next
    case (Acc_drain n)
    with assms Rx_accept show ?thesis
      by (simp add: fd_inv_def Let_def task_steps task_calls split: option.splits)
  qed (use Rx_accept in \<open>simp_all add: task_steps task_calls quiet_out_def quiet_in_def\<close>)
next
  case (Rx_drop d k)
  then show ?thesis by (cases d) (simp_all add: task_steps task_calls quiet_out_def quiet_in_def)
next
  case (Rx_feed chunk)
  then show ?thesis by (simp add: task_steps split: option.splits sum.splits)
next
  case (Rx_send p sp rest)
  then show ?thesis by (cases sp) (simp_all add: task_steps task_calls quiet_out_def quiet_in_def split: option.splits)
qed (simp_all add: task_steps task_calls quiet_out_def quiet_in_def)

lemma sb_kept [simp]: "sb (bridge (mem (rx_step E c g))) = sb (bridge (mem g))"
proof (cases "rx g")
  case (Rx_accept x y a)
  then show ?thesis by (cases a) (simp_all add: task_steps task_calls split: option.splits)
next
  case (Rx_drop d k)
  then show ?thesis by (cases d) (simp_all add: task_steps task_calls)
next
  case (Rx_feed chunk)
  then show ?thesis by (simp add: task_steps split: option.splits sum.splits)
next
  case (Rx_send p sp rest)
  then show ?thesis by (cases sp) (simp_all add: task_steps task_calls split: option.splits)
qed (simp_all add: task_steps task_calls)

text \<open>Only the end of \<open>acceptClient\<close> sets a host.\<close>

lemma client_set:
  assumes "\<nexists>x y n. rx g = Rx_accept x y (Acc_store n)"
  shows "client_fd (bridge (mem (rx_step E c g))) = client_fd (bridge (mem g)) \<or>
    client_fd (bridge (mem (rx_step E c g))) < 0"
proof (cases "rx g")
  case (Rx_accept x y a)
  with assms show ?thesis by (cases a) (simp_all add: task_steps task_calls split: option.splits)
next
  case (Rx_drop d k)
  then show ?thesis by (cases d) (simp_all add: task_steps task_calls)
next
  case (Rx_feed chunk)
  then show ?thesis by (simp add: task_steps split: option.splits sum.splits)
next
  case (Rx_send p sp rest)
  then show ?thesis by (cases sp) (simp_all add: task_steps task_calls split: option.splits)
qed (simp_all add: task_steps task_calls)

lemma store_reached:
  assumes "rx (rx_step E c g) = Rx_accept x y (Acc_store n)"
  shows "\<exists>x y n. rx g = Rx_accept x y (Acc_drain n)"
proof (cases "rx g")
  case (Rx_accept x' y' a)
  with assms show ?thesis by (cases a) (auto simp: task_steps task_calls split: option.splits if_splits)
next
  case (Rx_drop d k)
  with assms show ?thesis by (cases d; cases k) (auto simp: task_steps task_calls split: if_splits)
next
  case (Rx_feed chunk)
  with assms show ?thesis by (auto simp: task_steps split: option.splits sum.splits if_splits)
next
  case (Rx_send p sp rest)
  with assms show ?thesis by (cases sp) (auto simp: task_steps task_calls split: option.splits if_splits)
qed (use assms in \<open>auto simp: task_steps task_calls split: if_splits\<close>)

lemma sess_kept:
  assumes "\<nexists>x y n. rx g = Rx_accept x y (Acc_drain n)"
  shows "sess (rx_step E c g) = sess g"
  using assms by (auto simp: rx_step_def split_beta drained_def split: rx_pc.splits accept_pc.splits)

lemma sess_le_rx:
  assumes "sess_le g" and "fd_inv E g"
  shows "sess_le (rx_step E c g)"
proof (cases "drained (rx g) (rx (rx_step E c g))")
  case False
  then have "sess (rx_step E c g) = sess g" by (simp add: rx_step_def split_beta)
  with rx_step_quiet [OF assms(2), of c] assms(1) show ?thesis by (auto simp: sess_le_def)
qed (simp add: sess_le_def rx_step_def split_beta)

lemma sess_le_tx: "sess_le g \<Longrightarrow> sess_le (tx_step E g)"
  using tx_step_hist [of E g] by (auto simp: sess_le_def)

lemma sess_le_env:
  assumes "sess_le g" and "bridge_step E c a g g'" and "a = By_ctl \<or> a = By_other"
  shows "sess_le g'"
  using assms(2,3) by (rule env_step) (use assms(1) in \<open>simp add: sess_le_def\<close>)

lemma tx_fd_rx:
  assumes "tx_fd g" and "pause_inv g"
  shows "tx_fd (rx_step E c g)"
proof (cases "\<exists>x y n. rx g = Rx_accept x y (Acc_store n)")
  case True
  with assms(2) have "parked (tx g)" by (auto simp: pause_inv_def)
  then show ?thesis by (auto simp: tx_fd_def parked_def)
next
  case False
  from client_set [OF this, of E c] assms(1) show ?thesis by (auto simp: tx_fd_def split: tx_pc.splits)
qed

lemma tx_fd_tx: "tx_fd g \<Longrightarrow> tx_fd (tx_step E g)"
  by (cases "tx g") (auto simp: tx_fd_def task_steps task_calls split: option.splits)

lemma tx_fd_env:
  assumes "tx_fd g" and "bridge_step E c a g g'" and "a = By_ctl \<or> a = By_other"
  shows "tx_fd g'"
  using assms(2,3) by (rule env_step) (use assms(1) in \<open>simp add: tx_fd_def cong: tx_pc.case_cong\<close>)

lemma host_inv_rx:
  assumes inv: "host_inv g" and pause: "pause_inv g" and fds: "fd_inv E g" and law: "sb_law E"
  shows "host_inv (rx_step E c g)"
proof -
  obtain b where b: "sb (bridge (mem g)) = Some b" and le: "sess g \<le> length (hist (mem g))"
    using inv by (auto simp: host_inv_def Let_def)
  consider (store) x y n where "rx g = Rx_accept x y (Acc_store n)"
    | (drain) x y n where "rx g = Rx_accept x y (Acc_drain n)"
    | (same) "\<nexists>x y n. rx g = Rx_accept x y (Acc_store n)" "\<nexists>x y n. rx g = Rx_accept x y (Acc_drain n)"
    by blast
  then show ?thesis
  proof cases
    case store
    then have "parked (tx g)" using pause by (simp add: pause_inv_def)
    then have "tx_held (tx g) = []" by (auto simp: parked_def)
    with store inv b show ?thesis by (auto simp: host_inv_def Let_def task_steps session_def drained_def)
  next
    case drain
    then have cl: "client_fd (bridge (mem g)) = - 1" using fds by (simp add: fd_inv_def Let_def)
    let ?d = "sb_recv_r (rtos E) b tx_chunk_len 0 (hist (mem g))"
    have "0 < tx_chunk_len" by (simp add: tx_chunk_len_def)
    with law obtain k where d: "?d = take k (sb_contents b (hist (mem g)))" "0 < k" unfolding sb_law_def by blast
    then have "sb_contents b (hist (mem g)) = []" if "?d = []" using that by simp
    with drain cl b le d show ?thesis
      by (auto simp: host_inv_def Let_def task_steps task_calls session_def drained_def sent_def send_failed_def
        queued_def)
  next
    case same
    from rx_step_quiet [OF fds, of c] obtain new where "hist (mem (rx_step E c g)) = hist (mem g) @ new"
      "0 \<le> client_fd (bridge (mem g)) \<longrightarrow> list_all (quiet_out (client_fd (bridge (mem g)))) new" by blast
    then show ?thesis
      using client_set [OF same(1), of E c] store_reached [of E c g] same(2) sess_kept [OF same(2), of E c]
      by (intro host_inv_same [OF inv, of _ new]) (auto simp only: sb_kept rx_step_other)
  qed
qed


section \<open>The stream to the controller\<close>

fun received_event :: "int \<Rightarrow> event \<Rightarrow> bytes" where
  "received_event fd (Sock (Sock_recv fd' _ r)) = (if fd' = fd then rx_data r else [])"
| "received_event fd _ = []"

lemma received_events: "received fd h = concat (map (received_event fd) h)"
  unfolding received_def
  by (intro arg_cong [of _ _ concat] map_cong refl) (auto split: event.splits sock_ev.splits)

fun delivered_event :: "event \<Rightarrow> bytes list" where
  "delivered_event (Rtos (Vhci_send p)) = [p]"
| "delivered_event _ = []"

definition delivered :: "history \<Rightarrow> bytes list" where
  "delivered h = concat (map delivered_event h)"

text \<open>The controller took every packet when it was offered.\<close>

definition always_ready :: "history \<Rightarrow> bool" where
  "always_ready h \<longleftrightarrow> Rtos (Vhci_available False) \<notin> set h"

lemma in_stream_simps [simp]:
  "received fd (e # h) = received_event fd e @ received fd h"
  "delivered (h @ h') = delivered h @ delivered h'" "delivered [] = []"
  "delivered (e # h) = delivered_event e @ delivered h"
  "always_ready (h @ h') \<longleftrightarrow> always_ready h \<and> always_ready h'" "always_ready []"
  "always_ready (e # h) \<longleftrightarrow> e \<noteq> Rtos (Vhci_available False) \<and> always_ready h"
  by (auto simp: received_events delivered_def always_ready_def)

lemma quiet_in_stream:
  assumes "list_all (quiet_in fd) new"
  shows "received fd new = []" "delivered new = []" "always_ready new"
proof -
  have "received_event fd e = []" "delivered_event e = []" "e \<noteq> Rtos (Vhci_available False)" if "quiet_in fd e" for e
    using that
    by (cases "(fd, e)" rule: received_event.cases; cases e rule: delivered_event.cases; simp add: quiet_in_def)+
  with assms show "received fd new = []" "delivered new = []" "always_ready new"
    by (auto simp: list_all_iff received_events delivered_def always_ready_def)
qed

text \<open>
  Of the bytes \<open>R\<close> received, all but \<open>chunk\<close> have gone through the reassembler; \<open>D\<close> was delivered, everything
  when nothing was refused.
\<close>

definition in_order :: "reassembler \<Rightarrow> bytes \<Rightarrow> bytes \<Rightarrow> bytes list \<Rightarrow> bool \<Rightarrow> bool" where
  "in_order ra R chunk D ok \<longleftrightarrow>
     cap ra = rx_packet_len \<and> h4_between rx_packet_len (held ra) \<and>
     (\<exists>x ps. R = x @ chunk \<and> scan rx_packet_len [] x = (ps, Inr (pending_of rx_packet_len (held ra))) \<and>
        subseq D ps \<and> (ok \<longrightarrow> D = ps))"

fun ctl_at :: "rx_pc \<Rightarrow> reassembler \<Rightarrow> bytes \<Rightarrow> bytes list \<Rightarrow> bool \<Rightarrow> bool" where
  "ctl_at (Rx_feed chunk) ra R D ok = in_order ra R chunk D ok"
| "ctl_at (Rx_send p sp rest) ra R D ok = (is_packet rx_packet_len p \<and> in_order ra R rest (D @ [p]) ok)"
| "ctl_at (Rx_drop d k) ra R D ok = subseq D (fst (scan rx_packet_len [] R))"
| "ctl_at _ ra R D ok = in_order ra R [] D ok"

lemma in_order_dropped: "in_order ra R [] D ok \<Longrightarrow> subseq D (fst (scan rx_packet_len [] R))"
  by (auto simp: in_order_def)

lemma in_order_refused:
  assumes "in_order ra R rest (D @ [p]) ok"
  shows "in_order ra R rest D False" "in_order ra R rest (D @ [p]) False"
  using assms subseq_order.order_trans [of D "D @ [p]"] by (auto simp: in_order_def)

lemma in_order_received: "in_order ra R [] D ok \<Longrightarrow> in_order ra (R @ d) d D ok"
  by (simp add: in_order_def)

text \<open>One call of \<open>feed\<close>.\<close>

lemma in_order_feed:
  assumes ord: "in_order ra R chunk D ok" and "chunk \<noteq> []"
  obtains (err) ra' e where "feed ra chunk = Some (ra', Inl e)" and "cap ra' = rx_packet_len"
      and "subseq D (fst (scan rx_packet_len [] R))"
    | (all) ra' k where "feed ra chunk = Some (ra', Inr (k, None))" and "in_order ra' R (drop k chunk) D ok"
    | (pkt) ra' k p where "feed ra chunk = Some (ra', Inr (k, Some p))" and "is_packet rx_packet_len p"
      and "in_order ra' R (drop k chunk) (D @ [p]) ok"
proof -
  let ?n = rx_packet_len and ?h = "pending_of rx_packet_len (held ra)"
  from ord obtain x ps where x: "R = x @ chunk" "scan ?n [] x = (ps, Inr ?h)" "subseq D ps" "ok \<longrightarrow> D = ps"
    and bt: "h4_between ?n (held ra)" and cap: "cap ra = ?n"
    by (auto simp: in_order_def)
  have eta: "\<lparr>cap = ?n, held = held ra\<rparr> = ra" using re_eta [of ra] cap by simp
  obtain ra' r where f: "feed ra chunk = Some (ra', r)" and ok: "feed_ok ?n ?h chunk 0 ra' r"
    using feed_scan [OF bt, of chunk] unfolding eta by blast
  show thesis
  proof (cases r)
    case (Inl e)
    with ok x f show thesis by (intro err [of ra' e]) (simp_all add: feed_ok_def scan_append)
  next
    case (Inr kp)
    obtain k pk where kp: "kp = (k, pk)" by fastforce
    show thesis
    proof (cases pk)
      case None
      with ok Inr kp have *: "k = length chunk" "held ra' = ?h @ chunk" "open_at ?n (held ra')" "cap ra' = ?n"
        "scan ?n ?h chunk = ([], Inr (held ra'))" by (simp_all add: feed_ok_def)
      then have "pending_of ?n (held ra') = held ra'" "h4_between ?n (held ra')"
        using open_not_packet by (simp_all add: pending_of_def h4_between_def)
      with * x f Inr kp None show thesis by (intro all [of ra' k]) (simp_all add: in_order_def scan_append)
    next
      case (Some p)
      with ok Inr kp obtain *: "0 < k" "k \<le> length chunk" "p = ?h @ take k chunk" "held ra' = p" "is_packet ?n p"
        "cap ra' = ?n" by (auto simp: feed_ok_def)
      have "take k chunk \<noteq> []" using *(1,2) by (cases chunk) auto
      with scan_completes [of ?n ?h "take k chunk"] * have "scan ?n ?h (take k chunk) = ([p], Inr [])" by simp
      with * x f Inr kp Some show thesis
        by (intro pkt [of ra' k p])
          (auto simp: in_order_def scan_append h4_between_def pending_of_def intro!: exI [of _ "x @ take k chunk"])
    qed
  qed
qed


fun handing :: "accept_pc \<Rightarrow> bool" where
  "handing (Acc_idle _ _) = True"
| "handing (Acc_pause _ _) = True"
| "handing (Acc_wait _ _) = True"
| "handing (Acc_close _ _) = True"
| "handing (Acc_failed _) = True"
| "handing (Acc_drain _) = True"
| "handing (Acc_store _) = True"
| "handing _ = False"

definition ctl_inv :: "bridge_tasks \<Rightarrow> bool" where
  "ctl_inv g \<longleftrightarrow>
     (let cl = client_fd (bridge (mem g)); n = session g in
      cap (re g) = rx_packet_len \<and> send_sem (bridge (mem g)) \<noteq> None \<and> sb (bridge (mem g)) \<noteq> None \<and>
      (\<forall>x y a. rx g = Rx_accept x y a \<and> handing a \<longrightarrow> held (re g) = []) \<and>
      (\<forall>x y fd. rx g = Rx_accept x y (Acc_store fd) \<longrightarrow> received fd n = [] \<and> delivered n = []) \<and>
      (0 \<le> cl \<longrightarrow> ctl_at (rx g) (re g) (received cl n) (delivered n) (always_ready n)))"

lemma ctl_inv_frame:
  assumes inv: "ctl_inv g" and le: "sess g \<le> length (hist (mem g))" and hist: "hist (mem g') = hist (mem g) @ new"
    and new: "\<And>fd. list_all (quiet_in fd) new"
    and keep: "rx g' = rx g" "re g' = re g" "sess g' = sess g" "sb (bridge (mem g')) = sb (bridge (mem g))"
      "client_fd (bridge (mem g')) = client_fd (bridge (mem g))" "send_sem (bridge (mem g')) = send_sem (bridge (mem g))"
  shows "ctl_inv g'"
proof -
  have s: "session g' = session g @ new" using le hist keep(3) by (rule session_append)
  with inv keep quiet_in_stream [OF new] show ?thesis by (simp add: ctl_inv_def Let_def)
qed

lemma foreign_quiet_in: "list_all foreign new \<Longrightarrow> list_all (quiet_in fd) new"
  using foreign_apart apart_quiet_in by (auto simp: list_all_iff)

lemma ctl_inv_env:
  assumes inv: "ctl_inv g" and "bridge_step E c a g g'" and "a = By_ctl \<or> a = By_other" and host: "sess_le g"
  shows "ctl_inv g'"
  using assms(2,3)
proof (rule env_step)
  fix new st
  assume g': "hist (mem g') = hist (mem g) @ new" "bridge (mem g') = (bridge (mem g))\<lparr>stats := st\<rparr>" "rx g' = rx g"
    "re g' = re g" "sess g' = sess g" and new: "list_all foreign new \<or>
      (\<exists>b d sp n. sb (bridge (mem g)) = Some b \<and> sp = sb_space_r (rtos E) b (hist (mem g)) \<and> length d \<le> sp \<and>
        n = sb_send_r (rtos E) b d 0 (hist (mem g) @ [Rtos (Sb_space b sp)]) \<and>
        new = [Rtos (Sb_space b sp), Rtos (Sb_send b d 0 n)])"
  from new have "list_all (quiet_in fd) new" for fd by (auto simp: foreign_quiet_in quiet_in_def)
  moreover have "sess g \<le> length (hist (mem g))" using host by (simp add: sess_le_def)
  ultimately show ?thesis using g' by (intro ctl_inv_frame [OF inv]) simp_all
qed

lemma send_loop_no_recv: "emits {e. \<exists>fd d r. e = Sock (Sock_send fd d r)} (send_loop E fd left len)"
proof (induction E fd left len rule: send_loop.induct)
  case (1 E fd left len)
  show ?case by (subst send_loop.simps, unfold platform_calls, intro frame_intros "1.IH") auto
qed

lemma tx_step_quiet_in: "\<exists>new. hist (mem (tx_step E g)) = hist (mem g) @ new \<and> (\<forall>fd. list_all (quiet_in fd) new)"
proof (cases "tx g")
  case (Tx_send fd d)
  from send_loop_no_recv [of E fd d] obtain new where
    "snd (run_state (glue_send E fd d) (mem g)) = (mem g)\<lparr>hist := hist (mem g) @ new\<rparr>"
    "set new \<subseteq> {e. \<exists>fd d r. e = Sock (Sock_send fd d r)}" unfolding glue_send_def emits_def by blast
  moreover from this(2) have "list_all (quiet_in fd) new" for fd by (auto simp: list_all_iff quiet_in_def)
  ultimately show ?thesis using Tx_send by (simp add: task_steps split: option.splits)
qed (simp_all add: task_steps task_calls quiet_in_def split: option.splits)

lemma tx_step_sem [simp]: "send_sem (bridge (mem (tx_step E g))) = send_sem (bridge (mem g))"
  by (cases "tx g") (simp_all add: task_steps task_calls split: option.splits)

lemma ctl_inv_tx:
  assumes "ctl_inv g" and "sess_le g"
  shows "ctl_inv (tx_step E g)"
proof -
  from tx_step_quiet_in [of E g] obtain new where new: "hist (mem (tx_step E g)) = hist (mem g) @ new"
    "\<forall>fd. list_all (quiet_in fd) new" by blast
  show ?thesis
    by (rule ctl_inv_frame [OF assms(1) _ new(1) spec [OF new(2)]]) (use assms(2) in \<open>simp_all add: sess_le_def\<close>)
qed

lemma rx_step_sem [simp]: "send_sem (bridge (mem (rx_step E c g))) = send_sem (bridge (mem g))"
proof (cases "rx g")
  case (Rx_accept x y a)
  then show ?thesis by (cases a) (simp_all add: task_steps task_calls split: option.splits)
next
  case (Rx_drop d k)
  then show ?thesis by (cases d) (simp_all add: task_steps task_calls)
next
  case (Rx_feed chunk)
  then show ?thesis by (simp add: task_steps split: option.splits sum.splits)
next
  case (Rx_send p sp rest)
  then show ?thesis by (cases sp) (simp_all add: task_steps task_calls split: option.splits)
qed (simp_all add: task_steps task_calls)

text \<open>The steps of the reading task that move no byte.\<close>

lemma ctl_inv_still:
  assumes inv: "ctl_inv g" and fds: "fd_inv E g" and host: "sess_le g" and "\<not> moves_in (rx g)"
    and nodrain: "\<nexists>x y n. rx g = Rx_accept x y (Acc_drain n)" and nostore: "\<nexists>x y n. rx g = Rx_accept x y (Acc_store n)"
    and re: "cap (re (rx_step E c g)) = rx_packet_len"
    and hand: "\<And>x y a. rx (rx_step E c g) = Rx_accept x y a \<Longrightarrow> handing a \<Longrightarrow> held (re (rx_step E c g)) = []"
    and at: "\<And>R D ok. ctl_at (rx g) (re g) R D ok \<Longrightarrow> 0 \<le> client_fd (bridge (mem (rx_step E c g))) \<Longrightarrow>
      ctl_at (rx (rx_step E c g)) (re (rx_step E c g)) R D ok"
  shows "ctl_inv (rx_step E c g)"
proof -
  from rx_step_quiet [OF fds, of c] assms(4) obtain new where
    h: "hist (mem (rx_step E c g)) = hist (mem g) @ new" and
    q: "0 \<le> client_fd (bridge (mem g)) \<longrightarrow> list_all (quiet_in (client_fd (bridge (mem g)))) new" by blast
  have le: "sess g \<le> length (hist (mem g))" using host by (simp add: sess_le_def)
  have s: "session (rx_step E c g) = session g @ new" using le h sess_kept [OF nodrain] by (rule session_append)
  have "ctl_at (rx (rx_step E c g)) (re (rx_step E c g)) (received cl (session g @ new)) (delivered (session g @ new))
      (always_ready (session g @ new))" if "cl = client_fd (bridge (mem (rx_step E c g)))" "0 \<le> cl" for cl
    using that client_set [OF nostore, of E c] q inv quiet_in_stream [of cl new] at by (auto simp: ctl_inv_def Let_def)
  with inv re hand store_reached [of E c g] nodrain show ?thesis by (auto simp: ctl_inv_def Let_def s)
qed


lemma feed_cap: "ctl_inv g \<Longrightarrow> 0 \<le> client_fd (bridge (mem g)) \<Longrightarrow> rx g = Rx_feed chunk \<Longrightarrow>
    in_order (re g) (received (client_fd (bridge (mem g))) (session g)) chunk (delivered (session g)) (always_ready (session g))"
  by (simp add: ctl_inv_def Let_def)

lemma ctl_inv_feed:
  assumes inv: "ctl_inv g" and fds: "fd_inv E g" and rx: "rx g = Rx_feed chunk"
  shows "ctl_inv (rx_step E c g)"
proof (cases "chunk = []")
  case True
  with inv rx show ?thesis by (simp add: ctl_inv_def Let_def task_steps session_def drained_def)
next
  case False
  let ?cl = "client_fd (bridge (mem g))"
  have "0 \<le> ?cl" using fds rx by (simp add: fd_inv_def Let_def)
  from feed_cap [OF inv this rx] False show ?thesis
  proof (cases rule: in_order_feed)
    case (err ra' e)
    with inv rx False show ?thesis
      by (simp add: ctl_inv_def Let_def task_steps session_def drained_def h4_reset_def)
  next
    case (all ra' k)
    with inv rx False show ?thesis
      by (simp add: ctl_inv_def Let_def task_steps session_def drained_def in_order_def)
  next
    case (pkt ra' k p)
    with inv rx False show ?thesis
      by (simp add: ctl_inv_def Let_def task_steps session_def drained_def in_order_def)
  qed
qed

lemma ctl_inv_send:
  assumes inv: "ctl_inv g" and fds: "fd_inv E g" and host: "sess_le g" and rx: "rx g = Rx_send p sp rest"
  shows "ctl_inv (rx_step E c g)"
proof -
  let ?cl = "client_fd (bridge (mem g))" and ?g = "rx_step E c g"
  have le: "sess g \<le> length (hist (mem g))" using host by (simp add: sess_le_def)
  have cl: "0 \<le> ?cl" using fds rx by (simp add: fd_inv_def Let_def)
  have at: "is_packet rx_packet_len p" "in_order (re g) (received ?cl (session g)) rest (delivered (session g) @ [p])
      (always_ready (session g))" using inv rx cl by (simp_all add: ctl_inv_def Let_def)
  obtain sem where sem: "send_sem (bridge (mem g)) = Some sem" using inv by (auto simp: ctl_inv_def Let_def)
  note run = ctl_inv_def Let_def task_steps task_calls session_def drained_def le
  show ?thesis
  proof (cases sp)
    case Send_start
    with inv rx sem show ?thesis by (simp add: run)
  next
    case (Send_try sm dl)
    show ?thesis
    proof (cases "vhci_available_r (rtos E) (hist (mem g))")
      case True
      with inv rx Send_try at show ?thesis by (simp add: run)
    next
      case False
      with inv rx Send_try at in_order_refused [OF at(2)] show ?thesis by (simp add: run)
    qed
  qed
qed

lemma rx_data_none: "rx_n r \<le> 0 \<Longrightarrow> rx_data r = []"
  by (cases r) simp_all

lemma ctl_inv_recv:
  assumes inv: "ctl_inv g" and host: "sess_le g" and rx: "rx g = Rx_recv client ready"
  shows "ctl_inv (rx_step E c g)"
proof -
  have le: "sess g \<le> length (hist (mem g))" using host by (simp add: sess_le_def)
  show ?thesis
    using inv rx in_order_dropped in_order_received
    by (auto simp: ctl_inv_def Let_def task_steps task_calls session_def drained_def le rx_data_none)
qed

lemma ctl_inv_rx:
  assumes inv: "ctl_inv g" and fds: "fd_inv E g" and host: "sess_le g"
  shows "ctl_inv (rx_step E c g)"
proof (cases "rx g")
  case (Rx_accept x y a)
  show ?thesis
  proof (cases a)
    case (Acc_drain n)
    with inv fds Rx_accept host show ?thesis
      by (auto simp: ctl_inv_def fd_inv_def sess_le_def Let_def task_steps task_calls session_def drained_def)
  next
    case (Acc_store n)
    with inv Rx_accept show ?thesis
      by (auto simp: ctl_inv_def Let_def task_steps session_def drained_def in_order_def)
  next
    case (Acc_shutdown old n)
    with inv fds Rx_accept show ?thesis
      by (intro ctl_inv_still [OF inv fds host])
        (auto simp: ctl_inv_def fd_inv_def Let_def task_steps task_calls h4_reset_def split: if_splits)
  qed (use inv Rx_accept in \<open>(intro ctl_inv_still [OF inv fds host];
    auto simp: ctl_inv_def Let_def task_steps task_calls h4_reset_def split: option.splits if_splits)\<close>)+
next
  case (Rx_drop d k)
  with inv show ?thesis
    by (cases d; cases k) (intro ctl_inv_still [OF inv fds host];
      use fds in \<open>auto simp: ctl_inv_def fd_inv_def Let_def task_steps task_calls split: if_splits\<close>)+
next
  case (Rx_feed chunk)
  with inv fds show ?thesis by (rule ctl_inv_feed)
next
  case (Rx_send p sp rest)
  with inv fds host show ?thesis by (rule ctl_inv_send)
next
  case (Rx_recv client ready)
  with inv host show ?thesis by (rule ctl_inv_recv)
qed (use inv in \<open>(intro ctl_inv_still [OF inv fds host]; auto simp: ctl_inv_def Let_def task_steps task_calls
  split: if_splits intro: in_order_dropped)\<close>)+


section \<open>What holds in every reachable state\<close>

text \<open>What is relied on: the descriptors, the stream buffer and \<open>send\<close>.\<close>

definition bridge_laws :: "sdk \<Rightarrow> bool" where
  "bridge_laws E \<longleftrightarrow> accept_law E \<and> sb_law E \<and> send_law E"

text \<open>
  The reading side in any schedule: the sockets and the stream to the controller do not depend on when the
  writing task runs.
\<close>

definition link_inv :: "sdk \<Rightarrow> bridge_tasks \<Rightarrow> bool" where
  "link_inv E g \<longleftrightarrow> (accept_law E \<longrightarrow> fd_inv E g \<and> sess_le g \<and> ctl_inv g)"

lemma start_link:
  assumes "tasks_start E g"
  shows "link_inv E g"
  using assms
proof (rule tasks_start_bridge)
  fix b sem
  assume br: "bridge (mem g) = (bridge boot_fw)\<lparr>sb := Some b, send_sem := Some sem\<rparr>"
  have g: "rx g = Rx_start" "sess g = 0" "cap (re g) = rx_packet_len"
    using assms h4_init_run [of rx_packet_len "re g"] by (auto simp: tasks_start_def)
  show ?thesis
    using g by (simp add: link_inv_def fd_inv_def sess_le_def ctl_inv_def Let_def br boot_fw_def)
qed

lemma step_link:
  assumes inv: "link_inv E g" and step: "any_step E c g g'"
  shows "link_inv E g'"
  using step
proof (cases rule: any_cases)
  case rx
  with inv show ?thesis using fd_inv_rx sess_le_rx ctl_inv_rx unfolding link_inv_def by blast
next
  case tx
  with inv show ?thesis using fd_inv_tx sess_le_tx ctl_inv_tx unfolding link_inv_def by blast
next
  case (env a)
  with inv show ?thesis using fd_inv_env sess_le_env ctl_inv_env unfolding link_inv_def by blast
qed

interpretation link: inductive_invariant "tasks_start E" "any_step E c" "link_inv E"
  by unfold_locales (rule start_link, assumption, rule step_link)

lemmas link_facts = link.reach_inv [unfolded link_inv_def]

text \<open>The writing side, in a prompt schedule.\<close>

definition tasks_inv :: "sdk \<Rightarrow> bridge_tasks \<Rightarrow> bool" where
  "tasks_inv E g \<longleftrightarrow> link_inv E g \<and> pause_inv g \<and> (bridge_laws E \<longrightarrow> tx_fd g \<and> host_inv g)"

lemma start_inv:
  assumes "tasks_start E g"
  shows "tasks_inv E g"
  using assms
proof (rule tasks_start_bridge)
  fix b sem
  assume br: "bridge (mem g) = (bridge boot_fw)\<lparr>sb := Some b, send_sem := Some sem\<rparr>"
  have "rx g = Rx_start" "tx g = Tx_start" "sess g = 0" using assms by (auto simp: tasks_start_def)
  then show ?thesis
    using start_link [OF assms]
    by (simp add: tasks_inv_def pause_inv_def tx_fd_def host_inv_def Let_def br boot_fw_def)
qed

lemma step_inv:
  assumes inv: "tasks_inv E g" and step: "prompt_step E c g g'"
  shows "tasks_inv E g'"
proof -
  have link: "link_inv E g'" using inv prompt_any [OF step] step_link by (auto simp: tasks_inv_def)
  have laws: "accept_law E" "sb_law E" "send_law E" if "bridge_laws E" using that by (simp_all add: bridge_laws_def)
  from step show ?thesis
  proof (cases rule: prompt_cases)
    case rx
    with inv link laws show ?thesis
      using pause_inv_rx tx_fd_rx host_inv_rx unfolding tasks_inv_def link_inv_def by blast
  next
    case tx
    with inv link laws show ?thesis
      using pause_inv_tx tx_fd_tx host_inv_tx unfolding tasks_inv_def by blast
  next
    case (env a)
    with inv link laws show ?thesis
      using pause_inv_env tx_fd_env host_inv_env unfolding tasks_inv_def by blast
  qed
qed

interpretation tasks: inductive_invariant "tasks_start E" "prompt_step E c" "tasks_inv E"
  by unfold_locales (rule start_inv, assumption, rule step_inv)

lemmas tasks_facts = tasks.reach_inv [unfolded tasks_inv_def]


section \<open>A concrete run\<close>

text \<open>A schedule of the two tasks and of packets from the controller; \<open>None\<close> if it is not prompt.\<close>

fun run_tasks :: "sdk \<Rightarrow> kconfig \<Rightarrow> (actor \<times> bytes) list \<Rightarrow> bridge_tasks \<Rightarrow> bridge_tasks option" where
  "run_tasks E c [] g = Some g"
| "run_tasks E c ((a, d) # as) g =
     (case a of
        By_rx \<Rightarrow> if prompt g then run_tasks E c as (rx_step E c g) else None
      | By_tx \<Rightarrow> run_tasks E c as (tx_step E g)
      | By_ctl \<Rightarrow> (case ctl g of
            None \<Rightarrow> run_tasks E c as (ctl_check d g)
          | Some d' \<Rightarrow> run_tasks E c as (ctl_queue E d' g))
      | By_other \<Rightarrow> run_tasks E c as g)"

lemma prompt_tx: "tx g \<noteq> Tx_park \<Longrightarrow> prompt g"
  by (simp add: prompt_def split: rx_pc.splits accept_pc.splits)

lemma reach_task:
  assumes "reach st (prompt_step E c) g"
  shows "prompt g \<Longrightarrow> reach st (prompt_step E c) (rx_step E c g)"
    "reach st (prompt_step E c) (tx_step E g)"
    "ctl g = None \<Longrightarrow> reach st (prompt_step E c) (ctl_check d g)"
    "ctl g = Some d \<Longrightarrow> reach st (prompt_step E c) (ctl_queue E d g)"
  using assms by (auto intro!: reach_step [OF assms] bridge_step.intros exI simp: prompt_step_def)

lemma run_tasks_reach:
  "run_tasks E c as g = Some g' \<Longrightarrow> reach st (prompt_step E c) g \<Longrightarrow> reach st (prompt_step E c) g'"
proof (induction as arbitrary: g)
  case (Cons x as)
  obtain a d where x: "x = (a, d)" by fastforce
  note reach = reach_task [OF Cons.prems(2)]
  show ?case
  proof (cases a)
    case By_rx
    with Cons x reach(1) show ?thesis by (simp split: if_splits)
  next
    case By_tx
    with Cons x reach(2) show ?thesis by simp
  next
    case By_ctl
    with Cons x reach(3,4) show ?thesis by (cases "ctl g") simp_all
  next
    case By_other
    with Cons x show ?thesis by simp
  qed
qed simp

fun fd_seen :: "event \<Rightarrow> int" where
  "fd_seen (Sock (Sock_socket _ r)) = r"
| "fd_seen (Sock (Sock_accept _ r)) = r"
| "fd_seen _ = 3"

text \<open>The first host answers the nonce it is sent, and then sends a packet and the begin of another.\<close>

definition link_msg :: bytes where
  "link_msg = client_message toy_mac (g_psk toy_fw) (arr 32 (\<lambda>i. word_of_nat (19 + i))) (replicate 32 9)"

definition link_sock :: sock_api where
  "link_sock = (toy_sock [])
     \<lparr>accept_r := (\<lambda>_ h. fold max (map fd_seen h) 3 + 1),
      sock_recv_r := (\<lambda>fd n h.
        if length (received fd h) < 64 then Rx (take n (drop (length (received fd h)) link_msg))
        else if length (received fd h) = 64 then Rx (take n [1, 3, 12, 0, 1]) else Rx []),
      select_r := (\<lambda>_ fds _ _ _. (1, [last fds]))\<rparr>"

definition link_rtos :: rtos_api where
  "link_rtos = toy_rtos
     \<lparr>sb_recv_r := (\<lambda>b n ms h. take n (sb_contents b h)),
      sb_space_r := (\<lambda>b h. 16384 - length (sb_contents b h)),
      sb_send_r := (\<lambda>b d ms h. min (length d) (16384 - length (sb_contents b h)))\<rparr>"

definition link_sdk :: sdk where
  "link_sdk = hs_sdk\<lparr>sock := link_sock, rtos := link_rtos, sys := toy_sys\<lparr>get_time_r := (\<lambda>_. 0)\<rparr>\<rparr>"

definition link_conf :: kconfig where
  "link_conf =
     \<lparr>BRIDGE_TCP_PORT = 4444, BRIDGE_HOSTNAME = [], BRIDGE_BOARD_ID = [], BRIDGE_NET_WIFI = False, BRIDGE_WIFI_SSID = [],
      BRIDGE_WIFI_PASS = [], BRIDGE_ETH_PHY = LAN87XX, BRIDGE_ETH_MDC_GPIO = 23, BRIDGE_ETH_MDIO_GPIO = 18,
      BRIDGE_ETH_CLK_IN = True, BRIDGE_ETH_CLK_GPIO = 0, BRIDGE_ETH_PHY_ADDR = 0, BRIDGE_ETH_PHY_POWER_GPIO = - 1\<rparr>"

lemmas link_defs = link_sdk_def link_sock_def link_rtos_def hs_sdk_def toy_sdk_def toy_sock_def toy_rtos_def toy_sys_def

lemmas task_runs = rx_step_def tx_step_def rxTask_step_def txTask_step_def acceptClient_step_def drainStreamBuffer_step_def
  dropClient_step_def sendToController_step_def

definition link_g :: "fw \<Rightarrow> rx_pc \<Rightarrow> bridge_tasks" where
  "link_g m pc = \<lparr>mem = m, re = \<lparr>cap = rx_packet_len, held = []\<rparr>, last_stats = 0, rx = pc, tx = Tx_start,
     ctl = None, sess = 0\<rparr>"

definition link_start :: bridge_tasks where
  "link_start = link_g (snd (run_state (bridge_start link_sdk) toy_fw)) Rx_start"

definition link_bridge :: "bridge_state" where
  "link_bridge = (bridge boot_fw)\<lparr>listen_fd := 3, sb := Some 1, send_sem := Some 2\<rparr>"

text \<open>The history up to the first connection.\<close>

definition link_hist :: "kconfig \<Rightarrow> history" where
  "link_hist c = [Rtos (Sb_create stream_buffer_len (Some 1)), Rtos (Sem_create (Some 2)),
     Rtos (Task_create ''hci_rx'' 6144 12 1 True), Rtos (Task_create ''hci_tx'' 4096 12 1 True), Rtos Wdt_add,
     Sock (Sock_socket True 3), Sock (Setsockopt 3 SO_REUSEADDR 1), Sock (Sock_bind 3 (glue_tcp_port c) 0),
     Sock (Sock_listen 3 1 0), Sys (Get_time 0)]"

definition link_accepted :: "kconfig \<Rightarrow> history" where
  "link_accepted c = link_hist c @ [Rtos Wdt_feed, Sock (Sock_select 4 [3] 1 0 1 [3]), Sock (Sock_accept 3 4),
     Sock (Setsockopt 4 TCP_NODELAY 1), Sock (Setsockopt 4 SO_KEEPALIVE 1), Sock (Setsockopt 4 TCP_KEEPIDLE 5),
     Sock (Setsockopt 4 TCP_KEEPINTVL 2), Sock (Setsockopt 4 TCP_KEEPCNT 3)]"

lemma link_starts: "tasks_start link_sdk link_start"
  by (auto simp: tasks_start_def link_start_def link_g_def bridge_start_def glue_sb_create_def glue_sem_create_def
    glue_task_create_def xTaskCreate_def link_defs toy_fw_def h4_init_def rx_packet_len_def intro!: exI [of _ toy_fw])

lemma link_listens:
  "rx_step link_sdk c link_start = link_g (toy_fw\<lparr>bridge := link_bridge, hist := link_hist c\<rparr>) Rx_poll"
  by (simp add: link_start_def link_g_def bridge_start_def glue_sb_create_def glue_sem_create_def
    glue_task_create_def xTaskCreate_def link_defs toy_fw_def boot_fw_def link_bridge_def link_hist_def task_runs task_calls
    glue_listen_def socket_calls drained_def)

lemma link_accepts:
  "rx_step link_sdk c (rx_step link_sdk c (link_g (toy_fw\<lparr>bridge := link_bridge, hist := link_hist c\<rparr>) Rx_poll)) =
     link_g (toy_fw\<lparr>bridge := link_bridge, hist := link_accepted c\<rparr>) (Rx_accept (- 1) 1 (Acc_auth 4))"
  by (simp add: link_g_def link_defs link_bridge_def boot_fw_def task_runs task_calls glue_poll2_def socket_calls
    drained_def accept_run link_hist_def link_accepted_def)

lemma link_laws: "hmac_law link_sdk toy_mac" "md_ok link_sdk" "recv_law link_sdk"
  using toy_laws(1,2,7) by (simp_all add: hmac_law_def md_ok_def recv_law_def link_defs)

lemma open_seen: "fd \<in> open_fds h \<Longrightarrow> fd \<le> fold max (map fd_seen h) x"
proof (induction h rule: rev_induct)
  case (snoc e h)
  then show ?case by (cases "(e, {fd})" rule: fd_event.cases) (auto simp: open_fds_def)
qed (simp add: open_fds_def)

lemma link_accept_law: "accept_law link_sdk"
  using open_seen [of _ _ 3] by (fastforce simp: accept_law_def link_defs)

lemma link_bridge_laws: "bridge_laws link_sdk"
proof -
  have "sb_law link_sdk" by (auto simp: sb_law_def link_defs)
  moreover have "send_law link_sdk" by (simp add: send_law_def link_defs)
  ultimately show ?thesis using link_accept_law by (simp add: bridge_laws_def)
qed

text \<open>A successful handshake reads 64 bytes.\<close>

lemma handshake_reads:
  assumes "run_state (auth_handshake E fd) s = (True, t)" and "hmac_law E hm" and "recv_law E" and "md_ok E"
  shows "length (received fd (hist t)) = length (received fd (hist s)) + 64"
proof -
  let ?t0 = "get_time_r (sys E) (hist s)"
  let ?s1 = "s\<lparr>hist := hist s @ [Sys (Get_time ?t0)]\<rparr>"
  from assms(1) obtain u where
    inner: "run_state (handshake_inner E fd (?t0 + HANDSHAKE_DEADLINE_US)) ?s1 = (True, u)"
    and t: "t = u\<lparr>hist := hist u @ [Sock (Set_rcvtimeo fd 0 0)]\<rparr>"
    by (auto simp: auth_handshake_def platform_calls split: if_splits prod.splits)
  from inner assms(2,3) obtain sn cn rd md where w: "length sn = 32" "length cn = 32"
      "received fd rd = client_message hm (g_psk ?s1) sn cn" "set md \<subseteq> md_events"
      "u = ?s1\<lparr>hist := hist ?s1 @ [Crypto (Fill_random sn), Sock (Sock_send fd sn 32)] @ rd @ md @
        [Sock (Sock_send fd (boardMac hm (g_psk ?s1) cn sn) 32)]\<rparr>"
    by (rule handshake_inner_true)
  have "received fd md = []" using w(4) by (induction md) (auto simp: md_events_def)
  then show ?thesis
    using t w by (simp add: client_message_def clientMac_def hmac_length [OF assms(4,2)])
qed

lemma link_serves: "serves link_sdk 4 [] link_msg"
  unfolding serves_def delivers_def
proof (intro allI impI)
  fix h got rest n
  assume h: "received 4 h = [] @ got" "link_msg = got @ rest" "rest \<noteq> []" "0 < (n :: nat)"
  have "length link_msg = 64"
    by (simp add: link_msg_def client_message_def clientMac_def)
  with h(2,3) have "length got < 64" using length_append [of got rest] by (cases rest) simp_all
  moreover have "drop (length got) link_msg = rest" by (simp only: h(2) append_eq_conv_conj) simp
  ultimately show "\<exists>k>0. k \<le> n \<and> sock_recv_r (sock link_sdk) 4 n h = Rx (take k rest)"
    using h(1,4) by (intro exI [of _ n]) (simp add: link_defs)
qed

lemma link_admits:
  obtains h where "rx_step link_sdk c (link_g (toy_fw\<lparr>bridge := link_bridge, hist := link_accepted c\<rparr>)
      (Rx_accept (- 1) 1 (Acc_auth 4))) =
    link_g (toy_fw\<lparr>bridge := link_bridge, hist := h\<rparr>) (Rx_accept (- 1) 1 (Acc_swap 4))"
    and "length (received 4 h) = 64" and "sb_contents 1 h = []"
proof -
  let ?s = "toy_fw\<lparr>bridge := link_bridge, hist := link_accepted c\<rparr>"
  have rc: "received 4 (link_accepted c) = []" "length (link_accepted c) = 18" "sb_contents 1 (link_accepted c) = []"
    by (simp_all add: link_accepted_def link_hist_def sb_contents_def)
  have "\<exists>t h. run_state (auth_handshake link_sdk 4) ?s = (True, t) \<and>
      hist t = h @ [Sock (Sock_send 4 (boardMac toy_mac (g_psk ?s) (replicate 32 9) (arr 32 (\<lambda>i. word_of_nat (19 + i)))) 32),
        Sock (Set_rcvtimeo 4 0 0)]"
    by (rule honest_handshake [OF link_laws(2,1,3)])
      (use link_serves rc in \<open>simp_all add: toy_fw_def link_defs toy_crypto_def link_msg_def HANDSHAKE_DEADLINE_US_def\<close>)
  then obtain t where t: "run_state (glue_auth_handshake link_sdk 4) ?s = (True, t)"
    unfolding glue_auth_handshake_def by blast
  obtain new where new: "t = ?s\<lparr>hist := hist ?s @ new\<rparr>" "set new \<subseteq> socket_events 4"
    by (rule emits_socket_run [OF emits_handshake [of 4 link_sdk], of ?s]) (simp add: t that)
  have "length (received 4 (hist t)) = 64"
    using handshake_reads [OF t [unfolded glue_auth_handshake_def] link_laws(1,3,2)] rc(1) by simp
  moreover have "sb_contents 1 (hist t) = []" using new socket_contents [OF new(2)] rc(3) by simp
  ultimately show thesis
    using t new(1) by (intro that [of "hist t"]) (simp_all add: link_g_def task_runs drained_def)
qed

text \<open>
  The first host is taken over while the writing task is parked; then a packet from the controller goes to the
  host, and one from the host to the controller.
\<close>

definition takeover :: "(actor \<times> bytes) list" where
  "takeover = map (\<lambda>a. (a, [])) [By_rx, By_rx, By_rx, By_rx, By_tx, By_tx, By_tx, By_rx, By_rx]"

definition link_taken :: "history \<Rightarrow> bridge_tasks" where
  "link_taken h = (link_g (toy_fw\<lparr>bridge := link_bridge\<lparr>tx_pause := True, tx_idle := True\<rparr>,
     hist := h @ [Sys (Delay_ms 2)]\<rparr>) (Rx_accept (- 1) 1 (Acc_failed 4)))\<lparr>tx := Tx_top\<rparr>"

lemmas link_steps = link_g_def link_bridge_def boot_fw_def task_runs task_calls drained_def prompt_def
  h4_reset_def

lemma link_takeover:
  "run_tasks link_sdk c takeover (link_g (toy_fw\<lparr>bridge := link_bridge, hist := h\<rparr>) (Rx_accept (- 1) 1 (Acc_swap 4))) =
    Some (link_taken h)"
  by (simp add: takeover_def link_taken_def link_steps)

lemma link_feeds:
  "feed \<lparr>cap = rx_packet_len, held = []\<rparr> [1, 3, 12, 0, 1] =
    Some (\<lparr>cap = rx_packet_len, held = [1, 3, 12, 0]\<rparr>, Inr (4, Some [1, 3, 12, 0]))"
  "feed \<lparr>cap = rx_packet_len, held = [1, 3, 12, 0]\<rparr> [1] = Some (\<lparr>cap = rx_packet_len, held = [1]\<rparr>, Inr (1, None))"
  by (simp_all add: feed_def feed_loop.simps totalLen_def h4_want_def fromByte_def rx_packet_len_def)

definition link_stats :: "u32 \<Rightarrow> u32 \<Rightarrow> bridge_stats" where
  "link_stats i out = (stats (bridge boot_fw))\<lparr>to_controller := i, to_host := out, connections := 1\<rparr>"

definition link_serving :: "history \<Rightarrow> history \<Rightarrow> rx_pc \<Rightarrow> tx_pc \<Rightarrow> bytes \<Rightarrow> bool \<Rightarrow> u32 \<Rightarrow> u32 \<Rightarrow> bridge_tasks" where
  "link_serving h n pc tpc p idle i out = \<lparr>mem = toy_fw\<lparr>bridge := link_bridge\<lparr>client_fd := 4, tx_idle := idle, stats := link_stats i out\<rparr>,
     hist := h @ n\<rparr>, re = \<lparr>cap = rx_packet_len, held = p\<rparr>, last_stats = 0, rx = pc, tx = tpc, ctl = None, sess = length h\<rparr>"

lemma link_opens:
  assumes "sb_contents 1 h = []"
  shows "run_tasks link_sdk c (map (\<lambda>a. (a, [])) [By_rx, By_rx, By_rx, By_rx, By_rx, By_rx, By_rx]) (link_taken h) =
    Some (link_serving (h @ [Sys (Delay_ms 2), Rtos (Sb_recv 1 tx_chunk_len 0 [])]) [Sys (Get_time 0)] Rx_poll Tx_top [] True 0 0)"
  using assms
  by (simp add: link_taken_def link_serving_def link_stats_def link_steps link_defs stats_interval_ms_def sb_contents_def)


lemma link_queues:
  assumes "sb_contents 1 h = []"
  shows "run_tasks link_sdk c (map (\<lambda>a. (a, [4, 0x10, 0])) [By_ctl, By_ctl, By_tx, By_tx, By_tx])
      (link_serving h [Sys (Get_time 0)] Rx_poll Tx_top [] True 0 0) =
    Some ((link_serving h [Sys (Get_time 0), Rtos (Sb_space 1 16384), Rtos (Sb_send 1 [4, 0x10, 0] 0 3),
        Rtos (Sb_recv 1 tx_chunk_len 100 [4, 0x10, 0])] Rx_poll (Tx_load [4, 0x10, 0]) [] False 0 1))"
  using assms
  by (simp add: link_serving_def link_stats_def link_steps link_defs sb_contents_def ctl_check_def ctl_queue_def
    enqueue_packet_def tx_chunk_len_def numeral_3_eq_3)


lemma link_delivers:
  assumes "length (received 4 h) = 64" and "received 4 n = []"
  shows "run_tasks link_sdk c (map (\<lambda>a. (a, [])) [By_rx, By_rx, By_rx, By_rx, By_rx, By_rx, By_rx, By_rx, By_rx])
      (link_serving h n Rx_poll tpc [] False 0 1) =
    Some (link_serving h (n @ [Rtos Wdt_feed, Sock (Sock_select 5 [3, 4] 1 0 1 [4]),
        Sock (Sock_recv 4 rx_chunk_len (Rx [1, 3, 12, 0, 1])), Sys (Get_time 0), Rtos (Vhci_available True),
        Rtos (Vhci_send [1, 3, 12, 0]), Sys (Get_time 0)]) Rx_poll tpc [1] False 1 1)"
  using assms
  by (simp add: link_serving_def link_stats_def link_steps link_defs link_feeds glue_poll2_def socket_calls
    rx_chunk_len_def stats_interval_ms_def)


text \<open>Just before the packet of the host is handed over.\<close>

lemma link_offers:
  assumes "length (received 4 h) = 64" and "received 4 n = []"
  shows "run_tasks link_sdk c (map (\<lambda>a. (a, [])) [By_rx, By_rx, By_rx, By_rx, By_rx])
      (link_serving h n Rx_poll tpc [] False 0 1) =
    Some (link_serving h (n @ [Rtos Wdt_feed, Sock (Sock_select 5 [3, 4] 1 0 1 [4]),
        Sock (Sock_recv 4 rx_chunk_len (Rx [1, 3, 12, 0, 1])), Sys (Get_time 0)])
      (Rx_send [1, 3, 12, 0] (Send_try 2 5000) [1]) tpc [1, 3, 12, 0] False 0 1)"
  using assms
  by (simp add: link_serving_def link_stats_def link_steps link_defs link_feeds glue_poll2_def socket_calls
    rx_chunk_len_def stats_interval_ms_def send_wait_ms_def)

lemma link_hands_over:
  "rx_step link_sdk c (link_serving h n (Rx_send p (Send_try 2 5000) [1]) tpc q False 0 1) =
    link_serving h (n @ [Rtos (Vhci_available True), Rtos (Vhci_send p)]) (Rx_feed [1]) tpc q False 1 1"
  by (simp add: link_serving_def link_stats_def link_steps link_defs)

lemma link_reaches_takeover:
  obtains h where "reach (tasks_start link_sdk) (prompt_step link_sdk c) (link_taken h)"
    and "length (received 4 h) = 64" and "sb_contents 1 h = []"
proof (rule link_admits [of c])
  fix h
  let ?R = "reach (tasks_start link_sdk) (prompt_step link_sdk c)"
  let ?m = "\<lambda>h. toy_fw\<lparr>bridge := link_bridge, hist := h\<rparr>"
  assume adm: "rx_step link_sdk c (link_g (?m (link_accepted c)) (Rx_accept (- 1) 1 (Acc_auth 4))) =
      link_g (?m h) (Rx_accept (- 1) 1 (Acc_swap 4))" and h: "length (received 4 h) = 64" "sb_contents 1 h = []"
  note rx = reach_task(1) [OF _ prompt_tx]
  have "?R link_start" by (rule reach_start) (rule link_starts)
  from rx [OF this, unfolded link_listens] have poll: "?R (link_g (?m (link_hist c)) Rx_poll)"
    by (simp add: link_start_def link_g_def)
  have "?R (rx_step link_sdk c (link_g (?m (link_hist c)) Rx_poll))"
    by (rule rx [OF poll]) (simp add: link_g_def)
  from rx [OF this, unfolded link_accepts] have
    auth: "?R (link_g (?m (link_accepted c)) (Rx_accept (- 1) 1 (Acc_auth 4)))" by (simp add: link_g_def)
  from rx [OF auth, unfolded adm] have "?R (link_g (?m h) (Rx_accept (- 1) 1 (Acc_swap 4)))"
    by (simp add: link_g_def)
  then have "?R (link_taken h)" using link_takeover run_tasks_reach by blast
  with h show thesis by (intro that)
qed

definition link_trace :: history where
  "link_trace = [Sys (Get_time 0), Rtos (Sb_space 1 16384), Rtos (Sb_send 1 [4, 0x10, 0] 0 3),
     Rtos (Sb_recv 1 tx_chunk_len 100 [4, 0x10, 0])]"

definition link_asked :: history where
  "link_asked = link_trace @ [Rtos Wdt_feed, Sock (Sock_select 5 [3, 4] 1 0 1 [4]),
     Sock (Sock_recv 4 rx_chunk_len (Rx [1, 3, 12, 0, 1])), Sys (Get_time 0)]"

definition link_done :: history where
  "link_done = link_asked @ [Rtos (Vhci_available True), Rtos (Vhci_send [1, 3, 12, 0]), Sys (Get_time 0)]"

lemma link_reaches_traffic:
  obtains h where "reach (tasks_start link_sdk) (prompt_step link_sdk c)
      (link_serving h link_asked (Rx_send [1, 3, 12, 0] (Send_try 2 5000) [1]) (Tx_load [4, 0x10, 0]) [1, 3, 12, 0] False 0 1)"
    and "reach (tasks_start link_sdk) (prompt_step link_sdk c)
      (link_serving h link_done Rx_poll (Tx_load [4, 0x10, 0]) [1] False 1 1)"
    and "length (received 4 h) = 64"
proof (rule link_reaches_takeover [of c])
  fix h
  let ?R = "reach (tasks_start link_sdk) (prompt_step link_sdk c)"
  let ?h = "h @ [Sys (Delay_ms 2), Rtos (Sb_recv 1 tx_chunk_len 0 [])]"
  assume r: "?R (link_taken h)" and h: "length (received 4 h) = 64" "sb_contents 1 h = []"
  have h': "sb_contents 1 ?h = []" "length (received 4 ?h) = 64" using h by (simp_all add: sb_contents_def)
  have rt: "received 4 link_trace = []" by (simp add: link_trace_def)
  have "?R (link_serving ?h link_trace Rx_poll (Tx_load [4, 0x10, 0]) [] False 0 1)"
    using run_tasks_reach [OF link_queues [OF h'(1)] run_tasks_reach [OF link_opens [OF h(2)] r]]
    unfolding link_trace_def .
  from run_tasks_reach [OF link_offers [OF h'(2) rt] this] run_tasks_reach [OF link_delivers [OF h'(2) rt] this]
  show thesis using h'(2) by (intro that [of ?h]) (simp_all add: link_asked_def link_done_def)
qed

section \<open>Properties\<close>

text \<open>The part of \<open>acceptClient\<close> in which the writing task must not run.\<close>

fun taking_over :: "accept_pc \<Rightarrow> bool" where
  "taking_over (Acc_close _ _) = True"
| "taking_over (Acc_failed _) = True"
| "taking_over (Acc_drain _) = True"
| "taking_over (Acc_store _) = True"
| "taking_over Acc_unpause = True"
| "taking_over _ = False"

text \<open>
  C16. While \<open>acceptClient\<close> closes the old connection, empties the stream buffer and installs the new host,
  the writing task is parked: it holds no bytes, and whatever it does then is to wait. This
  relies on the scheduler letting the task report one pause before the next connection is taken over.
\<close>

theorem writer_parked_at_handover:
  assumes "reach (tasks_start E) (prompt_step E c) g" and "rx g = Rx_accept x y a" and "taking_over a"
  shows "tx_held (tx g) = [] \<and> parked (tx g) \<and> parked (tx (tx_step E g)) \<and>
    (hist (mem (tx_step E g)) = hist (mem g) \<or> hist (mem (tx_step E g)) = hist (mem g) @ [Sys (Delay_ms 2)])"
proof -
  have "pause_at a (tx g) (bridge (mem g))" using pausing.reach_inv [OF assms(1)] assms(2) by (simp add: pause_inv_def)
  then have "tx_pause (bridge (mem g))" "parked (tx g)" using assms(3) by (cases a; simp)+
  then show ?thesis by (auto simp: parked_def task_steps task_calls)
qed

theorem writer_parked_at_handover_witness:
  "\<exists>g. reach (tasks_start link_sdk) (prompt_step link_sdk link_conf) g \<and> rx g = Rx_accept (- 1) 1 (Acc_failed 4) \<and>
    parked (tx (tx_step link_sdk g))"
proof (rule link_reaches_takeover [of link_conf])
  fix h
  assume r: "reach (tasks_start link_sdk) (prompt_step link_sdk link_conf) (link_taken h)"
  have pc: "rx (link_taken h) = Rx_accept (- 1) 1 (Acc_failed 4)" by (simp add: link_taken_def link_g_def)
  from writer_parked_at_handover [OF r pc] r pc show ?thesis by auto
qed

text \<open>
  Without that assumption the pause fails: a task that has seen the pause of the last connection and reports it
  only when the next one has cleared the report makes \<open>acceptClient\<close> believe that it is parked, while it goes
  on to read from the stream buffer that is being drained.
\<close>

lemma late_report_breaks_pause:
  assumes "rx g = Rx_accept x y (Acc_idle old new)" and "tx g = Tx_park" and "\<not> tx_pause (bridge (mem g))"
  shows "\<exists>g'. (any_step E c)\<^sup>*\<^sup>* g g' \<and>
    rx g' = Rx_accept x y (Acc_drain new) \<and> tx g' = Tx_recv"
proof -
  let ?R = "any_step E c"
  have "?R h (rx_step E c h)" "?R h (tx_step E h)" for h
    unfolding any_step_def by (rule exI, rule step_rx, rule exI, rule step_tx)
  then have rx: "?R\<^sup>*\<^sup>* g h \<Longrightarrow> ?R\<^sup>*\<^sup>* g (rx_step E c h)" and tx: "?R\<^sup>*\<^sup>* g h \<Longrightarrow> ?R\<^sup>*\<^sup>* g (tx_step E h)" for h
    by (blast intro: rtranclp.rtrancl_into_rtrancl)+
  let ?g1 = "tx_step E (tx_step E (rx_step E c g))"
  let ?g2 = "rx_step E c (rx_step E c (rx_step E c (rx_step E c ?g1)))"
  have "?R\<^sup>*\<^sup>* g (tx_step E ?g2)" by (intro rx tx) simp
  moreover have g1: "rx ?g1 = Rx_accept x y (Acc_pause old new)" "tx ?g1 = Tx_busy" "tx_idle (bridge (mem ?g1))"
    using assms by (simp_all add: task_steps task_calls)
  then have "rx ?g2 = Rx_accept x y (Acc_drain new)" "tx ?g2 = Tx_busy" by (simp_all add: task_steps task_calls)
  then have "rx (tx_step E ?g2) = Rx_accept x y (Acc_drain new)" "tx (tx_step E ?g2) = Tx_recv"
    by (simp_all add: tx_step_def txTask_step_def)
  ultimately show ?thesis by blast
qed


lemma apart_no_packet: "list_all (apart fd) l \<Longrightarrow> Rtos (Vhci_send p) \<notin> set l"
  by (auto simp: list_all_iff)

text \<open>Packets are given to the controller in one place.\<close>

lemma rx_delivers:
  assumes "hist (mem (rx_step E c g)) = hist (mem g) @ new" and "Rtos (Vhci_send p) \<in> set new"
  shows "\<exists>sp rest. rx g = Rx_send p sp rest"
proof (cases "rx g")
  case Rx_start
  let ?s = "(mem g)\<lparr>hist := hist (mem g) @ [Rtos Wdt_add]\<rparr>"
  from emits_listen [of E "glue_tcp_port c"] obtain l where
    "snd (run_state (glue_listen E (glue_tcp_port c)) ?s) = ?s\<lparr>hist := hist ?s @ l\<rparr>" "set l \<subseteq> {e. \<exists>x. e = Sock x}"
    unfolding emits_def by blast
  with Rx_start assms show ?thesis by (auto simp: task_steps task_calls split: if_splits)
next
  case Rx_poll
  let ?cl = "client_fd (bridge (mem g))"
  let ?s = "(mem g)\<lparr>hist := hist (mem g) @ [Rtos Wdt_feed]\<rparr>"
  obtain l where "snd (run_state (glue_poll2 E (listen_fd (bridge (mem g))) ?cl 1000) ?s) = ?s\<lparr>hist := hist ?s @ l\<rparr>"
    "list_all (apart ?cl) l" by (rule emits_apart_run [OF emits_poll2])
  with Rx_poll assms apart_no_packet [of ?cl l p] show ?thesis by (auto simp: task_steps task_calls split: if_splits)
next
  case (Rx_accept x y a)
  let ?cl = "client_fd (bridge (mem g))"
  show ?thesis
  proof (cases a)
    case Acc_accept
    obtain l where "snd (run_state (glue_accept E (listen_fd (bridge (mem g)))) (mem g)) =
        (mem g)\<lparr>hist := hist (mem g) @ l\<rparr>" "list_all (apart ?cl) l"
      by (rule emits_apart_run [OF emits_accept])
    with Rx_accept Acc_accept assms apart_no_packet [of ?cl l p] show ?thesis by (auto simp: task_steps)
  next
    case (Acc_auth n)
    obtain l where "snd (run_state (glue_auth_handshake E n) (mem g)) = (mem g)\<lparr>hist := hist (mem g) @ l\<rparr>"
      "set l \<subseteq> socket_events n" "\<forall>fd. fd \<noteq> n \<longrightarrow> list_all (apart fd) l"
      by (rule emits_socket_run [OF emits_handshake])
    with Rx_accept Acc_auth assms show ?thesis
      by (auto simp: task_steps task_calls socket_events_def split: if_splits)
  qed (use Rx_accept assms in \<open>auto simp: task_steps task_calls split: if_splits option.splits\<close>)
next
  case (Rx_drop d k)
  with assms show ?thesis by (cases d) (auto simp: task_steps task_calls)
next
  case (Rx_feed chunk)
  with assms show ?thesis by (auto simp: task_steps split: option.splits sum.splits if_splits)
next
  case (Rx_send q sp rest)
  with assms show ?thesis by (cases sp) (auto simp: task_steps task_calls split: option.splits if_splits)
qed (use assms in \<open>auto simp: task_steps task_calls split: if_splits\<close>)

text \<open>
  C1. The radio belongs to admitted hosts: whenever a packet is handed to the controller, a host is connected
  whose socket has passed the handshake and has not been closed since, and the packet is a whole HCI packet of at most
  1026 bytes, in every interleaving of the tasks, with no assumption on the scheduler.
\<close>

theorem controller_gets_admitted_packets:
  assumes "reach (tasks_start E) (any_step E c) g" and "any_step E c g g'" and "accept_law E"
    and "hist (mem g') = hist (mem g) @ new" and "Rtos (Vhci_send p) \<in> set new"
  shows "0 \<le> client_fd (bridge (mem g)) \<and> client_fd (bridge (mem g)) \<in> open_fds (hist (mem g)) \<and>
    admitted E (client_fd (bridge (mem g))) (hist (mem g)) \<and> is_packet rx_packet_len p \<and> length p \<le> 1026"
proof -
  from link_facts [OF assms(1)] assms(3) have inv: "fd_inv E g" "ctl_inv g" by auto
  from assms(2) have "g' = rx_step E c g"
  proof (cases rule: any_cases)
    case tx
    from tx_step_quiet_in [of E g] tx assms(4,5) show ?thesis by (auto simp: list_all_iff quiet_in_def)
  next
    case (env a)
    then show ?thesis by (rule env_step) (use assms(4,5) in \<open>auto simp: list_all_iff\<close>)
  qed
  with rx_delivers assms(4,5) obtain sp rest where pc: "rx g = Rx_send p sp rest" by blast
  with inv have "0 \<le> client_fd (bridge (mem g))" by (simp add: fd_inv_def Let_def)
  moreover from this inv pc have "is_packet rx_packet_len p" by (simp add: ctl_inv_def Let_def)
  moreover from this have "length p \<le> 1026" by (cases p) (auto simp: rx_packet_len_def split: option.splits)
  ultimately show ?thesis using inv(1) by (simp add: fd_inv_def Let_def)
qed

theorem controller_gets_admitted_packets_witness:
  "\<exists>g. reach (tasks_start link_sdk) (any_step link_sdk link_conf) g \<and>
    client_fd (bridge (mem g)) = 4 \<and> admitted link_sdk 4 (hist (mem g)) \<and> is_packet rx_packet_len [1, 3, 12, 0]"
proof (rule link_reaches_traffic [of link_conf])
  fix h
  let ?g = "link_serving h link_asked (Rx_send [1, 3, 12, 0] (Send_try 2 5000) [1]) (Tx_load [4, 0x10, 0]) [1, 3, 12, 0] False 0 1"
  let ?g' = "link_serving h (link_asked @ [Rtos (Vhci_available True), Rtos (Vhci_send [1, 3, 12, 0])]) (Rx_feed [1])
    (Tx_load [4, 0x10, 0]) [1, 3, 12, 0] False 1 1"
  assume "reach (tasks_start link_sdk) (prompt_step link_sdk link_conf) ?g"
  then have r: "reach (tasks_start link_sdk) (any_step link_sdk link_conf) ?g" by (rule reach_any)
  have "bridge_step link_sdk link_conf By_rx ?g ?g'"
    using step_rx [of link_sdk link_conf ?g] by (simp only: link_hands_over)
  then have step: "any_step link_sdk link_conf ?g ?g'" unfolding any_step_def by blast
  have "client_fd (bridge (mem ?g)) = 4" by (simp add: link_serving_def)
  moreover have "hist (mem ?g') = hist (mem ?g) @ [Rtos (Vhci_available True), Rtos (Vhci_send [1, 3, 12, 0])]"
    by (simp add: link_serving_def)
  ultimately show ?thesis
    using controller_gets_admitted_packets [OF r step link_accept_law, of _ "[1, 3, 12, 0]"] r by auto
qed

text \<open>
  C2. The stream to the host: what the connected host has been sent since it was installed, what the writing
  task holds and what waits in the stream buffer are together exactly the packets queued in that time, whole and
  in order: nothing queued before, no gap and no reordering, until a send fails. This holds in the interleavings
  of the tasks in which the writing task reports one pause before the next connection is taken over
  (\<open>prompt\<close>); without that it may read from the stream buffer while it is being drained.
\<close>

theorem host_stream_exact:
  assumes "reach (tasks_start E) (prompt_step E c) g" and "bridge_laws E"
    and "client_fd (bridge (mem g)) = fd" and "0 \<le> fd" and "\<not> send_failed fd (session g)"
  shows "\<exists>b. sb (bridge (mem g)) = Some b \<and>
    sent fd (session g) @ tx_held (tx g) @ sb_contents b (hist (mem g)) = concat (queued b (session g))"
  using tasks_facts [OF assms(1)] assms(2-5) by (auto simp: host_inv_def Let_def)

theorem host_stream_exact_witness:
  "\<exists>g. reach (tasks_start link_sdk) (prompt_step link_sdk link_conf) g \<and> client_fd (bridge (mem g)) = 4 \<and>
    tx_held (tx g) = [4, 0x10, 0] \<and> queued 1 (session g) = [[4, 0x10, 0]] \<and>
    sent 4 (session g) @ tx_held (tx g) @ sb_contents 1 (hist (mem g)) = concat (queued 1 (session g))"
proof (rule link_reaches_traffic [of link_conf])
  fix h
  let ?g = "link_serving h link_done Rx_poll (Tx_load [4, 0x10, 0]) [1] False 1 1"
  assume r: "reach (tasks_start link_sdk) (prompt_step link_sdk link_conf) ?g"
  have s: "session ?g = link_done" by (simp add: session_def link_serving_def)
  have g: "client_fd (bridge (mem ?g)) = 4" "sb (bridge (mem ?g)) = Some 1" "tx_held (tx ?g) = [4, 0x10, 0]"
    by (simp_all add: link_serving_def link_bridge_def)
  have q: "queued 1 (session ?g) = [[4, 0x10, 0]]" "\<not> send_failed 4 (session ?g)"
    unfolding s by (simp_all add: link_done_def link_asked_def link_trace_def)
  from host_stream_exact [OF r link_bridge_laws g(1) _ q(2)] g q r show ?thesis by auto
qed

lemma ctl_at_subseq: "ctl_at pc ra R D ok \<Longrightarrow> subseq D (fst (scan rx_packet_len [] R))"
proof -
  have ext: "subseq D (fst (scan rx_packet_len [] R))" if "in_order ra R chunk D ok" for chunk D
    using that by (auto simp: in_order_def scan_append intro: subseq_order.order_trans [OF _ list_emb_prefix])
  assume "ctl_at pc ra R D ok"
  then show ?thesis
  proof (cases pc)
    case (Rx_send p sp rest)
    with \<open>ctl_at pc ra R D ok\<close> have "in_order ra R rest D False" by (auto dest: in_order_refused)
    then show ?thesis by (auto simp: in_order_def scan_append intro: subseq_order.order_trans [OF _ list_emb_prefix])
  qed (auto intro: ext)
qed

text \<open>
  C3. The stream to the controller: what the controller has been given since the host was installed is a
  subsequence of the packets in the bytes received from that host, as the byte-by-byte reading finds them; and when
  the controller took every packet at once and all bytes are processed, it is all of them, in order. This holds in
  every interleaving of the tasks, with no assumption on the scheduler.
\<close>

theorem controller_stream_exact:
  assumes "reach (tasks_start E) (any_step E c) g" and "accept_law E"
    and "client_fd (bridge (mem g)) = fd" and "0 \<le> fd"
  shows "subseq (delivered (session g)) (fst (scan rx_packet_len [] (received fd (session g)))) \<and>
    (rx g = Rx_poll \<and> always_ready (session g) \<longrightarrow>
      delivered (session g) = fst (scan rx_packet_len [] (received fd (session g))))"
proof -
  from link_facts [OF assms(1)] assms(2-4) have
    "ctl_at (rx g) (re g) (received fd (session g)) (delivered (session g)) (always_ready (session g))"
    by (simp add: ctl_inv_def Let_def)
  then show ?thesis by (auto dest: ctl_at_subseq simp: in_order_def)
qed

theorem controller_stream_exact_witness:
  "\<exists>g. reach (tasks_start link_sdk) (any_step link_sdk link_conf) g \<and> client_fd (bridge (mem g)) = 4 \<and>
    received 4 (session g) = [1, 3, 12, 0, 1] \<and> delivered (session g) = [[1, 3, 12, 0]] \<and>
    delivered (session g) = fst (scan rx_packet_len [] (received 4 (session g)))"
proof (rule link_reaches_traffic [of link_conf])
  fix h
  let ?g = "link_serving h link_done Rx_poll (Tx_load [4, 0x10, 0]) [1] False 1 1"
  assume "reach (tasks_start link_sdk) (prompt_step link_sdk link_conf) ?g"
  then have r: "reach (tasks_start link_sdk) (any_step link_sdk link_conf) ?g" by (rule reach_any)
  have s: "session ?g = link_done" by (simp add: session_def link_serving_def)
  have g: "client_fd (bridge (mem ?g)) = 4" "rx ?g = Rx_poll" by (simp_all add: link_serving_def)
  have q: "received 4 (session ?g) = [1, 3, 12, 0, 1]" "delivered (session ?g) = [[1, 3, 12, 0]]" "always_ready (session ?g)"
    unfolding s by (simp_all add: link_done_def link_asked_def link_trace_def)
  have "delivered (session ?g) = fst (scan rx_packet_len [] (received 4 (session ?g)))"
    using controller_stream_exact [OF r link_accept_law g(1)] g(2) q(3) by simp
  with r g(1) q(1,2) show ?thesis by blast
qed

text \<open>
  C38. \<open>acceptClient\<close> keeps the old descriptor open until the writing task is parked. \<open>dropClient\<close> does not: in this run
  the host closes the connection, and the descriptor is closed while the writing task is about to send to it, so that
  the next connection may be given the same number.
\<close>

theorem drop_closes_descriptor_in_use:
  "\<exists>g. reach (tasks_start link_sdk) (prompt_step link_sdk link_conf) g \<and> tx g = Tx_send 4 [4, 0x10, 0] \<and>
    4 \<notin> open_fds (hist (mem g))"
proof (rule link_reaches_traffic [of link_conf])
  fix h
  let ?g = "link_serving h link_done Rx_poll (Tx_load [4, 0x10, 0]) [1] False 1 1"
  assume r: "reach (tasks_start link_sdk) (prompt_step link_sdk link_conf) ?g" and h: "length (received 4 h) = 64"
  have "received 4 link_done = [1, 3, 12, 0, 1]" by (simp add: link_done_def link_asked_def link_trace_def)
  with h have "\<exists>g. run_tasks link_sdk link_conf (map (\<lambda>a. (a, [])) [By_tx, By_rx, By_rx, By_rx, By_rx, By_rx]) ?g = Some g \<and>
      tx g = Tx_send 4 [4, 0x10, 0] \<and> (\<exists>h'. hist (mem g) = h' @ [Sock (Sock_close 4)])"
    by (simp add: link_serving_def link_stats_def link_steps link_defs glue_poll2_def socket_calls rx_chunk_len_def)
  then obtain g h' where run: "run_tasks link_sdk link_conf (map (\<lambda>a. (a, [])) [By_tx, By_rx, By_rx, By_rx, By_rx, By_rx]) ?g = Some g"
    and g: "tx g = Tx_send 4 [4, 0x10, 0]" "hist (mem g) = h' @ [Sock (Sock_close 4)]" by blast
  have "4 \<notin> open_fds (hist (mem g))" by (simp add: g(2) open_append)
  with run_tasks_reach [OF run r] g(1) show ?thesis by blast
qed

end
