(* ===== verification/Spec2Isabelle.thy ===== *)
theory Spec2Isabelle
  imports Board Streams
begin

text \<open>
  A verification of the firmware of the ESP32 HCI bridge (\<open>firmware/main\<close>), which makes the Bluetooth
  controller of an ESP32 available over TCP to a Linux host.

  \<^bold>\<open>The program and its parts.\<close> After power-on \<open>app_main\<close> (\<open>glue.c\<close>) notes its progress in memory
  that survives a reset (\<open>boottrace.c\<close>), opens the flash storage, reads the board's key (\<open>auth.c\<close>),
  brings up Ethernet or WiFi or, without credentials, a setup portal (\<open>net.c\<close>), then the controller, the
  bridge (\<open>bridge.zig\<close>), the HTTP server with status, update, claim and unclaim (\<open>ota.c\<close>) and the discovery
  task (\<open>glue.c\<close>). A board is claimed by a host with an X25519 exchange; from then on the 32-byte key
  authenticates HCI connections (a mutual challenge and response), HTTP requests (two proofs bound to a
  nonce) and discovery announcements.

  \<^bold>\<open>How it is modelled.\<close> ESP-IDF, lwIP, mbedTLS and FreeRTOS are a parameter: the record \<open>sdk\<close> of
  \<open>Platform\<close> maps the arguments of each call and the history of all calls so far to the result of the
  call. The state \<open>fw\<close> holds the static variables and that history, so the order of all effects
  is visible. Every C function is a function in the state monad over \<open>fw\<close>, with the name it has in the
  source; \<open>ESP_ERROR_CHECK\<close>, restarts and aborts are outcomes; reads past the end of an array are explicit
  values (\<open>None\<close>, \<open>Sig_overread\<close>, \<open>Resp_overread\<close>). What a theorem needs of the platform is a named
  hypothesis from \<open>Laws\<close>, each of which states documented behaviour; nothing is assumed of a context of
  the crypto library after one of its calls failed. Results that the source ignores are in the history too, and
  a theorem that needs such a call to work says so (\<open>sha_law\<close> for the streaming digest of an update,
  \<open>img_law\<close> for the confirmation of an image). The last section of \<open>Laws\<close> has a concrete platform with all of
  them, on which the witnesses run.

  \<^bold>\<open>Theories.\<close>
  \<^item> \<open>Prelude\<close>: bytes, C strings, the state monad and weakest preconditions, the contracts
    \<open>inductive_invariant\<close> and \<open>codec\<close>.
  \<^item> \<open>Platform\<close>, \<open>CLib\<close>, \<open>Laws\<close>: the calls, \<open>printf\<close> and \<open>snprintf\<close>, the documented laws; the frame
    calculus \<open>emits\<close> and the contract \<open>field_frame\<close> bound what a function may touch.
  \<^item> \<open>Boottrace\<close>: \<open>boottrace.c\<close>.
  \<^item> \<open>Auth\<close>, \<open>Handshake\<close>, \<open>Claim\<close>: \<open>auth.c\<close> and the host's half in \<open>common/auth.zig\<close>. Proofs are
    accepted only if right and only if every call of the crypto library succeeded; a used proof is dead; the handshake
    admits exactly the holders of the key within five seconds; both sides of a claim get the same key, which
    survives a restart, and giving it up erases it. The contract \<open>mac_role\<close> states what a MAC binds.
  \<^item> \<open>Glue\<close>, \<open>Bridge\<close>: the wrappers of \<open>glue.c\<close> and the entry points of \<open>bridge.zig\<close>.
  \<^item> \<open>H4\<close>: \<open>common/h4.zig\<close>, the reassembly of packets. It agrees with a reading of the stream byte by byte,
    however the stream is cut, and stays inside its storage.
  \<^item> \<open>Tasks\<close>, \<open>Streams\<close>: \<open>rxTask\<close> and \<open>txTask\<close> of \<open>bridge.zig\<close> with all they call, as steps that interleave
    with each other, with the controller's task and with the rest of the firmware. Only hosts that passed the handshake
    reach the controller, with whole packets; the stream to the controller is exact for each host, and with a
    prompt writing task so is the stream to the host, and that task is parked while hosts change.
  \<^item> \<open>Ota\<close>, \<open>Requests\<close>: \<open>ota.c\<close>. Flash and boot partition are touched only after the proofs, a valid
    update is installed, sessions are closed on every path, uploads end, an unconfirmed image rolls back.
  \<^item> \<open>Net\<close>: \<open>net.c\<close>. Provisioning from the browser's form to the radio, the limits of the form, the result
    of \<open>net_start\<close>, the address as text.
  \<^item> \<open>Discovery\<close>: \<open>discovery_task\<close> of \<open>glue.c\<close> and the reader in \<open>common/discovery.zig\<close>. Announcements
    can be read and verified, signatures cannot be moved, the arrays suffice, the rate of datagrams is bounded.
  \<^item> \<open>App\<close>: \<open>bt_init\<close> and \<open>app_main\<close>. A boot ends at its first checked call that fails, or none did; what
    it leaves for the next, and what happens to the key.
  \<^item> \<open>Board\<close>: all of it as a state machine with boots, power losses and requests in any order: memory and
    flash agree in every reachable state, and the board refines the owner's view of it.
  \<^item> This theory: the five uses of the key never share a message.

  \<^bold>\<open>Bounds.\<close> No function needs fuel: the loops of \<open>recv_exact\<close>, \<open>glue_send\<close> and the upload end by
  measures. The endless loop of \<open>discovery_task\<close> is cut into a list of iterations, for every list, with any
  change of the shared variables by other tasks between two of them. The loops of \<open>rxTask\<close> and \<open>txTask\<close> are
  steps of a relation, for runs of any length; those of \<open>feed\<close> and \<open>feedAll\<close> are partial functions
  that are proved to end. Words keep their widths; the clock in
  milliseconds and the nonce counter wrap around. Operations of \<open>Board\<close> run one after the other; an unclaim
  during a handshake is treated in \<open>Claim\<close>, the tasks of the bridge in \<open>Tasks\<close>. There a step is one access to a
  shared variable or one call of \<open>glue.c\<close>, and \<open>glue_send\<close>, the handshake and the queueing of one packet are one
  call each. What is shown of the sockets and of the stream to the controller holds in every schedule
  (\<open>any_step\<close>). What is shown of the writing task and of the stream to the host assumes of the scheduler that
  the writing task reports a pause before the next host is taken over (\<open>prompt_step\<close>); without it the pause
  fails (\<open>late_report_breaks_pause\<close>).

  \<^bold>\<open>Not modelled.\<close> Logging (\<open>ESP_LOGx\<close>, \<open>glue_log\<close>, \<open>logStats\<close>, \<open>eth_event\<close>) writes to the console only.
  The host programs under \<open>host\<close> run on Linux; only the functions that meet the firmware (\<open>clientMac\<close>,
  \<open>boardMac\<close>, \<open>derivePsk\<close>, \<open>announceSig\<close>, \<open>verifyAnnounce\<close>, \<open>parse\<close>) are here. Build files, packaging, scripts
  and the web page have no behaviour of their own. Ticks are left in milliseconds, and DMA, caches and memory
  ordering are below the model: atomic variables are sequentially consistent, which the release and acquire
  orderings of the source do not promise by themselves.

  \<^bold>\<open>Plan.\<close> What is left is the host's half of the protocols: the handshake of \<open>host/handshake.zig\<close> as a
  program run against the board, and the session of \<open>host/session.zig\<close>, which uses the same reassembler.
\<close>

section \<open>One key, five uses\<close>

text \<open>
  The board's key authenticates five kinds of messages: the client's and the board's answer of the
  handshake, the proof of a request with its body and the one before its body, and announcements.
\<close>

datatype role = Client_answer | Board_answer | Request_proof | Pre_proof | Announcement

definition auth_paths :: "bytes set" where
  "auth_paths = {str ''/ota'', str ''/reboot'', str ''/unclaim''}"

fun role_messages :: "role \<Rightarrow> bytes set" where
  "role_messages Client_answer = {sn @ cn @ DOM_CLIENT | sn cn. length sn = NONCE_LEN \<and> length cn = NONCE_LEN}"
| "role_messages Board_answer = {cn @ sn @ DOM_BOARD | sn cn. length sn = NONCE_LEN \<and> length cn = NONCE_LEN}"
| "role_messages Request_proof =
     {http_msg (str ''POST'') path n sha | path n sha. path \<in> auth_paths \<and> length n = HTTP_NONCE_LEN \<and> length sha = 32}"
| "role_messages Pre_proof =
     {pre_msg (str ''POST'') path n len | path n len. path \<in> auth_paths \<and> length n = HTTP_NONCE_LEN}"
| "role_messages Announcement = {announce_msg (bdaddr_text mac) port name ip | mac port name ip. True}"

text \<open>The use of a message can be told from its length, its first and its last byte.\<close>

definition role_of :: "bytes \<Rightarrow> role" where
  "role_of m =
     (if hd m = 80 \<and> length m \<in> {62, 65, 66} then Request_proof
      else if hd m = 80 \<and> length m \<in> {38, 41, 42} then Pre_proof
      else if length m = 78 \<and> last m = 116 then Client_answer
      else if length m = 77 \<and> last m = 100 then Board_answer
      else Announcement)"

lemma auth_path_length: "path \<in> auth_paths \<Longrightarrow> length path = 4 \<or> length path = 7 \<or> length path = 8"
  by (auto simp: auth_paths_def)

lemma head_literals: "hd (str ''POST'' @ x) = 80" "hd (str ''PRE '' @ x) = 80"
  by (simp_all add: str_def)

lemma role_requests:
  "m \<in> role_messages Request_proof \<Longrightarrow> role_of m = Request_proof"
  "m \<in> role_messages Pre_proof \<Longrightarrow> role_of m = Pre_proof"
proof -
  assume "m \<in> role_messages Request_proof"
  then obtain path n sha where m: "m = http_msg (str ''POST'') path n sha" "path \<in> auth_paths"
    "length n = HTTP_NONCE_LEN" "length sha = 32" by auto
  have "hd m = 80" unfolding m(1) http_msg_def by (rule head_literals)
  moreover have "length m = length path + 58" using m by (simp add: http_msg_def HTTP_NONCE_LEN_def)
  ultimately show "role_of m = Request_proof" using auth_path_length [OF m(2)] by (auto simp: role_of_def)
next
  assume "m \<in> role_messages Pre_proof"
  then obtain path n len where m: "m = pre_msg (str ''POST'') path n len" "path \<in> auth_paths"
    "length n = HTTP_NONCE_LEN" by auto
  have "hd m = 80" unfolding m(1) pre_msg_def by (rule head_literals)
  moreover have "length m = length path + 34" using m by (simp add: pre_msg_def HTTP_NONCE_LEN_def be32_def)
  ultimately show "role_of m = Pre_proof" using auth_path_length [OF m(2)] by (auto simp: role_of_def)
qed

lemma last_domains: "last (x @ DOM_CLIENT) = 116" "last (x @ DOM_BOARD) = 100"
  "length DOM_CLIENT = 14" "length DOM_BOARD = 13"
  by (simp_all add: DOM_CLIENT_def DOM_BOARD_def str_def)

lemma role_answers:
  "m \<in> role_messages Client_answer \<Longrightarrow> role_of m = Client_answer"
  "m \<in> role_messages Board_answer \<Longrightarrow> role_of m = Board_answer"
proof -
  assume "m \<in> role_messages Client_answer"
  then obtain sn cn where m: "m = (sn @ cn) @ DOM_CLIENT" "length sn = NONCE_LEN" "length cn = NONCE_LEN" by auto
  then have "length m = 78" "last m = 116" by (simp_all only: last_domains) (simp add: last_domains NONCE_LEN_def)
  then show "role_of m = Client_answer" by (simp add: role_of_def)
next
  assume "m \<in> role_messages Board_answer"
  then obtain sn cn where m: "m = (cn @ sn) @ DOM_BOARD" "length sn = NONCE_LEN" "length cn = NONCE_LEN" by auto
  then have "length m = 77" "last m = 100" by (simp_all only: last_domains) (simp add: last_domains NONCE_LEN_def)
  then show "role_of m = Board_answer" by (simp add: role_of_def)
qed

lemma hx_not_P: "\<forall>c \<in> set hx. c \<noteq> 80" by code_simp

lemma role_announcement:
  assumes "m \<in> role_messages Announcement"
  shows "role_of m = Announcement"
proof -
  obtain mac port name ip where m: "m = announce_msg (bdaddr_text mac) port name ip" using assms by auto
  have "hd m = hx ! unat (drop_bit 4 (mac ! 0))" by (simp add: m announce_msg_def bdaddr_text_def fmt_02x_def)
  then have "hd m \<noteq> 80" using hx_not_P hex_byte_split(1) [of "mac ! 0"] nth_mem [of _ hx] by (metis length_hx)
  moreover have "last m = last (fmt_u (unat (ip ! 3)))" by (simp add: m announce_msg_def)
  then have "is_digit (last m)" using fmt_u_digits last_in_set [OF fmt_u_nonempty] by metis
  then have "last m \<noteq> 116" "last m \<noteq> 100" by (auto simp: is_digit_def)
  ultimately show ?thesis by (simp add: role_of_def)
qed

lemma role_of_messages: "m \<in> role_messages r \<Longrightarrow> role_of m = r"
  by (cases r) (simp_all only: role_requests role_answers role_announcement)

text \<open>
  C22. No message is valid in two roles. What the board or the owner signs for one purpose is never a
  message of another purpose, although all five share one key and none is tagged in the same way: an
  announcement or a handshake answer cannot be replayed as a request, nor one half of the handshake as the
  other.
\<close>

theorem mac_roles_disjoint:
  assumes "m \<in> role_messages r" and "m \<in> role_messages r'"
  shows "r = r'"
  using role_of_messages [OF assms(1)] role_of_messages [OF assms(2)] by simp

theorem mac_roles_disjoint_witness:
  "announce_msg (bdaddr_text [1, 2, 3, 4, 5, 6]) 4444 (str ''hcibridge'') [192, 168, 0, 10] \<notin> role_messages Client_answer"
proof
  assume "announce_msg (bdaddr_text [1, 2, 3, 4, 5, 6]) 4444 (str ''hcibridge'') [192, 168, 0, 10]
    \<in> role_messages Client_answer"
  moreover have "announce_msg (bdaddr_text [1, 2, 3, 4, 5, 6]) 4444 (str ''hcibridge'') [192, 168, 0, 10]
    \<in> role_messages Announcement" by auto
  ultimately have "Client_answer = Announcement" by (rule mac_roles_disjoint)
  then show False by simp
qed

end
